(* ===== verification/Mononoke_Prelude.thy ===== *)
theory Mononoke_Prelude
  imports Main "HOL-Library.Word" "HOL-Library.List_Lexorder" "HOL-Library.Sublist"
begin

text \<open>
  What the components share: bytes, results of fallible code, the sorted
  association lists that stand for \<open>BTreeMap\<close>, and the generic lemmas on lists that
  the component proofs use.

  A fallible Rust function returns \<open>'e + 'a\<close>: \<open>Inl e\<close> is \<open>Err(e)\<close> and \<open>Inr a\<close> is
  \<open>Ok(a)\<close>. Futures are treated as the values they resolve to, so \<open>and_then\<close> is both
  the method of \<open>Result\<close> and the one of \<open>Future\<close>.
\<close>

type_synonym byte = "8 word"
type_synonym bytes = "byte list"

named_theorems result_simps \<open>equations of the result combinators\<close>
named_theorems btree_simps \<open>laws of the sorted association lists\<close>

section \<open>Results\<close>

fun and_then :: "'e + 'a \<Rightarrow> ('a \<Rightarrow> 'e + 'b) \<Rightarrow> 'e + 'b" where
  "and_then (Inl e) f = Inl e"
| "and_then (Inr a) f = f a"

fun map_ok :: "('a \<Rightarrow> 'b) \<Rightarrow> 'e + 'a \<Rightarrow> 'e + 'b" where
  "map_ok f (Inl e) = Inl e"
| "map_ok f (Inr a) = Inr (f a)"

fun map_err :: "('e \<Rightarrow> 'f) \<Rightarrow> 'e + 'a \<Rightarrow> 'f + 'a" where
  "map_err f (Inl e) = Inl (f e)"
| "map_err f (Inr a) = Inr a"

fun is_ok :: "'e + 'a \<Rightarrow> bool" where
  "is_ok (Inl e) = False"
| "is_ok (Inr a) = True"

text \<open>
  \<open>collect_ok f xs\<close> is \<open>xs.into_iter().map(f).collect::<Result<Vec<_>>>()\<close>, and
  \<open>join_all\<close> over futures that are already resolved: the first error, or all results.
\<close>

fun collect_ok :: "('a \<Rightarrow> 'e + 'b) \<Rightarrow> 'a list \<Rightarrow> 'e + 'b list" where
  "collect_ok f [] = Inr []"
| "collect_ok f (x # xs) =
     and_then (f x) (\<lambda>y. and_then (collect_ok f xs) (\<lambda>ys. Inr (y # ys)))"

lemma and_then_eq_Inr [result_simps]:
  "and_then r f = Inr b \<longleftrightarrow> (\<exists>a. r = Inr a \<and> f a = Inr b)"
  by (cases r) auto

lemma and_then_eq_Inl [result_simps]:
  "and_then r f = Inl e \<longleftrightarrow> r = Inl e \<or> (\<exists>a. r = Inr a \<and> f a = Inl e)"
  by (cases r) auto

lemma map_ok_eq_Inr [result_simps]: "map_ok f r = Inr b \<longleftrightarrow> (\<exists>a. r = Inr a \<and> b = f a)"
  by (cases r) auto

lemma map_ok_eq_Inl [result_simps]: "map_ok f r = Inl e \<longleftrightarrow> r = Inl e"
  by (cases r) auto

lemma map_err_eq_Inr [result_simps]: "map_err f r = Inr a \<longleftrightarrow> r = Inr a"
  by (cases r) auto

lemma map_err_eq_Inl [result_simps]: "map_err f r = Inl e \<longleftrightarrow> (\<exists>d. r = Inl d \<and> e = f d)"
  by (cases r) auto

lemma is_ok_iff: "is_ok r \<longleftrightarrow> (\<exists>a. r = Inr a)"
  by (cases r) auto

lemma collect_ok_eq_Inr [result_simps]:
  "collect_ok f xs = Inr ys \<longleftrightarrow> list_all2 (\<lambda>x y. f x = Inr y) xs ys"
  by (induction xs arbitrary: ys) (auto simp: and_then_eq_Inr list_all2_Cons1)

lemma collect_ok_Inr: "(\<And>x. x \<in> set xs \<Longrightarrow> f x = Inr (g x)) \<Longrightarrow> collect_ok f xs = Inr (map g xs)"
  by (induction xs) auto

lemma collect_ok_mem:
  "collect_ok f xs = Inr ys \<Longrightarrow> y \<in> set ys \<Longrightarrow> \<exists>x \<in> set xs. f x = Inr y"
  by (induction xs arbitrary: ys) (auto simp: and_then_eq_Inr)

lemma collect_ok_map: "collect_ok f (map g xs) = collect_ok (f \<circ> g) xs"
  by (induction xs) auto

section \<open>Lists\<close>

text \<open>\<open>split_on c xs\<close> is \<open>xs.split(|x| *x == c)\<close>: always at least one part.\<close>

fun split_on :: "'a \<Rightarrow> 'a list \<Rightarrow> 'a list list" where
  "split_on c [] = [[]]"
| "split_on c (x # xs) =
     (if x = c then [] # split_on c xs
      else (case split_on c xs of [] \<Rightarrow> [[x]] | p # ps \<Rightarrow> (x # p) # ps))"

text \<open>\<open>join_on c xss\<close> is \<open>xss.join(&c)\<close>.\<close>

fun join_on :: "'a \<Rightarrow> 'a list list \<Rightarrow> 'a list" where
  "join_on c [] = []"
| "join_on c [xs] = xs"
| "join_on c (xs # xss) = xs @ c # join_on c xss"

lemma split_on_not_Nil [simp]: "split_on c xs \<noteq> []"
  by (induction xs) (auto split: list.splits)

lemma split_on_no_sep: "c \<notin> set xs \<Longrightarrow> split_on c xs = [xs]"
  by (induction xs) auto

lemma split_on_append_sep:
  "c \<notin> set xs \<Longrightarrow> split_on c (xs @ c # ys) = xs # split_on c ys"
  by (induction xs) auto

lemma split_on_join_on:
  assumes "xss \<noteq> []" and "\<forall>xs \<in> set xss. c \<notin> set xs"
  shows "split_on c (join_on c xss) = xss"
  using assms by (induction c xss rule: join_on.induct) (auto simp: split_on_no_sep split_on_append_sep)

lemma set_split_on: "p \<in> set (split_on c xs) \<Longrightarrow> set p \<subseteq> set xs - {c}"
proof (induction xs arbitrary: p)
  case Nil
  then show ?case by simp
next
  case (Cons x xs)
  obtain q qs where sp: "split_on c xs = q # qs"
    using split_on_not_Nil by (meson neq_Nil_conv)
  have hyp: "set r \<subseteq> set xs - {c}" if "r \<in> set (q # qs)" for r
    using that Cons.IH sp by auto
  show ?case
  proof (cases "x = c")
    case True
    with Cons.prems sp hyp show ?thesis by fastforce
  next
    case False
    with Cons.prems sp consider "p = x # q" | "p \<in> set qs" by auto
    then show ?thesis using False hyp by cases fastforce+
  qed
qed

lemma join_on_length:
  "xss \<noteq> [] \<Longrightarrow> length (join_on c xss) = (length xss - 1) + sum_list (map length xss)"
  by (induction c xss rule: join_on.induct) auto

lemma prefix_between:
  fixes p :: "'a::linorder list"
  assumes "prefix p r" and "p \<le> q" and "q \<le> r"
  shows "prefix p q"
  using assms
proof (induction p arbitrary: q r)
  case Nil
  then show ?case by simp
next
  case (Cons x p)
  from Cons.prems(1) obtain r' where r: "r = x # r'" and "prefix p r'"
    by (cases r) auto
  from Cons.prems(2) obtain y q' where q: "q = y # q'" by (cases q) auto
  from Cons.prems r q have "y = x" and "p \<le> q'" and "q' \<le> r'"
    by auto
  with Cons.IH [OF \<open>prefix p r'\<close>] q show ?case by simp
qed

lemma prefix_imp_le: "prefix p (q :: 'a::linorder list) \<Longrightarrow> p \<le> q"
proof (induction p arbitrary: q)
  case (Cons x p)
  then show ?case by (cases q) auto
qed simp

section \<open>Sorted association lists: BTreeMap\<close>

text \<open>
  A \<open>BTreeMap<K, V>\<close> is the list of its entries in ascending order of the keys, which
  is the order its iterators yield them in.
\<close>

type_synonym ('k, 'v) btree_map = "('k \<times> 'v) list"

fun btm_insert :: "'k::linorder \<Rightarrow> 'v \<Rightarrow> ('k, 'v) btree_map \<Rightarrow> ('k, 'v) btree_map" where
  "btm_insert k v [] = [(k, v)]"
| "btm_insert k v ((k', v') # m) =
     (if k < k' then (k, v) # (k', v') # m
      else if k = k' then (k, v) # m
      else (k', v') # btm_insert k v m)"

fun btm_remove :: "'k \<Rightarrow> ('k, 'v) btree_map \<Rightarrow> ('k, 'v) btree_map" where
  "btm_remove k [] = []"
| "btm_remove k ((k', v') # m) = (if k = k' then m else (k', v') # btm_remove k m)"

definition btm_from_list :: "('k::linorder \<times> 'v) list \<Rightarrow> ('k, 'v) btree_map" where
  "btm_from_list kvs = fold (\<lambda>(k, v) m. btm_insert k v m) kvs []"

abbreviation btm_ok :: "('k::linorder, 'v) btree_map \<Rightarrow> bool" where
  "btm_ok m \<equiv> sorted_wrt (<) (map fst m)"

lemma btm_insert_keys [btree_simps]: "fst ` set (btm_insert k v m) = insert k (fst ` set m)"
proof (induction m)
  case (Cons kv m)
  then show ?case by (cases kv) (simp add: insert_commute)
qed simp

lemma btm_insert_ok [btree_simps]: "btm_ok m \<Longrightarrow> btm_ok (btm_insert k v m)"
proof (induction m)
  case (Cons kv m)
  obtain k' v' where kv: "kv = (k', v')" by (cases kv)
  have "\<forall>x \<in> fst ` set (btm_insert k v m). k' < x" if "k' < k"
    using that Cons.prems kv by (auto simp: btm_insert_keys)
  with Cons kv show ?case by (auto simp del: btm_insert_keys)
qed simp

lemma map_of_btm_insert [btree_simps]:
  "btm_ok m \<Longrightarrow> map_of (btm_insert k v m) = (map_of m)(k \<mapsto> v)"
  by (induction m) (auto simp: fun_eq_iff)

lemma btm_remove_subset: "set (btm_remove k m) \<subseteq> set m"
  by (induction m) (auto split: if_splits)

lemma btm_remove_ok [btree_simps]: "btm_ok m \<Longrightarrow> btm_ok (btm_remove k m)"
proof (induction m)
  case (Cons kv m)
  then show ?case using btm_remove_subset [of k m] by (cases kv) auto
qed simp

lemma btm_ok_distinct: "btm_ok m \<Longrightarrow> distinct (map fst m)"
  by (metis strict_sorted_iff)

lemma map_of_btm_remove [btree_simps]:
  "btm_ok m \<Longrightarrow> map_of (btm_remove k m) = (map_of m)(k := None)"
proof (induction m)
  case (Cons kv m)
  obtain k' v' where kv: "kv = (k', v')" by (cases kv)
  from Cons.prems kv have "map_of m k' = None"
    by (auto simp: map_of_eq_None_iff)
  with Cons kv show ?case by (auto simp: fun_eq_iff)
qed simp

lemma btm_ok_foldr_append: "btm_ok (m1 @ m2) \<Longrightarrow> btm_ok m1 \<and> btm_ok m2"
  by (simp add: sorted_wrt_append)

lemma btm_insert_last:
  "\<forall>k' \<in> set (map fst m). k' < k \<Longrightarrow> btm_insert k v m = m @ [(k, v)]"
  by (induction m) auto

lemma fold_btm_insert_sorted:
  "btm_ok (m @ kvs) \<Longrightarrow> fold (\<lambda>(k, v) m. btm_insert k v m) kvs m = m @ kvs"
proof (induction kvs arbitrary: m)
  case (Cons kv kvs)
  obtain k v where kv: "kv = (k, v)" by (cases kv)
  from Cons.prems kv have "btm_insert k v m = m @ [(k, v)]"
    by (intro btm_insert_last) (auto simp: sorted_wrt_append)
  with Cons kv show ?case by simp
qed simp

text \<open>Collecting the entries of a map gives the map back.\<close>

lemma btm_from_list_id: "btm_ok m \<Longrightarrow> btm_from_list m = m"
  using fold_btm_insert_sorted [of "[]" m] by (simp add: btm_from_list_def)

lemma btm_from_list_ok: "btm_ok (btm_from_list kvs)"
proof -
  have "btm_ok m \<Longrightarrow> btm_ok (fold (\<lambda>(k, v) m. btm_insert k v m) kvs m)" for m
    by (induction kvs arbitrary: m) (auto simp: btm_insert_ok)
  then show ?thesis by (simp add: btm_from_list_def)
qed

lemma btm_insert_subset: "set (btm_insert k v m) \<subseteq> insert (k, v) (set m)"
  by (induction m rule: btm_insert.induct) auto

lemma btm_from_list_subset: "set (btm_from_list kvs) \<subseteq> set kvs"
proof -
  have "set (fold (\<lambda>(k, v). btm_insert k v) kvs m) \<subseteq> set kvs \<union> set m" for m
  proof (induction kvs arbitrary: m)
    case (Cons kv kvs)
    obtain k v where kv: "kv = (k, v)" by fastforce
    have "set (fold (\<lambda>(k, v). btm_insert k v) kvs (btm_insert k v m))
        \<subseteq> set kvs \<union> set (btm_insert k v m)"
      by (rule Cons.IH)
    with btm_insert_subset [of k v m] show ?case by (auto simp: kv)
  qed simp
  from this [of "[]"] show ?thesis by (simp add: btm_from_list_def)
qed

text \<open>An order in which a hash set may be iterated.\<close>

definition hash_order :: "('c set \<Rightarrow> 'c list) \<Rightarrow> bool" where
  "hash_order ho \<longleftrightarrow> (\<forall>S. finite S \<longrightarrow> set (ho S) = S \<and> distinct (ho S))"

end
