(* ===== verification/MPaths.thy ===== *)
theory MPaths
  imports Mononoke_Prelude
begin

text \<open>
  Paths of a repository: \<open>src/mononoke_types/src/path.rs\<close> and the error kinds of
  \<open>src/mononoke_types/src/errors.rs\<close>.

  A path element is a byte vector, a path a non-empty list of elements; both are
  ordered lexicographically, as the derived \<open>Ord\<close> of the Rust structs orders them.
  Messages built with \<open>format!\<close> are kept as their format strings (an escaped byte in
  them in hexadecimal), and the lossy
  UTF-8 rendering of a byte string inside a message as the byte string itself.
  A call that panics (\<open>expect\<close> on an empty path) is \<open>None\<close>.

  \<open>CaseConflictTrie\<close> compares lower-cased elements. Decoding an element as UTF-8 and
  lower-casing it needs the Unicode tables of the Rust library, so it is the argument
  \<open>lower\<close> of the trie operations: \<open>None\<close> where the element is not UTF-8.
\<close>

section \<open>Elements and paths\<close>

datatype MPathElement = MPathElement (as_bytes: bytes)

datatype MPath = MPath (elements: "MPathElement list")

datatype RepoPath = RootPath | DirectoryPath MPath | FilePath MPath

datatype error_kind =
    InvalidBlake2Input string
  | InvalidSha256Input string
  | InvalidPath bytes string
  | InvalidMPath MPath string
  | BlobDeserializeError string
  | InvalidThrift string string
  | InvalidDateTime string
  | NotPathConflictFree MPath MPath
  | InvalidBonsaiChangeset string
  | ErrMsg string
  | Context error_kind error_kind

instantiation MPathElement :: linorder
begin

definition less_eq_MPathElement :: "MPathElement \<Rightarrow> MPathElement \<Rightarrow> bool" where
  "a \<le> b \<longleftrightarrow> as_bytes a \<le> as_bytes b"

definition less_MPathElement :: "MPathElement \<Rightarrow> MPathElement \<Rightarrow> bool" where
  "a < b \<longleftrightarrow> as_bytes a < as_bytes b"

instance
  by standard (auto simp: less_eq_MPathElement_def less_MPathElement_def MPathElement.expand)

end

instantiation MPath :: linorder
begin

definition less_eq_MPath :: "MPath \<Rightarrow> MPath \<Rightarrow> bool" where
  "p \<le> q \<longleftrightarrow> elements p \<le> elements q"

definition less_MPath :: "MPath \<Rightarrow> MPath \<Rightarrow> bool" where
  "p < q \<longleftrightarrow> elements p < elements q"

instance
  by standard (auto simp: less_eq_MPath_def less_MPath_def MPath.expand)

end

definition SLASH :: byte where "SLASH = 47"

definition NEWLINE :: byte where "NEWLINE = 10"

definition DOT :: MPathElement where "DOT = MPathElement [46]"

definition DOTDOT :: MPathElement where "DOTDOT = MPathElement [46, 46]"

subsection \<open>MPathElement\<close>

definition MPathElement_verify :: "bytes \<Rightarrow> error_kind + unit" where
  "MPathElement_verify p =
     (if p = [] then Inl (InvalidPath [] ''path elements cannot be empty'')
      else if 0 \<in> set p then Inl (InvalidPath p ''path elements cannot contain 0x00'')
      else if 1 \<in> set p then Inl (InvalidPath p ''path elements cannot contain 0x01'')
      else if SLASH \<in> set p then Inl (InvalidPath p ''path elements cannot contain /'')
      else if NEWLINE \<in> set p then Inl (InvalidPath p ''path elements cannot contain 0x0a'')
      else Inr ())"

definition MPathElement_new :: "bytes \<Rightarrow> error_kind + MPathElement" where
  "MPathElement_new element =
     and_then (MPathElement_verify element) (\<lambda>_. Inr (MPathElement element))"

text \<open>The Thrift newtypes \<open>MPathElement\<close> and \<open>MPath\<close> are byte vectors and lists of them.\<close>

definition MPathElement_from_thrift :: "bytes \<Rightarrow> error_kind + MPathElement" where
  "MPathElement_from_thrift element =
     and_then
       (map_err (Context (InvalidThrift ''MPathElement'' ''invalid path element''))
         (MPathElement_verify element))
       (\<lambda>_. Inr (MPathElement element))"

definition MPathElement_into_thrift :: "MPathElement \<Rightarrow> bytes" where
  "MPathElement_into_thrift e = as_bytes e"

definition MPathElement_extend :: "MPathElement \<Rightarrow> bytes \<Rightarrow> MPathElement" where
  "MPathElement_extend e toappend = MPathElement (as_bytes e @ toappend)"

definition MPathElement_len :: "MPathElement \<Rightarrow> nat" where
  "MPathElement_len e = length (as_bytes e)"

subsection \<open>MPath\<close>

definition MPath_verify :: "bytes \<Rightarrow> error_kind + unit" where
  "MPath_verify p =
     (if 0 \<in> set p then Inl (InvalidPath p ''paths cannot contain 0x00'')
      else if 1 \<in> set p then Inl (InvalidPath p ''paths cannot contain 0x01'')
      else if NEWLINE \<in> set p then Inl (InvalidPath p ''paths cannot contain 0x0a'')
      else Inr ())"

definition MPath_new :: "bytes \<Rightarrow> error_kind + MPath" where
  "MPath_new p =
     and_then (MPath_verify p) (\<lambda>_.
       let elems = map MPathElement (filter (\<lambda>e. e \<noteq> []) (split_on SLASH p))
       in if elems = [] then Inl (InvalidPath p ''path cannot be empty'')
          else Inr (MPath elems))"

definition MPath_from_thrift :: "bytes list \<Rightarrow> error_kind + MPath" where
  "MPath_from_thrift mpath =
     and_then (collect_ok MPathElement_from_thrift mpath) (\<lambda>elems.
       if elems = [] then Inl (ErrMsg ''Unexpected empty path in thrift::MPath'')
       else Inr (MPath elems))"

definition MPath_into_thrift :: "MPath \<Rightarrow> bytes list" where
  "MPath_into_thrift p = map MPathElement_into_thrift (elements p)"

definition MPath_join :: "MPath \<Rightarrow> MPathElement list \<Rightarrow> MPath" where
  "MPath_join p another =
     MPath (elements p @ filter (\<lambda>elem. as_bytes elem \<noteq> []) another)"

definition MPath_join_element :: "MPath \<Rightarrow> MPathElement option \<Rightarrow> MPath" where
  "MPath_join_element p element =
     (case element of Some e \<Rightarrow> MPath_join p [e] | None \<Rightarrow> p)"

definition MPath_join_opt :: "MPath option \<Rightarrow> MPathElement list \<Rightarrow> MPath option" where
  "MPath_join_opt path another =
     (case path of
        Some p \<Rightarrow> Some (MPath_join p another)
      | None \<Rightarrow>
          let elems = filter (\<lambda>elem. as_bytes elem \<noteq> []) another
          in if elems = [] then None else Some (MPath elems))"

definition MPath_join_opt_element :: "MPath option \<Rightarrow> MPathElement \<Rightarrow> MPath" where
  "MPath_join_opt_element path element =
     (case path of Some p \<Rightarrow> MPath_join_element p (Some element) | None \<Rightarrow> MPath [element])"

definition MPath_join_element_opt :: "MPath option \<Rightarrow> MPathElement option \<Rightarrow> MPath option" where
  "MPath_join_element_opt path element =
     (case element of Some e \<Rightarrow> MPath_join_opt path [e] | None \<Rightarrow> path)"

definition MPath_iter_opt :: "MPath option \<Rightarrow> MPathElement list" where
  "MPath_iter_opt path = (case path of Some p \<Rightarrow> elements p | None \<Rightarrow> [])"

definition num_components :: "MPath \<Rightarrow> nat" where
  "num_components p = length (elements p)"

definition common_components :: "MPath \<Rightarrow> MPathElement list \<Rightarrow> nat" where
  "common_components p other = length (takeWhile (\<lambda>(e1, e2). e1 = e2) (zip (elements p) other))"

definition is_prefix_of :: "MPath \<Rightarrow> MPathElement list \<Rightarrow> bool" where
  "is_prefix_of p other \<longleftrightarrow> common_components p other = num_components p"

definition basename :: "MPath \<Rightarrow> MPathElement option" where
  "basename p = (if elements p = [] then None else Some (last (elements p)))"

definition take_prefix_components :: "MPath \<Rightarrow> nat \<Rightarrow> error_kind + MPath option" where
  "take_prefix_components p components =
     (if components = 0 then Inr None
      else if components > num_components p
      then Inl (ErrMsg ''taking {} components but path only has {}'')
      else Inr (Some (MPath (take components (elements p)))))"

definition MPath_to_vec :: "MPath \<Rightarrow> bytes" where
  "MPath_to_vec p = join_on SLASH (map as_bytes (elements p))"

text \<open>\<open>len\<close> subtracts one from the number of elements: an underflow on an empty path.\<close>

definition MPath_len :: "MPath \<Rightarrow> nat option" where
  "MPath_len p =
     (if elements p = [] then None
      else Some ((length (elements p) - 1) + sum_list (map MPathElement_len (elements p))))"

definition split_dirname :: "MPath \<Rightarrow> (MPath option \<times> MPathElement) option" where
  "split_dirname p =
     (if elements p = [] then None
      else let dirname_elements = butlast (elements p); filename = last (elements p)
           in if dirname_elements = [] then Some (None, filename)
              else Some (Some (MPath dirname_elements), filename))"

subsection \<open>RepoPath\<close>

fun is_root :: "RepoPath \<Rightarrow> bool" where
  "is_root RootPath = True"
| "is_root _ = False"

fun is_dir :: "RepoPath \<Rightarrow> bool" where
  "is_dir (DirectoryPath _) = True"
| "is_dir _ = False"

fun is_tree :: "RepoPath \<Rightarrow> bool" where
  "is_tree RootPath = True"
| "is_tree (DirectoryPath _) = True"
| "is_tree _ = False"

fun is_file :: "RepoPath \<Rightarrow> bool" where
  "is_file (FilePath _) = True"
| "is_file _ = False"

fun RepoPath_len :: "RepoPath \<Rightarrow> nat option" where
  "RepoPath_len RootPath = Some 0"
| "RepoPath_len (DirectoryPath p) = MPath_len p"
| "RepoPath_len (FilePath p) = MPath_len p"

fun mpath :: "RepoPath \<Rightarrow> MPath option" where
  "mpath RootPath = None"
| "mpath (DirectoryPath p) = Some p"
| "mpath (FilePath p) = Some p"

datatype thrift_RepoPath =
  TRootPath bool | TDirectoryPath "bytes list" | TFilePath "bytes list" | TUnknownRepoPath int

fun RepoPath_from_thrift :: "thrift_RepoPath \<Rightarrow> error_kind + RepoPath" where
  "RepoPath_from_thrift (TRootPath _) = Inr RootPath"
| "RepoPath_from_thrift (TDirectoryPath p) = map_ok DirectoryPath (MPath_from_thrift p)"
| "RepoPath_from_thrift (TFilePath p) = map_ok FilePath (MPath_from_thrift p)"
| "RepoPath_from_thrift (TUnknownRepoPath x) =
     Inl (ErrMsg ''Unknown field encountered when parsing thrift::RepoPath: {}'')"

fun RepoPath_into_thrift :: "RepoPath \<Rightarrow> thrift_RepoPath" where
  "RepoPath_into_thrift RootPath = TRootPath False"
| "RepoPath_into_thrift (DirectoryPath p) = TDirectoryPath (MPath_into_thrift p)"
| "RepoPath_into_thrift (FilePath p) = TFilePath (MPath_into_thrift p)"

subsection \<open>Path-conflict freedom\<close>

fun check_pcf_from :: "MPath option \<Rightarrow> (MPath \<times> bool) list \<Rightarrow> error_kind + unit" where
  "check_pcf_from last_changed_path [] = Inr ()"
| "check_pcf_from last_changed_path ((path, is_changed) # rest) =
     (case last_changed_path of
        Some l \<Rightarrow>
          if is_prefix_of l (elements path) then Inl (NotPathConflictFree l path)
          else check_pcf_from (if is_changed then Some path else last_changed_path) rest
      | None \<Rightarrow> check_pcf_from (if is_changed then Some path else last_changed_path) rest)"

definition check_pcf :: "(MPath \<times> bool) list \<Rightarrow> error_kind + unit" where
  "check_pcf sorted_paths = check_pcf_from None sorted_paths"

subsection \<open>The trie of case conflicts\<close>

datatype CaseConflictTrie = CaseConflictTrie
  (children: "(MPathElement \<times> CaseConflictTrie) list") (lowercase: "bytes list")

definition trie_new :: CaseConflictTrie where
  "trie_new = CaseConflictTrie [] []"

definition trie_is_empty :: "CaseConflictTrie \<Rightarrow> bool" where
  "trie_is_empty t \<longleftrightarrow> children t = []"

definition children_set ::
    "MPathElement \<Rightarrow> CaseConflictTrie \<Rightarrow> (MPathElement \<times> CaseConflictTrie) list
     \<Rightarrow> (MPathElement \<times> CaseConflictTrie) list" where
  "children_set e c cs = (e, c) # filter (\<lambda>(e', _). e' \<noteq> e) cs"

fun trie_add ::
    "(bytes \<Rightarrow> bytes option) \<Rightarrow> MPathElement list \<Rightarrow> CaseConflictTrie
     \<Rightarrow> bool \<times> CaseConflictTrie" where
  "trie_add lower [] t = (True, t)"
| "trie_add lower (e # es) t =
     (case map_of (children t) e of
        Some child \<Rightarrow>
          let (ok, child') = trie_add lower es child
          in (ok, CaseConflictTrie (children_set e child' (children t)) (lowercase t))
      | None \<Rightarrow>
          (case lower (as_bytes e) of
             Some l \<Rightarrow>
               if l \<in> set (lowercase t) then (False, t)
               else let (ok, child') = trie_add lower es trie_new
                    in (ok, CaseConflictTrie (children_set e child' (children t)) (l # lowercase t))
           | None \<Rightarrow>
               let (ok, child') = trie_add lower es trie_new
               in (ok, CaseConflictTrie (children_set e child' (children t)) (lowercase t))))"

fun trie_remove ::
    "(bytes \<Rightarrow> bytes option) \<Rightarrow> MPathElement list \<Rightarrow> CaseConflictTrie
     \<Rightarrow> bool \<times> CaseConflictTrie" where
  "trie_remove lower [] t = (True, t)"
| "trie_remove lower (e # es) t =
     (case map_of (children t) e of
        None \<Rightarrow> (False, t)
      | Some child \<Rightarrow>
          let (found, child') = trie_remove lower es child
          in if trie_is_empty child'
             then (found, CaseConflictTrie
                     (filter (\<lambda>(e', _). e' \<noteq> e) (children t))
                     (case lower (as_bytes e) of
                        Some l \<Rightarrow> removeAll l (lowercase t)
                      | None \<Rightarrow> lowercase t))
             else (found, CaseConflictTrie (children_set e child' (children t)) (lowercase t)))"

text \<open>\<open>CaseConflictTrieUpdate\<close> for a path: add it, and name it if it conflicts.\<close>

definition path_apply ::
    "(bytes \<Rightarrow> bytes option) \<Rightarrow> MPath \<Rightarrow> CaseConflictTrie \<Rightarrow> MPath option \<times> CaseConflictTrie" where
  "path_apply lower p t =
     (let (ok, t') = trie_add lower (elements p) t
      in (if ok then None else Some p, t'))"

fun trie_add_changed ::
    "(bytes \<Rightarrow> bytes option) \<Rightarrow> (MPath \<times> bool) list \<Rightarrow> CaseConflictTrie
     \<Rightarrow> MPath option \<times> CaseConflictTrie" where
  "trie_add_changed lower [] t = (None, t)"
| "trie_add_changed lower ((path, is_some) # cs) t =
     (if is_some
      then (let (ok, t') = trie_add lower (elements path) t
            in if ok then trie_add_changed lower cs t' else (Some path, t'))
      else trie_add_changed lower cs t)"

text \<open>
  \<open>CaseConflictTrieUpdate\<close> for a bonsai changeset, given by its file changes: a path
  and whether the file is changed (\<open>True\<close>) or deleted. Deletions come first.
\<close>

definition changes_apply ::
    "(bytes \<Rightarrow> bytes option) \<Rightarrow> (MPath \<times> bool) list \<Rightarrow> CaseConflictTrie
     \<Rightarrow> MPath option \<times> CaseConflictTrie" where
  "changes_apply lower cs t =
     trie_add_changed lower cs
       (fold (\<lambda>(path, is_some) t'. if is_some then t' else snd (trie_remove lower (elements path) t'))
         cs t)"

fun check_case_conflicts_from ::
    "('u \<Rightarrow> CaseConflictTrie \<Rightarrow> MPath option \<times> CaseConflictTrie) \<Rightarrow> 'u list
     \<Rightarrow> CaseConflictTrie \<Rightarrow> MPath option" where
  "check_case_conflicts_from app [] t = None"
| "check_case_conflicts_from app (u # us) t =
     (case app u t of
        (Some p, _) \<Rightarrow> Some p
      | (None, t') \<Rightarrow> check_case_conflicts_from app us t')"

definition check_case_conflicts ::
    "('u \<Rightarrow> CaseConflictTrie \<Rightarrow> MPath option \<times> CaseConflictTrie) \<Rightarrow> 'u list \<Rightarrow> MPath option" where
  "check_case_conflicts app updates = check_case_conflicts_from app updates trie_new"

section \<open>Well-formed paths\<close>

definition valid_element :: "MPathElement \<Rightarrow> bool" where
  "valid_element e \<longleftrightarrow> as_bytes e \<noteq> [] \<and> {0, 1, SLASH, NEWLINE} \<inter> set (as_bytes e) = {}"

definition valid_mpath :: "MPath \<Rightarrow> bool" where
  "valid_mpath p \<longleftrightarrow> elements p \<noteq> [] \<and> (\<forall>e \<in> set (elements p). valid_element e)"

lemma MPathElement_verify_iff:
  "MPathElement_verify b = Inr () \<longleftrightarrow> valid_element (MPathElement b)"
  by (auto simp: MPathElement_verify_def valid_element_def)

lemma MPathElement_new_iff:
  "MPathElement_new b = Inr e \<longleftrightarrow> e = MPathElement b \<and> valid_element e"
  by (auto simp: MPathElement_new_def result_simps MPathElement_verify_iff)

lemma MPathElement_from_thrift_iff:
  "MPathElement_from_thrift b = Inr e \<longleftrightarrow> e = MPathElement b \<and> valid_element e"
  by (auto simp: MPathElement_from_thrift_def result_simps MPathElement_verify_iff)

lemma MPath_verify_iff: "MPath_verify p = Inr () \<longleftrightarrow> {0, 1, NEWLINE} \<inter> set p = {}"
  by (auto simp: MPath_verify_def)

lemma split_filter_valid:
  assumes "{0, 1, NEWLINE} \<inter> set p = {}" and "b \<in> set (filter (\<lambda>e. e \<noteq> []) (split_on SLASH p))"
  shows "valid_element (MPathElement b)"
  using assms set_split_on [of b SLASH p] by (auto simp: valid_element_def)

lemma MPath_new_valid: "MPath_new b = Inr p \<Longrightarrow> valid_mpath p"
  by (auto simp: MPath_new_def result_simps MPath_verify_iff Let_def valid_mpath_def
      split: if_splits intro!: split_filter_valid)

lemma to_vec_new:
  assumes "valid_mpath p"
  shows "MPath_new (MPath_to_vec p) = Inr p"
proof -
  let ?bs = "map as_bytes (elements p)"
  have ne: "?bs \<noteq> []" and el: "\<forall>b \<in> set ?bs. b \<noteq> [] \<and> {0, 1, SLASH, NEWLINE} \<inter> set b = {}"
    using assms by (auto simp: valid_mpath_def valid_element_def)
  have sp: "split_on SLASH (MPath_to_vec p) = ?bs"
    unfolding MPath_to_vec_def using ne el by (intro split_on_join_on) auto
  have "set (join_on SLASH xss) \<subseteq> insert SLASH (\<Union>xs \<in> set xss. set xs)" for xss
    by (induction SLASH xss rule: join_on.induct) auto
  then have "set (MPath_to_vec p) \<subseteq> insert SLASH (\<Union>xs \<in> set ?bs. set xs)"
    unfolding MPath_to_vec_def .
  then have "{0, 1, NEWLINE} \<inter> set (MPath_to_vec p) = {}"
    using el by (fastforce simp: SLASH_def NEWLINE_def)
  then have "MPath_verify (MPath_to_vec p) = Inr ()"
    by (simp add: MPath_verify_iff)
  moreover have "filter (\<lambda>e. e \<noteq> []) ?bs = ?bs"
    using el by (simp add: filter_id_conv)
  ultimately show ?thesis
    using sp ne by (simp add: MPath_new_def Let_def comp_def)
qed

lemma MPath_thrift_roundtrip:
  assumes "valid_mpath p"
  shows "MPath_from_thrift (MPath_into_thrift p) = Inr p"
proof -
  have "collect_ok MPathElement_from_thrift (map as_bytes (elements p))
      = Inr (map MPathElement (map as_bytes (elements p)))"
    using assms by (intro collect_ok_Inr) (auto simp: MPathElement_from_thrift_iff valid_mpath_def)
  then show ?thesis
    using assms
    by (simp add: MPath_from_thrift_def MPath_into_thrift_def MPathElement_into_thrift_def [abs_def]
        comp_def valid_mpath_def)
qed

lemma MPath_from_thrift_valid: "MPath_from_thrift b = Inr p \<Longrightarrow> valid_mpath p"
  by (auto simp: MPath_from_thrift_def result_simps valid_mpath_def MPathElement_from_thrift_iff
      list_all2_conv_all_nth in_set_conv_nth split: if_splits)

lemma valid_mpath_join:
  "valid_mpath p \<Longrightarrow> \<forall>e \<in> set es. valid_element e \<Longrightarrow> valid_mpath (MPath_join p es)"
  by (auto simp: valid_mpath_def MPath_join_def)

lemma MPath_join_assoc: "MPath_join (MPath_join p es) fs = MPath_join p (es @ fs)"
  by (simp add: MPath_join_def)

lemma MPath_len_to_vec: "MPath_len p = Some n \<Longrightarrow> n = length (MPath_to_vec p)"
  by (auto simp: MPath_len_def MPath_to_vec_def join_on_length MPathElement_len_def [abs_def] comp_def
      split: if_splits)

lemma split_dirname_join:
  assumes valid: "valid_mpath p" and split: "split_dirname p = Some (d, f)"
  shows "MPath_join_opt_element d f = p \<and> basename p = Some f \<and> (\<forall>q. d = Some q \<longrightarrow> valid_mpath q)"
proof -
  obtain es e where p: "p = MPath (es @ [e])"
    using valid by (metis MPath.collapse append_butlast_last_id valid_mpath_def)
  with split have f: "f = e" and d: "d = (if es = [] then None else Some (MPath es))"
    by (auto simp: split_dirname_def Let_def split: if_splits)
  from valid p have "as_bytes e \<noteq> []"
    by (simp add: valid_mpath_def valid_element_def)
  with p f d valid show ?thesis
    by (auto simp: MPath_join_opt_element_def MPath_join_element_def MPath_join_def basename_def
        valid_mpath_def)
qed

section \<open>Prefixes and path conflicts\<close>

lemma common_components_le: "common_components p other \<le> num_components p"
  by (auto simp: common_components_def num_components_def intro: le_trans [OF length_takeWhile_le])

lemma is_prefix_of_iff: "is_prefix_of p other \<longleftrightarrow> prefix (elements p) other"
proof -
  have "length (takeWhile (\<lambda>(a, b). a = b) (zip es fs)) = length es \<longleftrightarrow> prefix es fs"
    for es fs :: "MPathElement list"
    by (induction es fs rule: list_induct2') auto
  then show ?thesis by (simp add: is_prefix_of_def common_components_def num_components_def)
qed

lemma prefix_elements_between:
  assumes "prefix (elements p) (elements r)" and "p \<le> q" and "q \<le> r"
  shows "prefix (elements p) (elements q)"
  using assms prefix_between by (auto simp: less_eq_MPath_def)

lemma prefix_elements_le: "prefix (elements p) (elements q) \<Longrightarrow> p \<le> q"
  by (simp add: less_eq_MPath_def prefix_imp_le)

text \<open>The contract of \<open>check_pcf\<close>: no changed path is a directory of another path.\<close>

definition path_conflict_free :: "(MPath \<times> bool) list \<Rightarrow> bool" where
  "path_conflict_free xs \<longleftrightarrow>
     (\<forall>p c q d. (p, c) \<in> set xs \<longrightarrow> (q, d) \<in> set xs \<longrightarrow> c \<longrightarrow> p \<noteq> q \<longrightarrow>
        \<not> prefix (elements p) (elements q))"

lemma path_conflict_free_Cons:
  assumes "sorted_wrt (<) (map fst ((p, c) # xs))"
  shows "path_conflict_free ((p, c) # xs) \<longleftrightarrow>
     (c \<longrightarrow> (\<forall>(q, d) \<in> set xs. \<not> prefix (elements p) (elements q))) \<and> path_conflict_free xs"
proof -
  have gt: "p \<noteq> q" "\<not> prefix (elements q) (elements p)" if "(q, d) \<in> set xs" for q d
  proof -
    have "p < q" using assms that by force
    then show "p \<noteq> q" "\<not> prefix (elements q) (elements p)"
      using prefix_elements_le [of q p] by auto
  qed
  have "path_conflict_free ((p, c) # xs) \<longleftrightarrow>
      (\<forall>q d. (q, d) \<in> set xs \<longrightarrow> (c \<longrightarrow> p \<noteq> q \<longrightarrow> \<not> prefix (elements p) (elements q)) \<and>
         (d \<longrightarrow> q \<noteq> p \<longrightarrow> \<not> prefix (elements q) (elements p))) \<and> path_conflict_free xs"
    unfolding path_conflict_free_def by (simp add: all_conj_distrib imp_conjR) blast
  then show ?thesis using gt by blast
qed

lemma check_pcf_from_iff:
  assumes "sorted_wrt (<) (map fst xs)"
    and "\<forall>l. lst = Some l \<longrightarrow> (\<forall>(q, d) \<in> set xs. l < q)"
  shows "check_pcf_from lst xs = Inr () \<longleftrightarrow>
     (\<forall>l. lst = Some l \<longrightarrow> (\<forall>(q, d) \<in> set xs. \<not> prefix (elements l) (elements q)))
     \<and> path_conflict_free xs"
  using assms
proof (induction xs arbitrary: lst)
  case Nil
  then show ?case by (simp add: path_conflict_free_def)
next
  case (Cons x xs)
  obtain p c where x: "x = (p, c)" by (cases x)
  let ?lst = "if c then Some p else lst"
  have srt: "sorted_wrt (<) (map fst xs)" and gt: "\<forall>(q, d) \<in> set xs. p < q"
    using Cons.prems(1) x by auto
  have "\<forall>l. ?lst = Some l \<longrightarrow> (\<forall>(q, d) \<in> set xs. l < q)"
    using gt Cons.prems(2) x by auto
  note IH = Cons.IH [OF srt this]
  have pcf: "path_conflict_free (x # xs) \<longleftrightarrow>
      (c \<longrightarrow> (\<forall>(q, d) \<in> set xs. \<not> prefix (elements p) (elements q))) \<and> path_conflict_free xs"
    using path_conflict_free_Cons Cons.prems(1) x by simp
  have skip: "\<not> prefix (elements l) (elements q)"
    if "lst = Some l" "\<not> prefix (elements l) (elements p)" "(q, d) \<in> set xs" for l q d
  proof
    assume "prefix (elements l) (elements q)"
    moreover have "l \<le> p" and "p \<le> q"
      using that Cons.prems(2) x gt by fastforce+
    ultimately show False using prefix_elements_between that(2) by blast
  qed
  show ?case
  proof (cases "\<exists>l. lst = Some l \<and> prefix (elements l) (elements p)")
    case True
    then show ?thesis using x by (auto simp: is_prefix_of_iff)
  next
    case False
    then have "check_pcf_from lst (x # xs) = check_pcf_from ?lst xs"
      using x by (auto simp: is_prefix_of_iff split: option.splits)
    moreover have "\<forall>l. lst = Some l \<longrightarrow> (\<forall>(q, d) \<in> set (x # xs). \<not> prefix (elements l) (elements q))"
      and "\<forall>l. lst = Some l \<longrightarrow> (\<forall>(q, d) \<in> set xs. \<not> prefix (elements l) (elements q))"
      using False skip x by auto
    ultimately show ?thesis using IH pcf by (cases c) simp_all
  qed
qed

lemma check_pcf_iff:
  "sorted_wrt (<) (map fst xs) \<Longrightarrow> check_pcf xs = Inr () \<longleftrightarrow> path_conflict_free xs"
  unfolding check_pcf_def using check_pcf_from_iff [of xs None] by simp

lemma check_pcf_from_error:
  assumes "check_pcf_from lst xs = Inl e"
  obtains p q where "e = NotPathConflictFree p q" "prefix (elements p) (elements q)"
    "q \<in> fst ` set xs" "lst = Some p \<or> (p, True) \<in> set xs"
  using assms
proof (induction xs arbitrary: lst thesis)
  case (Cons x xs)
  obtain p c where x: "x = (p, c)" by (cases x)
  let ?lst = "if c then Some p else lst"
  show ?case
  proof (cases "\<exists>l. lst = Some l \<and> prefix (elements l) (elements p)")
    case True
    then show ?thesis using Cons.prems x by (auto simp: is_prefix_of_iff)
  next
    case False
    then have "check_pcf_from ?lst xs = Inl e"
      using Cons.prems(2) x by (auto simp: is_prefix_of_iff split: option.splits)
    then show ?thesis
    proof (rule Cons.IH [rotated])
      fix a b
      assume "e = NotPathConflictFree a b" "prefix (elements a) (elements b)"
        "b \<in> fst ` set xs" "?lst = Some a \<or> (a, True) \<in> set xs"
      then show ?thesis using Cons.prems(1) [of a b] x by (cases c) auto
    qed
  qed
qed simp

section \<open>Case conflicts\<close>

text \<open>Two paths conflict where they first differ, in elements that lower-case alike.\<close>

fun siblings_conflict ::
    "(bytes \<Rightarrow> bytes option) \<Rightarrow> MPathElement list \<Rightarrow> MPathElement list \<Rightarrow> bool" where
  "siblings_conflict lower (e # es) (f # fs) =
     (if e = f then siblings_conflict lower es fs
      else (case lower (as_bytes e) of None \<Rightarrow> False | Some l \<Rightarrow> lower (as_bytes f) = Some l))"
| "siblings_conflict lower _ _ = False"

fun trie_has :: "MPathElement list \<Rightarrow> CaseConflictTrie \<Rightarrow> bool" where
  "trie_has [] t = True"
| "trie_has (e # es) t =
     (case map_of (children t) e of None \<Rightarrow> False | Some c \<Rightarrow> trie_has es c)"

definition lowercase_ok :: "(bytes \<Rightarrow> bytes option) \<Rightarrow> MPathElement set \<Rightarrow> bytes set \<Rightarrow> bool" where
  "lowercase_ok lower ks ls \<longleftrightarrow>
     (\<forall>l. l \<in> ls \<longleftrightarrow> (\<exists>e \<in> ks. lower (as_bytes e) = Some l)) \<and>
     (\<forall>e \<in> ks. \<forall>f \<in> ks. \<forall>l. lower (as_bytes e) = Some l \<longrightarrow> lower (as_bytes f) = Some l \<longrightarrow> e = f)"

text \<open>
  The invariant of the trie: the keys of a node are distinct, its lower-case set is that
  of its children, and no two children share a lower case.
\<close>

inductive trie_ok :: "(bytes \<Rightarrow> bytes option) \<Rightarrow> CaseConflictTrie \<Rightarrow> bool"
  for lower :: "bytes \<Rightarrow> bytes option" where
  node: "trie_ok lower (CaseConflictTrie cs ls)"
    if "distinct (map fst cs)"
      and "lowercase_ok lower (fst ` set cs) (set ls)"
      and "\<And>e c. (e, c) \<in> set cs \<Longrightarrow> trie_ok lower c"

inductive_cases trie_okE: "trie_ok lower (CaseConflictTrie cs ls)"

lemma trie_ok_new [intro]: "trie_ok lower trie_new"
  unfolding trie_new_def by (rule trie_ok.node) (auto simp: lowercase_ok_def)

lemma map_of_children_set: "map_of (children_set e c cs) = (map_of cs)(e \<mapsto> c)"
proof -
  have "map_of (filter (\<lambda>(e', _). e' \<noteq> e) cs) f = map_of cs f" if "f \<noteq> e" for f
    using that by (induction cs) auto
  then show ?thesis by (auto simp: children_set_def fun_eq_iff)
qed

lemma children_set_keys: "fst ` set (children_set e c cs) = insert e (fst ` set cs)"
  by (force simp: children_set_def)

lemma children_set_distinct: "distinct (map fst cs) \<Longrightarrow> distinct (map fst (children_set e c cs))"
  by (auto simp: children_set_def distinct_map_filter)

lemma children_set_mem: "(f, d) \<in> set (children_set e c cs) \<Longrightarrow> (f = e \<and> d = c) \<or> (f, d) \<in> set cs"
  by (auto simp: children_set_def)

lemma trie_ok_children:
  assumes "trie_ok lower t" and "map_of (children t) e = Some c"
  shows "trie_ok lower c"
  using assms by (cases t) (auto elim: trie_okE dest: map_of_SomeD)

text \<open>Replacing a child keeps the invariant; so does adding one whose lower case is new.\<close>

lemma trie_ok_set:
  assumes "trie_ok lower (CaseConflictTrie cs ls)" and "trie_ok lower c"
    and "lowercase_ok lower (insert e (fst ` set cs)) (set ls')"
  shows "trie_ok lower (CaseConflictTrie (children_set e c cs) ls')"
proof (rule trie_ok.node)
  show "distinct (map fst (children_set e c cs))"
    using assms(1) by (auto elim: trie_okE simp: children_set_distinct)
  show "lowercase_ok lower (fst ` set (children_set e c cs)) (set ls')"
    using assms(3) by (simp add: children_set_keys)
  show "trie_ok lower d" if "(f, d) \<in> set (children_set e c cs)" for f d
    using children_set_mem [OF that] assms(1,2) by (auto elim: trie_okE)
qed

lemma lowercase_okD:
  assumes "lowercase_ok lower ks ls"
  shows "l \<in> ls \<longleftrightarrow> (\<exists>e \<in> ks. lower (as_bytes e) = Some l)"
    and "e \<in> ks \<Longrightarrow> f \<in> ks \<Longrightarrow> lower (as_bytes e) = Some l \<Longrightarrow> lower (as_bytes f) = Some l \<Longrightarrow> e = f"
  using assms unfolding lowercase_ok_def by blast+

lemma lowercase_okI:
  assumes "\<And>l. l \<in> ls \<longleftrightarrow> (\<exists>e \<in> ks. lower (as_bytes e) = Some l)"
    and "\<And>e f l. e \<in> ks \<Longrightarrow> f \<in> ks \<Longrightarrow> lower (as_bytes e) = Some l \<Longrightarrow> lower (as_bytes f) = Some l \<Longrightarrow> e = f"
  shows "lowercase_ok lower ks ls"
  using assms unfolding lowercase_ok_def by blast

lemma lowercase_ok_insert:
  assumes ok: "lowercase_ok lower ks ls" and l: "lower (as_bytes e) = Some l" "l \<notin> ls"
  shows "lowercase_ok lower (insert e ks) (insert l ls)"
proof (rule lowercase_okI)
  show "l' \<in> insert l ls \<longleftrightarrow> (\<exists>f \<in> insert e ks. lower (as_bytes f) = Some l')" for l'
    using lowercase_okD(1) [OF ok, of l'] l(1) by auto
  show "f = g" if "f \<in> insert e ks" "g \<in> insert e ks"
    "lower (as_bytes f) = Some l'" "lower (as_bytes g) = Some l'" for f g l'
    using that l lowercase_okD(1) [OF ok, of l] lowercase_okD(2) [OF ok, of f g l'] by auto
qed

lemma lowercase_ok_insert_None:
  assumes ok: "lowercase_ok lower ks ls" and "lower (as_bytes e) = None"
  shows "lowercase_ok lower (insert e ks) ls"
proof (rule lowercase_okI)
  show "l \<in> ls \<longleftrightarrow> (\<exists>f \<in> insert e ks. lower (as_bytes f) = Some l)" for l
    using lowercase_okD(1) [OF ok, of l] assms(2) by auto
  show "f = g" if "f \<in> insert e ks" "g \<in> insert e ks"
    "lower (as_bytes f) = Some l" "lower (as_bytes g) = Some l" for f g l
    using that assms(2) lowercase_okD(2) [OF ok, of f g l] by auto
qed

lemma lowercase_ok_remove:
  assumes ok: "lowercase_ok lower ks ls" and "e \<in> ks"
  shows "lowercase_ok lower (ks - {e}) (case lower (as_bytes e) of Some l \<Rightarrow> ls - {l} | None \<Rightarrow> ls)"
proof (rule lowercase_okI)
  show "l \<in> (case lower (as_bytes e) of Some l \<Rightarrow> ls - {l} | None \<Rightarrow> ls) \<longleftrightarrow>
      (\<exists>f \<in> ks - {e}. lower (as_bytes f) = Some l)" for l
    using lowercase_okD(1) [OF ok, of l] lowercase_okD(2) [OF ok _ \<open>e \<in> ks\<close>, of _ l]
    by (cases "lower (as_bytes e) = Some l") (auto split: option.splits)
  show "f = g" if "f \<in> ks - {e}" "g \<in> ks - {e}"
    "lower (as_bytes f) = Some l" "lower (as_bytes g) = Some l" for f g l
    using that lowercase_okD(2) [OF ok, of f g l] by auto
qed

lemma trie_has_Cons [simp]:
  "trie_has (f # fs) t \<longleftrightarrow> (\<exists>c. map_of (children t) f = Some c \<and> trie_has fs c)"
  by (auto split: option.splits)

declare trie_has.simps(2) [simp del]

lemma trie_has_key: "trie_has (f # fs) t \<Longrightarrow> f \<in> fst ` set (children t)"
  by (auto dest!: map_of_SomeD intro: rev_image_eqI)

lemma trie_has_single: "f \<in> fst ` set (children t) \<Longrightarrow> trie_has [f] t"
  by (auto dest: weak_map_of_SomeI)

lemma trie_has_new: "trie_has fs trie_new \<longleftrightarrow> fs = []"
  by (cases fs) (auto simp: trie_new_def)

lemma trie_has_set:
  "trie_has fs (CaseConflictTrie (children_set e c cs) ls') \<longleftrightarrow>
     (case fs of [] \<Rightarrow> True | f # fs' \<Rightarrow>
        if f = e then trie_has fs' c else trie_has fs (CaseConflictTrie cs ls))"
  by (cases fs) (auto simp: map_of_children_set split: option.splits)

text \<open>The three ways \<open>trie_add\<close> ends: into a child, a conflict, a new child.\<close>

lemma trie_add_cases:
  assumes "trie_add lower (e # es) (CaseConflictTrie cs ls) = (ok, t')"
  obtains
    (child) c c' where "map_of cs e = Some c" "trie_add lower es c = (ok, c')"
      "t' = CaseConflictTrie (children_set e c' cs) ls"
  | (conflict) l where "map_of cs e = None" "lower (as_bytes e) = Some l" "l \<in> set ls"
      "\<not> ok" "t' = CaseConflictTrie cs ls"
  | (fresh) c' ls' where "map_of cs e = None" "trie_add lower es trie_new = (ok, c')"
      "t' = CaseConflictTrie (children_set e c' cs) ls'"
      "(lower (as_bytes e) = None \<and> ls' = ls) \<or>
       (\<exists>l. lower (as_bytes e) = Some l \<and> l \<notin> set ls \<and> ls' = l # ls)"
  using assms by (auto split: option.splits if_splits prod.splits)

text \<open>
  Adding a path succeeds exactly when no path of the trie conflicts with it, and then the
  trie holds the path and its directories besides what it held.
\<close>

lemma trie_add_correct:
  assumes "trie_ok lower t" and "trie_add lower es t = (ok, t')"
  shows "trie_ok lower t' \<and> (ok \<longleftrightarrow> (\<forall>fs. trie_has fs t \<longrightarrow> \<not> siblings_conflict lower es fs))
     \<and> (ok \<longrightarrow> (\<forall>fs. trie_has fs t' \<longleftrightarrow> trie_has fs t \<or> prefix fs es))"
  using assms
proof (induction es arbitrary: t ok t')
  case Nil
  then show ?case by auto
next
  case (Cons e es)
  obtain cs ls where t: "t = CaseConflictTrie cs ls" by (cases t)
  have ok_t: "trie_ok lower (CaseConflictTrie cs ls)" using Cons.prems(1) t by simp
  then have lc: "lowercase_ok lower (fst ` set cs) (set ls)" by (auto elim: trie_okE)
  from Cons.prems(2) [unfolded t] show ?case
  proof (cases rule: trie_add_cases)
    case (child c c')
    have mem: "e \<in> fst ` set cs" using child by (force dest: map_of_SomeD)
    have "trie_ok lower c" using trie_ok_children [OF ok_t] child by simp
    note IH = Cons.IH [OF this child(2)]
    have "trie_ok lower t'"
      unfolding child using ok_t IH lc mem by (intro trie_ok_set) (auto simp: insert_absorb)
    moreover have conf: "siblings_conflict lower (e # es) fs \<longleftrightarrow>
        (\<exists>fs'. fs = e # fs' \<and> siblings_conflict lower es fs')" if "trie_has fs t" for fs
    proof (cases fs)
      case (Cons f fs')
      have "f \<in> fst ` set cs" using that Cons trie_has_key [of f fs' t] t by simp
      then show ?thesis using Cons mem lowercase_okD(2) [OF lc, of e f] by (auto split: option.splits)
    qed simp
    have has_e: "trie_has (e # fs') t \<longleftrightarrow> trie_has fs' c" for fs'
      using child(1) by (simp add: t)
    have "ok \<longleftrightarrow> (\<forall>fs. trie_has fs t \<longrightarrow> \<not> siblings_conflict lower (e # es) fs)"
      using IH conf has_e by metis
    moreover have "trie_has fs t' \<longleftrightarrow> trie_has fs t \<or> prefix fs (e # es)" if ok for fs
      using that IH child(1) unfolding child(3) t
      by (auto simp: trie_has_set [where ls = ls] split: list.split)
    ultimately show ?thesis by blast
  next
    case (conflict l)
    then obtain f where f: "f \<in> fst ` set cs" "lower (as_bytes f) = Some l"
      using lowercase_okD(1) [OF lc, of l] by auto
    with conflict have "f \<noteq> e" by (auto simp: map_of_eq_None_iff)
    with f conflict have "trie_has [f] t \<and> siblings_conflict lower (e # es) [f]"
      using trie_has_single [of f t] t by simp
    with conflict ok_t show ?thesis by blast
  next
    case (fresh c' ls')
    note IH = Cons.IH [OF trie_ok_new fresh(2)]
    have ok: ok using IH by (auto simp: trie_has_new)
    have lc': "lowercase_ok lower (insert e (fst ` set cs)) (set ls')"
      using fresh(4) lowercase_ok_insert [OF lc] lowercase_ok_insert_None [OF lc] by auto
    have "trie_ok lower t'"
      unfolding fresh using ok_t IH lc' by (intro trie_ok_set) auto
    moreover have "\<not> siblings_conflict lower (e # es) fs" if "trie_has fs t" for fs
    proof (cases fs)
      case (Cons f fs')
      have "f \<in> fst ` set cs" using that Cons trie_has_key t by fastforce
      moreover from this have "f \<noteq> e" using fresh(1) by (auto simp: map_of_eq_None_iff)
      ultimately show ?thesis
        using Cons fresh(4) lowercase_okD(1) [OF lc] by (auto split: option.splits)
    qed simp
    moreover have "trie_has fs c' \<longleftrightarrow> prefix fs es" for fs
      using IH ok by (cases fs) (simp_all add: trie_has_new)
    then have "trie_has fs t' \<longleftrightarrow> trie_has fs t \<or> prefix fs (e # es)" for fs
      unfolding fresh(3) t using fresh(1) by (cases fs) (simp_all add: map_of_children_set)
    ultimately show ?thesis using ok by blast
  qed
qed

lemma trie_remove_ok:
  assumes "trie_ok lower t"
  shows "trie_ok lower (snd (trie_remove lower es t))"
  using assms
proof (induction es arbitrary: t)
  case Nil
  then show ?case by simp
next
  case (Cons e es)
  obtain cs ls where t: "t = CaseConflictTrie cs ls" by (cases t)
  have ok_t: "trie_ok lower (CaseConflictTrie cs ls)" using Cons.prems t by simp
  then have lc: "lowercase_ok lower (fst ` set cs) (set ls)" by (auto elim: trie_okE)
  show ?case
  proof (cases "map_of cs e")
    case None
    then show ?thesis using ok_t t by simp
  next
    case (Some c)
    obtain found c' where r: "trie_remove lower es c = (found, c')" by fastforce
    have mem: "e \<in> fst ` set cs" using Some by (force dest: map_of_SomeD)
    have "trie_ok lower c" using trie_ok_children [OF ok_t] Some by simp
    then have c': "trie_ok lower c'" using Cons.IH [of c] r by simp
    have keys: "fst ` set (filter (\<lambda>(e', _). e' \<noteq> e) cs) = fst ` set cs - {e}" by force
    have ls: "set (case lower (as_bytes e) of Some l \<Rightarrow> removeAll l ls | None \<Rightarrow> ls)
        = (case lower (as_bytes e) of Some l \<Rightarrow> set ls - {l} | None \<Rightarrow> set ls)"
      by (auto split: option.split)
    have "trie_ok lower (CaseConflictTrie (filter (\<lambda>(e', _). e' \<noteq> e) cs)
        (case lower (as_bytes e) of Some l \<Rightarrow> removeAll l ls | None \<Rightarrow> ls))"
      (is "trie_ok lower (CaseConflictTrie ?cs ?ls)")
    proof (rule trie_ok.node)
      show "distinct (map fst ?cs)" using ok_t by (auto elim: trie_okE simp: distinct_map_filter)
      show "lowercase_ok lower (fst ` set ?cs) (set ?ls)"
        unfolding keys ls by (rule lowercase_ok_remove [OF lc mem])
      show "trie_ok lower d" if "(f, d) \<in> set ?cs" for f d
        using that ok_t by (auto elim: trie_okE)
    qed
    moreover have "trie_ok lower (CaseConflictTrie (children_set e c' cs) ls)"
      using ok_t c' lc mem by (intro trie_ok_set) (auto simp: insert_absorb)
    ultimately show ?thesis using t Some r by (simp cong: option.case_cong)
  qed
qed

lemma siblings_conflict_prefix:
  "prefix fs gs \<Longrightarrow> siblings_conflict lower es fs \<Longrightarrow> siblings_conflict lower es gs"
proof (induction lower es fs arbitrary: gs rule: siblings_conflict.induct)
  case (1 lower e es f fs)
  then show ?case by (cases gs) (auto split: if_splits option.splits)
qed auto

lemma siblings_conflict_sym: "siblings_conflict lower es fs = siblings_conflict lower fs es"
  by (induction lower es fs rule: siblings_conflict.induct) (auto split: option.splits)

lemma siblings_conflict_irrefl: "\<not> siblings_conflict lower es es"
  by (induction es) auto

lemma sorted_wrt_sym_iff:
  assumes "\<And>x y. R x y = R y x" and "\<And>x. R x x"
  shows "sorted_wrt R xs \<longleftrightarrow> (\<forall>x \<in> set xs. \<forall>y \<in> set xs. R x y)"
  using assms by (induction xs) auto

lemma check_case_conflicts_from_iff:
  assumes "trie_ok lower t"
  shows "check_case_conflicts_from (path_apply lower) ps t = None \<longleftrightarrow>
     (\<forall>p \<in> set ps. \<forall>fs. trie_has fs t \<longrightarrow> \<not> siblings_conflict lower (elements p) fs) \<and>
     sorted_wrt (\<lambda>p q. \<not> siblings_conflict lower (elements p) (elements q)) ps"
  using assms
proof (induction ps arbitrary: t)
  case Nil
  then show ?case by simp
next
  case (Cons p ps)
  obtain ok t' where add: "trie_add lower (elements p) t = (ok, t')" by fastforce
  note c = trie_add_correct [OF Cons.prems add]
  show ?case
  proof (cases ok)
    case False
    then show ?thesis using add c by (auto simp: path_apply_def)
  next
    case True
    have "(\<forall>fs. trie_has fs t' \<longrightarrow> \<not> siblings_conflict lower es fs) \<longleftrightarrow>
        (\<forall>fs. trie_has fs t \<longrightarrow> \<not> siblings_conflict lower es fs) \<and>
        \<not> siblings_conflict lower (elements p) es" for es
      using c True siblings_conflict_prefix [of _ "elements p" lower es]
      by (metis prefix_order.refl siblings_conflict_sym)
    then show ?thesis
      using True add c Cons.IH [of t'] by (auto simp: path_apply_def)
  qed
qed

lemma check_case_conflicts_from_mem:
  "check_case_conflicts_from (path_apply lower) ps t = Some p \<Longrightarrow> p \<in> set ps"
  by (induction ps arbitrary: t) (auto simp: path_apply_def split: prod.splits if_splits)

lemma trie_add_ok: "trie_ok lower t \<Longrightarrow> trie_ok lower (snd (trie_add lower es t))"
  using trie_add_correct [of lower t es] by (metis prod.collapse)

lemma trie_add_changed_ok: "trie_ok lower t \<Longrightarrow> trie_ok lower (snd (trie_add_changed lower cs t))"
proof (induction lower cs t rule: trie_add_changed.induct)
  case (2 lower path is_some cs t)
  obtain ok t' where add: "trie_add lower (elements path) t = (ok, t')" by fastforce
  then have "trie_ok lower t'" using trie_add_ok [OF 2(3), of "elements path"] by simp
  then show ?case using 2 add by auto
qed simp

lemma fold_trie_remove_ok:
  "trie_ok lower t \<Longrightarrow>
   trie_ok lower (fold (\<lambda>(path, is_some) t'. if is_some then t'
      else snd (trie_remove lower (elements path) t')) cs t)"
  by (induction cs arbitrary: t) (auto simp: trie_remove_ok)

section \<open>Properties\<close>

text \<open>
  C31: a path printed with \<open>to_vec\<close> parses back to itself, whatever valid path it is:
  \<open>MPath::new\<close> inverts \<open>MPath::to_vec\<close>, and the Thrift conversion round-trips too.
\<close>

theorem mpath_roundtrips:
  assumes "valid_mpath p"
  shows "MPath_new (MPath_to_vec p) = Inr p \<and> MPath_from_thrift (MPath_into_thrift p) = Inr p"
  using to_vec_new [OF assms] MPath_thrift_roundtrip [OF assms] by simp

theorem mpath_roundtrips_witness:
  "MPath_new (MPath_to_vec (MPath [MPathElement [102, 111], MPathElement [120]]))
   = Inr (MPath [MPathElement [102, 111], MPathElement [120]])"
  using mpath_roundtrips [of "MPath [MPathElement [102, 111], MPathElement [120]]"]
  by (simp add: valid_mpath_def valid_element_def SLASH_def NEWLINE_def)


text \<open>
  C28: \<open>check_pcf\<close> is right: on paths in ascending order it succeeds exactly when no changed
  path is a directory of another path of the list, although it compares each path with the
  last changed path only.
\<close>

theorem check_pcf_correct:
  assumes "sorted_wrt (<) (map fst xs)"
  shows "(check_pcf xs = Inr () \<longleftrightarrow> path_conflict_free xs) \<and>
     (\<forall>e. check_pcf xs = Inl e \<longrightarrow>
        (\<exists>p q. e = NotPathConflictFree p q \<and> (p, True) \<in> set xs \<and> q \<in> fst ` set xs \<and>
           prefix (elements p) (elements q)))"
  using check_pcf_iff [OF assms]
  by (auto simp: check_pcf_def elim!: check_pcf_from_error)

theorem check_pcf_correct_witness:
  "\<not> path_conflict_free [(MPath [MPathElement [97]], True),
      (MPath [MPathElement [97], MPathElement [98]], False), (MPath [MPathElement [97, 49]], True)]"
  using check_pcf_correct [of "[(MPath [MPathElement [97]], True),
      (MPath [MPathElement [97], MPathElement [98]], False), (MPath [MPathElement [97, 49]], True)]"]
  by (simp add: check_pcf_def is_prefix_of_def common_components_def num_components_def
      less_MPath_def less_MPathElement_def)

text \<open>
  C29: \<open>check_case_conflicts\<close> over paths reports nothing exactly when no two of the paths
  first differ in elements with the same lower case, for every lower-casing function; and a
  path it reports is one of the input.
\<close>

theorem check_case_conflicts_correct:
  "(check_case_conflicts (path_apply lower) ps = None \<longleftrightarrow>
      (\<forall>p \<in> set ps. \<forall>q \<in> set ps. \<not> siblings_conflict lower (elements p) (elements q))) \<and>
   (\<forall>p. check_case_conflicts (path_apply lower) ps = Some p \<longrightarrow> p \<in> set ps)"
proof -
  let ?R = "\<lambda>p q. \<not> siblings_conflict lower (elements p) (elements q)"
  have "sorted_wrt ?R ps \<longleftrightarrow> (\<forall>p \<in> set ps. \<forall>q \<in> set ps. ?R p q)"
    by (rule sorted_wrt_sym_iff) (auto simp: siblings_conflict_irrefl siblings_conflict_sym)
  moreover have "\<not> siblings_conflict lower es []" for es by (cases es) auto
  ultimately show ?thesis
    using check_case_conflicts_from_iff [OF trie_ok_new] check_case_conflicts_from_mem
    by (auto simp: check_case_conflicts_def trie_has_new)
qed

theorem check_case_conflicts_correct_witness:
  "check_case_conflicts (path_apply (\<lambda>b. Some (map (\<lambda>c. if c = 65 then 97 else c) b)))
     [MPath [MPathElement [97], MPathElement [98]], MPath [MPathElement [65]]] \<noteq> None"
  using check_case_conflicts_correct [of "\<lambda>b. Some (map (\<lambda>c. if c = 65 then 97 else c) b)"
     "[MPath [MPathElement [97], MPathElement [98]], MPath [MPathElement [65]]]"]
  by simp



end
