(* ===== verification/Hashes.thy ===== *)
theory Hashes
  imports MPaths
begin

text \<open>
  Hashes and typed identifiers: \<open>src/mononoke_types/src/hash.rs\<close> and
  \<open>src/mononoke_types/src/typed_hash.rs\<close>.

  A \<open>[u8; 32]\<close> is a byte list of length 32, which \<open>blake2_ok\<close> says. Hexadecimal strings
  are lists of ASCII codes, as the \<open>AsciiStr\<close> of the callers is. The BLAKE2 function is
  third-party code: it is the argument \<open>blake2\<close> (key, data) of the definitions that hash.
\<close>

unbundle bit_operations_syntax

datatype Blake2 = Blake2 (blake2_bytes: bytes)

datatype Sha256 = Sha256 (sha256_bytes: bytes)

datatype ChangesetId = ChangesetId (cs_blake2: Blake2)

datatype ContentId = ContentId (content_blake2: Blake2)

datatype RawBundle2Id = RawBundle2Id (bundle_blake2: Blake2)

definition HEX_CHARS :: bytes where
  "HEX_CHARS = [48, 49, 50, 51, 52, 53, 54, 55, 56, 57, 97, 98, 99, 100, 101, 102]"

definition Blake2_from_bytes :: "bytes \<Rightarrow> error_kind + Blake2" where
  "Blake2_from_bytes b =
     (if length b \<noteq> 32 then Inl (InvalidBlake2Input ''need exactly 32 bytes'')
      else Inr (Blake2 b))"

definition Blake2_from_thrift :: "bytes \<Rightarrow> error_kind + Blake2" where
  "Blake2_from_thrift b =
     (if length b \<noteq> 32
      then Inl (InvalidThrift ''Blake2'' ''wrong length: expected 32, got {}'')
      else Inr (Blake2 b))"

definition Blake2_into_thrift :: "Blake2 \<Rightarrow> bytes" where
  "Blake2_into_thrift h = blake2_bytes h"

definition hex_of_byte :: "byte \<Rightarrow> bytes" where
  "hex_of_byte b =
     [HEX_CHARS ! unat (drop_bit 4 b), HEX_CHARS ! unat (b AND 0xf)]"

definition Blake2_to_hex :: "Blake2 \<Rightarrow> bytes" where
  "Blake2_to_hex h = concat (map hex_of_byte (blake2_bytes h))"

definition Sha256_to_hex :: "Sha256 \<Rightarrow> bytes" where
  "Sha256_to_hex h = concat (map hex_of_byte (sha256_bytes h))"

text \<open>\<open>u8::from_str_radix(_, 16)\<close> on a string of two ASCII characters: one \<open>+\<close> may lead.\<close>

definition hex_digit :: "byte \<Rightarrow> byte option" where
  "hex_digit c =
     (if 48 \<le> c \<and> c \<le> 57 then Some (c - 48)
      else if 97 \<le> c \<and> c \<le> 102 then Some (c - 87)
      else if 65 \<le> c \<and> c \<le> 70 then Some (c - 55)
      else None)"

definition from_str_radix_16 :: "byte \<Rightarrow> byte \<Rightarrow> byte option" where
  "from_str_radix_16 a b =
     (if a = 43 then hex_digit b
      else case (hex_digit a, hex_digit b) of
             (Some x, Some y) \<Rightarrow> Some (push_bit 4 x OR y)
           | _ \<Rightarrow> None)"

text \<open>The loop over \<open>idx\<close>: the digits at \<open>2 * idx\<close> and \<open>2 * idx + 1\<close>, \<open>n\<close> bytes in all.\<close>

fun parse_hex :: "nat \<Rightarrow> bytes \<Rightarrow> bytes option" where
  "parse_hex 0 s = Some []"
| "parse_hex (Suc n) (a # b # s) =
     (case from_str_radix_16 a b of
        None \<Rightarrow> None
      | Some v \<Rightarrow> map_option ((#) v) (parse_hex n s))"
| "parse_hex (Suc n) s = None"

definition Blake2_from_str :: "bytes \<Rightarrow> error_kind + Blake2" where
  "Blake2_from_str s =
     (if length s < 64 then Inl (InvalidBlake2Input ''need at least 64 hex digits'')
      else case parse_hex 32 s of
             Some v \<Rightarrow> Inr (Blake2 v)
           | None \<Rightarrow> Inl (InvalidBlake2Input ''bad digit''))"

definition Sha256_from_bytes :: "bytes \<Rightarrow> error_kind + Sha256" where
  "Sha256_from_bytes b =
     (if length b \<noteq> 32 then Inl (InvalidSha256Input ''need exactly 32 bytes'')
      else Inr (Sha256 b))"

definition Sha256_from_str :: "bytes \<Rightarrow> error_kind + Sha256" where
  "Sha256_from_str s =
     (if length s \<noteq> 64 then Inl (InvalidSha256Input ''must be 64 hex digits'')
      else case parse_hex 32 s of
             Some v \<Rightarrow> Inr (Sha256 v)
           | None \<Rightarrow> Inl (InvalidSha256Input ''bad digit''))"

subsection \<open>Typed identifiers\<close>

datatype thrift_IdType = TBlake2 bytes | TUnknownId int

fun ChangesetId_from_thrift :: "thrift_IdType \<Rightarrow> error_kind + ChangesetId" where
  "ChangesetId_from_thrift (TBlake2 b) = map_ok ChangesetId (Blake2_from_thrift b)"
| "ChangesetId_from_thrift (TUnknownId x) =
     Inl (InvalidThrift ''ChangesetId'' ''unknown id type field: {}'')"

definition ChangesetId_into_thrift :: "ChangesetId \<Rightarrow> thrift_IdType" where
  "ChangesetId_into_thrift c = TBlake2 (Blake2_into_thrift (cs_blake2 c))"

fun ContentId_from_thrift :: "thrift_IdType \<Rightarrow> error_kind + ContentId" where
  "ContentId_from_thrift (TBlake2 b) = map_ok ContentId (Blake2_from_thrift b)"
| "ContentId_from_thrift (TUnknownId x) =
     Inl (InvalidThrift ''ContentId'' ''unknown id type field: {}'')"

definition ContentId_into_thrift :: "ContentId \<Rightarrow> thrift_IdType" where
  "ContentId_into_thrift c = TBlake2 (Blake2_into_thrift (content_blake2 c))"

definition ChangesetId_from_data :: "(string \<Rightarrow> bytes \<Rightarrow> Blake2) \<Rightarrow> bytes \<Rightarrow> ChangesetId" where
  "ChangesetId_from_data blake2 data = ChangesetId (blake2 ''changeset'' data)"

definition ContentId_from_data :: "(string \<Rightarrow> bytes \<Rightarrow> Blake2) \<Rightarrow> bytes \<Rightarrow> ContentId" where
  "ContentId_from_data blake2 data = ContentId (blake2 ''content'' data)"

definition ascii :: "string \<Rightarrow> bytes" where
  "ascii s = map (\<lambda>c. of_nat (of_char c)) s"

definition ChangesetId_blobstore_key :: "ChangesetId \<Rightarrow> bytes" where
  "ChangesetId_blobstore_key c = ascii ''changeset.blake2.'' @ Blake2_to_hex (cs_blake2 c)"

definition ContentId_blobstore_key :: "ContentId \<Rightarrow> bytes" where
  "ContentId_blobstore_key c = ascii ''content.blake2.'' @ Blake2_to_hex (content_blake2 c)"

section \<open>Well-formed hashes\<close>

definition blake2_ok :: "Blake2 \<Rightarrow> bool" where
  "blake2_ok h \<longleftrightarrow> length (blake2_bytes h) = 32"

abbreviation cs_ok :: "ChangesetId \<Rightarrow> bool" where "cs_ok c \<equiv> blake2_ok (cs_blake2 c)"

abbreviation content_ok :: "ContentId \<Rightarrow> bool" where "content_ok c \<equiv> blake2_ok (content_blake2 c)"

lemma Blake2_from_bytes_iff: "Blake2_from_bytes b = Inr h \<longleftrightarrow> h = Blake2 b \<and> blake2_ok h"
  by (auto simp: Blake2_from_bytes_def blake2_ok_def)

lemma Blake2_from_thrift_iff: "Blake2_from_thrift b = Inr h \<longleftrightarrow> h = Blake2 b \<and> blake2_ok h"
  by (auto simp: Blake2_from_thrift_def blake2_ok_def)

lemma ChangesetId_thrift_roundtrip:
  "cs_ok c \<Longrightarrow> ChangesetId_from_thrift (ChangesetId_into_thrift c) = Inr c"
  by (simp add: ChangesetId_into_thrift_def Blake2_into_thrift_def result_simps Blake2_from_thrift_iff)

lemma ContentId_thrift_roundtrip:
  "content_ok c \<Longrightarrow> ContentId_from_thrift (ContentId_into_thrift c) = Inr c"
  by (simp add: ContentId_into_thrift_def Blake2_into_thrift_def result_simps Blake2_from_thrift_iff)

lemma ChangesetId_from_thrift_ok: "ChangesetId_from_thrift t = Inr c \<Longrightarrow> cs_ok c"
  by (cases t) (auto simp: result_simps Blake2_from_thrift_iff)

lemma ContentId_from_thrift_ok: "ContentId_from_thrift t = Inr c \<Longrightarrow> content_ok c"
  by (cases t) (auto simp: result_simps Blake2_from_thrift_iff)

section \<open>Hexadecimal\<close>

lemma unat_nibble_hi: "unat (drop_bit 4 b) < 16" for b :: byte
proof -
  have "unat b < 2 ^ 8" using unsigned_less [of b] by simp
  then show ?thesis by (simp only: unsigned_drop_bit_eq) (simp add: drop_bit_eq_div take_bit_eq_mod)
qed

lemma unat_nibble_lo: "unat (b AND 0xf) < 16" for b :: byte
proof -
  have "b AND 0xf = take_bit 4 b" by (simp add: take_bit_eq_mask mask_numeral)
  then show ?thesis by (simp only: unsigned_take_bit_eq) (simp add: take_bit_eq_mod)
qed

lemma hex_digit_HEX_CHARS: "n < 16 \<Longrightarrow> hex_digit (HEX_CHARS ! n) = Some (of_nat n)"
proof -
  have "\<forall>n < 16. hex_digit (HEX_CHARS ! n) = Some (of_nat n)"
    unfolding HEX_CHARS_def hex_digit_def by code_simp
  then show "n < 16 \<Longrightarrow> hex_digit (HEX_CHARS ! n) = Some (of_nat n)" by blast
qed

lemma HEX_CHARS_no_plus: "n < 16 \<Longrightarrow> HEX_CHARS ! n \<noteq> 43"
proof -
  have "\<forall>n < 16. HEX_CHARS ! n \<noteq> 43"
    unfolding HEX_CHARS_def by code_simp
  then show "n < 16 \<Longrightarrow> HEX_CHARS ! n \<noteq> 43" by blast
qed

lemma nibbles_join: "push_bit 4 (drop_bit 4 b) OR (b AND 0xf) = b" for b :: byte
proof -
  have "b AND 0xf = take_bit 4 b" by (simp add: take_bit_eq_mask mask_numeral)
  then show ?thesis by (simp add: bit_eq_iff bit_simps) auto
qed

lemma from_str_radix_hex_of_byte:
  "from_str_radix_16 (hex_of_byte b ! 0) (hex_of_byte b ! 1) = Some b"
  using hex_digit_HEX_CHARS [OF unat_nibble_hi, of b] HEX_CHARS_no_plus [OF unat_nibble_hi, of b]
    hex_digit_HEX_CHARS [OF unat_nibble_lo, of b]
  by (simp add: from_str_radix_16_def hex_of_byte_def nibbles_join)

lemma parse_hex_to_hex: "parse_hex (length bs) (concat (map hex_of_byte bs) @ rest) = Some bs"
proof (induction bs)
  case (Cons b bs)
  obtain c d where "hex_of_byte b = [c, d]" by (simp add: hex_of_byte_def)
  with Cons from_str_radix_hex_of_byte [of b] show ?case by simp
qed simp

lemma length_to_hex: "length (concat (map hex_of_byte bs)) = 2 * length bs"
  by (induction bs) (auto simp: hex_of_byte_def)

lemma parse_hex_length: "parse_hex n s = Some v \<Longrightarrow> length v = n"
  by (induction n s arbitrary: v rule: parse_hex.induct) (auto split: option.splits)

end
