(* ===== verification/Bonsai.thy ===== *)
theory Bonsai
  imports Hashes
begin

text \<open>
  Bonsai changesets: \<open>src/mononoke_types/src/datetime.rs\<close>, \<open>file_change.rs\<close>,
  \<open>bonsai_changeset.rs\<close>, \<open>file_contents.rs\<close> and the thrift structures of
  \<open>src/mononoke_types/if/mononoke_types_thrift.thrift\<close>.

  Three third-party libraries are parameters. \<open>chrono\<close> tells which offsets and seconds the
  crate of that name accepts; \<open>ser\<close> and \<open>de\<close> are \<open>compact_protocol::serialize\<close> and
  \<open>deserialize\<close>, of which only \<open>de (ser t) = Some t\<close> is ever assumed; \<open>blake2\<close> is the keyed hash.
  A \<open>String\<close> is its UTF-8 bytes, whose lexicographic order is the order of Rust's \<open>String\<close>.
\<close>

section \<open>Dates\<close>

record chrono =
  offset_in_range :: "int \<Rightarrow> bool"
  secs_in_range :: "int \<Rightarrow> bool"

datatype DateTime = DateTime (timestamp_secs: int) (subsec_nanos: nat) (tz_offset_secs: int)

record thrift_DateTime =
  t_timestamp_secs :: int
  t_tz_offset_secs :: int

definition from_timestamp :: "chrono \<Rightarrow> int \<Rightarrow> int \<Rightarrow> error_kind + DateTime" where
  "from_timestamp ch secs tz_offset =
     (if \<not> offset_in_range ch tz_offset
      then Inl (InvalidDateTime ''timezone offset out of range: {}'')
      else if \<not> secs_in_range ch secs then Inl (InvalidDateTime ''seconds out of range: {}'')
      else Inr (DateTime secs 0 tz_offset))"

definition DateTime_from_thrift :: "chrono \<Rightarrow> thrift_DateTime \<Rightarrow> error_kind + DateTime" where
  "DateTime_from_thrift ch dt = from_timestamp ch (t_timestamp_secs dt) (t_tz_offset_secs dt)"

definition DateTime_into_thrift :: "DateTime \<Rightarrow> thrift_DateTime" where
  "DateTime_into_thrift dt =
     \<lparr>t_timestamp_secs = timestamp_secs dt, t_tz_offset_secs = tz_offset_secs dt\<rparr>"

text \<open>
  \<open>Timestamp\<close> is an \<open>i64\<close> of nanoseconds. Rust's \<open>/\<close> and \<open>%\<close> truncate toward zero; the cast of
  the remainder to \<open>u32\<close> wraps; \<open>NaiveDateTime::from_timestamp\<close> panics (\<open>None\<close>) on seconds out
  of range and on a nanosecond part of 2,000,000,000 or more.
\<close>

datatype Timestamp = Timestamp (timestamp_nanos: int)

definition quot_trunc :: "int \<Rightarrow> int \<Rightarrow> int" where
  "quot_trunc a b = (if a < 0 then - ((- a) div b) else a div b)"

definition rem_trunc :: "int \<Rightarrow> int \<Rightarrow> int" where
  "rem_trunc a b = (if a < 0 then - ((- a) mod b) else a mod b)"

definition timestamp_seconds :: "Timestamp \<Rightarrow> int" where
  "timestamp_seconds ts = quot_trunc (timestamp_nanos ts) 1000000000"

definition since_nanos :: "int \<Rightarrow> Timestamp \<Rightarrow> int" where
  "since_nanos now ts = now - timestamp_nanos ts"

definition since_seconds :: "int \<Rightarrow> Timestamp \<Rightarrow> int" where
  "since_seconds now ts = quot_trunc (since_nanos now ts) 1000000000"

definition Timestamp_from_DateTime :: "DateTime \<Rightarrow> Timestamp" where
  "Timestamp_from_DateTime dt =
     Timestamp (timestamp_secs dt * 1000000000 + int (subsec_nanos dt))"

definition DateTime_from_Timestamp :: "chrono \<Rightarrow> Timestamp \<Rightarrow> DateTime option" where
  "DateTime_from_Timestamp ch ts =
     (let ts_secs = timestamp_seconds ts;
          ts_nsecs = rem_trunc (timestamp_nanos ts) 1000000000 mod 2 ^ 32
      in if secs_in_range ch ts_secs \<and> ts_nsecs < 2000000000
         then Some (DateTime ts_secs (nat ts_nsecs) 0) else None)"

section \<open>File changes\<close>

datatype FileType = Regular | Executable | Symlink

record FileChange =
  content_id :: ContentId
  file_type :: FileType
  fc_size :: "64 word"
  copy_from :: "(MPath \<times> ChangesetId) option"

record thrift_CopyInfo =
  t_file :: "bytes list"
  t_cs_id :: thrift_IdType

record thrift_FileChange =
  t_content_id :: thrift_IdType
  t_file_type :: int
  t_size :: int
  t_copy_from :: "thrift_CopyInfo option"

definition FileType_complement :: "FileType \<Rightarrow> FileType list" where
  "FileType_complement ft =
     (case ft of
        Regular \<Rightarrow> [Executable, Symlink]
      | Executable \<Rightarrow> [Regular, Symlink]
      | Symlink \<Rightarrow> [Regular, Executable])"

definition FileType_from_thrift :: "int \<Rightarrow> error_kind + FileType" where
  "FileType_from_thrift ft =
     (if ft = 0 then Inr Regular
      else if ft = 1 then Inr Executable
      else if ft = 2 then Inr Symlink
      else Inl (InvalidThrift ''FileType'' ''unknown file type''))"

fun FileType_into_thrift :: "FileType \<Rightarrow> int" where
  "FileType_into_thrift Regular = 0"
| "FileType_into_thrift Executable = 1"
| "FileType_into_thrift Symlink = 2"

definition copy_from_thrift ::
    "thrift_CopyInfo option \<Rightarrow> error_kind + (MPath \<times> ChangesetId) option" where
  "copy_from_thrift ci =
     (case ci of
        Some copy_info \<Rightarrow>
          and_then (MPath_from_thrift (t_file copy_info)) (\<lambda>p.
          and_then (ChangesetId_from_thrift (t_cs_id copy_info)) (\<lambda>cs.
          Inr (Some (p, cs))))
      | None \<Rightarrow> Inr None)"

definition FileChange_from_thrift :: "thrift_FileChange \<Rightarrow> error_kind + FileChange" where
  "FileChange_from_thrift fc =
     map_err (Context (InvalidThrift ''FileChange'' ''Invalid changed entry for path {}''))
       (and_then (ContentId_from_thrift (t_content_id fc)) (\<lambda>cid.
        and_then (FileType_from_thrift (t_file_type fc)) (\<lambda>ft.
        and_then (copy_from_thrift (t_copy_from fc)) (\<lambda>cf.
        Inr \<lparr>content_id = cid, file_type = ft, fc_size = word_of_int (t_size fc),
             copy_from = cf\<rparr>))))"

definition FileChange_from_thrift_opt ::
    "thrift_FileChange option \<Rightarrow> error_kind + FileChange option" where
  "FileChange_from_thrift_opt fc_opt =
     (case fc_opt of
        Some fc \<Rightarrow> map_ok Some (FileChange_from_thrift fc)
      | None \<Rightarrow> Inr None)"

definition FileChange_into_thrift :: "FileChange \<Rightarrow> thrift_FileChange" where
  "FileChange_into_thrift fc =
     \<lparr>t_content_id = ContentId_into_thrift (content_id fc),
      t_file_type = FileType_into_thrift (file_type fc),
      t_size = sint (fc_size fc),
      t_copy_from = map_option
        (\<lambda>(file, cs_id). \<lparr>t_file = MPath_into_thrift file, t_cs_id = ChangesetId_into_thrift cs_id\<rparr>)
        (copy_from fc)\<rparr>"

definition FileChange_into_thrift_opt :: "FileChange option \<Rightarrow> thrift_FileChange option" where
  "FileChange_into_thrift_opt fc_opt = map_option FileChange_into_thrift fc_opt"

section \<open>Changesets\<close>

record BonsaiChangesetMut =
  parents :: "ChangesetId list"
  author :: bytes
  author_date :: DateTime
  committer :: "bytes option"
  committer_date :: "DateTime option"
  message :: bytes
  extra :: "(bytes, bytes) btree_map"
  file_changes :: "(MPath, FileChange option) btree_map"

datatype BonsaiChangeset = BonsaiChangeset (into_mut: BonsaiChangesetMut)

record thrift_BonsaiChangeset =
  t_parents :: "thrift_IdType list"
  t_author :: bytes
  t_author_date :: "thrift_DateTime option"
  t_committer :: "bytes option"
  t_committer_date :: "thrift_DateTime option"
  t_message :: bytes
  t_extra :: "(bytes, bytes) btree_map"
  t_file_changes :: "(bytes list, thrift_FileChange option) btree_map"

text \<open>The first loop of \<open>verify\<close>: copy information names one of the parents.\<close>

fun verify_copies ::
    "ChangesetId list \<Rightarrow> (MPath \<times> FileChange option) list \<Rightarrow> error_kind + unit" where
  "verify_copies ps [] = Inr ()"
| "verify_copies ps ((path, fc_opt) # rest) =
     (case fc_opt of
        None \<Rightarrow> verify_copies ps rest
      | Some fc \<Rightarrow>
          (case copy_from fc of
             None \<Rightarrow> verify_copies ps rest
           | Some (copy_from_path, copy_from_id) \<Rightarrow>
               if copy_from_id \<notin> set ps
               then Inl (InvalidBonsaiChangeset ''copy information has parent which isnt recognized'')
               else verify_copies ps rest))"

definition bonsai_verify :: "BonsaiChangesetMut \<Rightarrow> error_kind + unit" where
  "bonsai_verify bcs =
     and_then (verify_copies (parents bcs) (file_changes bcs)) (\<lambda>_.
     and_then
       (map_err (Context (InvalidBonsaiChangeset ''invalid file change list''))
         (check_pcf (map (\<lambda>(path, change). (path, change \<noteq> None)) (file_changes bcs)))) (\<lambda>_.
     Inr ()))"

definition freeze :: "BonsaiChangesetMut \<Rightarrow> error_kind + BonsaiChangeset" where
  "freeze bcs = and_then (bonsai_verify bcs) (\<lambda>_. Inr (BonsaiChangeset bcs))"

definition file_change_from_thrift ::
    "bytes list \<times> thrift_FileChange option \<Rightarrow> error_kind + (MPath \<times> FileChange option)" where
  "file_change_from_thrift entry =
     (case entry of (f, fc_opt) \<Rightarrow>
        and_then (MPath_from_thrift f) (\<lambda>mpath.
        and_then (FileChange_from_thrift_opt fc_opt) (\<lambda>fc_opt.
        Inr (mpath, fc_opt))))"

definition optional_date_from_thrift ::
    "chrono \<Rightarrow> thrift_DateTime option \<Rightarrow> error_kind + DateTime option" where
  "optional_date_from_thrift ch d =
     (case d of
        Some dt \<Rightarrow> map_ok Some (DateTime_from_thrift ch dt)
      | None \<Rightarrow> Inr None)"

definition BonsaiChangeset_from_thrift ::
    "chrono \<Rightarrow> thrift_BonsaiChangeset \<Rightarrow> error_kind + BonsaiChangeset" where
  "BonsaiChangeset_from_thrift ch tc =
     map_err (Context (InvalidThrift ''BonsaiChangeset'' ''Invalid changeset''))
       (and_then (collect_ok ChangesetId_from_thrift (t_parents tc)) (\<lambda>ps.
        and_then (case t_author_date tc of
                    None \<Rightarrow> Inl (ErrMsg ''missing author date field'')
                  | Some d \<Rightarrow> DateTime_from_thrift ch d) (\<lambda>ad.
        and_then (optional_date_from_thrift ch (t_committer_date tc)) (\<lambda>cd.
        and_then (collect_ok file_change_from_thrift (t_file_changes tc)) (\<lambda>fcs.
        freeze \<lparr>parents = ps, author = t_author tc, author_date = ad,
                committer = t_committer tc, committer_date = cd, message = t_message tc,
                extra = t_extra tc, file_changes = btm_from_list fcs\<rparr>)))))"

definition BonsaiChangeset_into_thrift :: "BonsaiChangeset \<Rightarrow> thrift_BonsaiChangeset" where
  "BonsaiChangeset_into_thrift bcs =
     (let inner = into_mut bcs in
      \<lparr>t_parents = map ChangesetId_into_thrift (parents inner),
       t_author = author inner,
       t_author_date = Some (DateTime_into_thrift (author_date inner)),
       t_committer = committer inner,
       t_committer_date = map_option DateTime_into_thrift (committer_date inner),
       t_message = message inner,
       t_extra = extra inner,
       t_file_changes = btm_from_list
         (map (\<lambda>(f, c). (MPath_into_thrift f, FileChange_into_thrift_opt c)) (file_changes inner))\<rparr>)"

record 'id Blob =
  blob_id :: 'id
  blob_data :: bytes

definition BonsaiChangeset_into_blob ::
    "(thrift_BonsaiChangeset \<Rightarrow> bytes) \<Rightarrow> (string \<Rightarrow> bytes \<Rightarrow> Blake2) \<Rightarrow> BonsaiChangeset
      \<Rightarrow> ChangesetId Blob" where
  "BonsaiChangeset_into_blob ser blake2 bcs =
     (let data = ser (BonsaiChangeset_into_thrift bcs)
      in \<lparr>blob_id = ChangesetId_from_data blake2 data, blob_data = data\<rparr>)"

definition BonsaiChangeset_from_blob ::
    "(bytes \<Rightarrow> thrift_BonsaiChangeset option) \<Rightarrow> chrono \<Rightarrow> ChangesetId Blob
      \<Rightarrow> error_kind + BonsaiChangeset" where
  "BonsaiChangeset_from_blob de ch blob =
     (case de (blob_data blob) of
        None \<Rightarrow> Inl (BlobDeserializeError ''BonsaiChangeset'')
      | Some t \<Rightarrow> BonsaiChangeset_from_thrift ch t)"

definition get_changeset_id ::
    "(thrift_BonsaiChangeset \<Rightarrow> bytes) \<Rightarrow> (string \<Rightarrow> bytes \<Rightarrow> Blake2) \<Rightarrow> BonsaiChangeset
      \<Rightarrow> ChangesetId" where
  "get_changeset_id ser blake2 bcs = blob_id (BonsaiChangeset_into_blob ser blake2 bcs)"

definition blob_from_bytes :: "(string \<Rightarrow> bytes \<Rightarrow> Blake2) \<Rightarrow> bytes \<Rightarrow> ChangesetId Blob" where
  "blob_from_bytes blake2 data =
     \<lparr>blob_id = ChangesetId_from_data blake2 data, blob_data = data\<rparr>"

section \<open>File contents\<close>

datatype FileContents = FileContents_Bytes (contents_bytes: bytes)

datatype thrift_FileContents = TBytes bytes | TUnknownContents int

fun FileContents_from_thrift :: "thrift_FileContents \<Rightarrow> error_kind + FileContents" where
  "FileContents_from_thrift (TBytes b) = Inr (FileContents_Bytes b)"
| "FileContents_from_thrift (TUnknownContents x) =
     Inl (InvalidThrift ''FileContents'' ''unknown file contents field: {}'')"

definition FileContents_into_thrift :: "FileContents \<Rightarrow> thrift_FileContents" where
  "FileContents_into_thrift fc = TBytes (contents_bytes fc)"

definition FileContents_size :: "FileContents \<Rightarrow> nat" where
  "FileContents_size fc = length (contents_bytes fc)"

definition FileContents_starts_with :: "FileContents \<Rightarrow> bytes \<Rightarrow> bool" where
  "FileContents_starts_with fc needle \<longleftrightarrow> take (length needle) (contents_bytes fc) = needle"

definition FileContents_into_blob ::
    "(thrift_FileContents \<Rightarrow> bytes) \<Rightarrow> (string \<Rightarrow> bytes \<Rightarrow> Blake2) \<Rightarrow> FileContents
      \<Rightarrow> ContentId Blob" where
  "FileContents_into_blob ser blake2 fc =
     \<lparr>blob_id = ContentId_from_data blake2 (contents_bytes fc),
      blob_data = ser (FileContents_into_thrift fc)\<rparr>"

definition FileContents_from_encoded_bytes ::
    "(bytes \<Rightarrow> thrift_FileContents option) \<Rightarrow> bytes \<Rightarrow> error_kind + FileContents" where
  "FileContents_from_encoded_bytes de encoded =
     (case de encoded of
        None \<Rightarrow> Inl (BlobDeserializeError ''FileContents'')
      | Some t \<Rightarrow> FileContents_from_thrift t)"

definition FileContents_from_blob ::
    "(bytes \<Rightarrow> thrift_FileContents option) \<Rightarrow> ContentId Blob \<Rightarrow> error_kind + FileContents" where
  "FileContents_from_blob de blob =
     (case de (blob_data blob) of
        None \<Rightarrow> Inl (BlobDeserializeError ''FileContents'')
      | Some t \<Rightarrow> FileContents_from_thrift t)"

section \<open>Well-formed values\<close>

text \<open>
  What the types of the source guarantee: hashes of 32 bytes, paths built by the constructors of
  \<open>MPath\<close>, dates accepted by \<open>chrono\<close> (with no fraction of a second for the round trips), maps
  with their keys in order.
\<close>

definition date_ok :: "chrono \<Rightarrow> DateTime \<Rightarrow> bool" where
  "date_ok ch d \<longleftrightarrow> offset_in_range ch (tz_offset_secs d) \<and> secs_in_range ch (timestamp_secs d)"

definition whole_seconds :: "DateTime \<Rightarrow> bool" where
  "whole_seconds d \<longleftrightarrow> subsec_nanos d = 0"

definition file_change_ok :: "FileChange \<Rightarrow> bool" where
  "file_change_ok fc \<longleftrightarrow> content_ok (content_id fc) \<and>
     (\<forall>p cs. copy_from fc = Some (p, cs) \<longrightarrow> valid_mpath p \<and> cs_ok cs)"

definition bonsai_mut_ok :: "chrono \<Rightarrow> BonsaiChangesetMut \<Rightarrow> bool" where
  "bonsai_mut_ok ch b \<longleftrightarrow>
     (\<forall>p \<in> set (parents b). cs_ok p) \<and> date_ok ch (author_date b) \<and>
     (\<forall>d. committer_date b = Some d \<longrightarrow> date_ok ch d) \<and>
     btm_ok (file_changes b) \<and>
     (\<forall>(p, c) \<in> set (file_changes b). valid_mpath p \<and> (\<forall>fc. c = Some fc \<longrightarrow> file_change_ok fc))"

text \<open>What \<open>freeze\<close> promises of the changeset it returns.\<close>

definition bonsai_consistent :: "BonsaiChangesetMut \<Rightarrow> bool" where
  "bonsai_consistent b \<longleftrightarrow>
     (\<forall>(p, c) \<in> set (file_changes b). \<forall>fc q cs.
        c = Some fc \<longrightarrow> copy_from fc = Some (q, cs) \<longrightarrow> cs \<in> set (parents b)) \<and>
     path_conflict_free (map (\<lambda>(p, c). (p, c \<noteq> None)) (file_changes b))"

definition whole_second_dates :: "BonsaiChangesetMut \<Rightarrow> bool" where
  "whole_second_dates b \<longleftrightarrow> whole_seconds (author_date b) \<and>
     (\<forall>d. committer_date b = Some d \<longrightarrow> whole_seconds d)"

lemma verify_copies_iff:
  "verify_copies ps fcs = Inr () \<longleftrightarrow>
     (\<forall>(p, c) \<in> set fcs. \<forall>fc q cs. c = Some fc \<longrightarrow> copy_from fc = Some (q, cs) \<longrightarrow> cs \<in> set ps)"
  by (induction fcs rule: verify_copies.induct) (auto split: option.splits)

lemma verify_copies_error:
  "verify_copies ps fcs = Inl e \<Longrightarrow> \<exists>m. e = InvalidBonsaiChangeset m"
  by (induction fcs rule: verify_copies.induct) (auto split: option.splits if_splits)

lemma bonsai_verify_iff:
  assumes "btm_ok (file_changes b)"
  shows "bonsai_verify b = Inr () \<longleftrightarrow> bonsai_consistent b"
proof -
  have "map fst (map (\<lambda>(p, c). (p, c \<noteq> None)) (file_changes b)) = map fst (file_changes b)"
    by auto
  with assms have "check_pcf (map (\<lambda>(p, c). (p, c \<noteq> None)) (file_changes b)) = Inr () \<longleftrightarrow>
      path_conflict_free (map (\<lambda>(p, c). (p, c \<noteq> None)) (file_changes b))"
    by (metis check_pcf_iff)
  then show ?thesis
    by (simp add: bonsai_verify_def bonsai_consistent_def result_simps verify_copies_iff)
qed

lemma freeze_iff:
  assumes "btm_ok (file_changes b)"
  shows "freeze b = Inr c \<longleftrightarrow> c = BonsaiChangeset b \<and> bonsai_consistent b"
  by (auto simp: freeze_def result_simps bonsai_verify_iff [OF assms])

lemma freeze_error:
  assumes "freeze b = Inl e"
  shows "(\<exists>m. e = InvalidBonsaiChangeset m) \<or>
    (\<exists>m p q. e = Context (InvalidBonsaiChangeset m) (NotPathConflictFree p q) \<and>
       prefix (elements p) (elements q))"
proof (cases "verify_copies (parents b) (file_changes b)")
  case (Inl d)
  then show ?thesis using assms verify_copies_error [OF Inl] by (simp add: freeze_def bonsai_verify_def)
next
  case (Inr u)
  then obtain d where d: "check_pcf (map (\<lambda>(p, c). (p, c \<noteq> None)) (file_changes b)) = Inl d"
      and e: "e = Context (InvalidBonsaiChangeset ''invalid file change list'') d"
    using assms by (auto simp: freeze_def bonsai_verify_def result_simps)
  obtain p q where "d = NotPathConflictFree p q" "prefix (elements p) (elements q)"
    using d unfolding check_pcf_def by (rule check_pcf_from_error)
  with e show ?thesis by blast
qed

lemma DateTime_thrift_roundtrip:
  "DateTime_from_thrift ch (DateTime_into_thrift d) = Inr d \<longleftrightarrow> date_ok ch d \<and> whole_seconds d"
  by (cases d) (auto simp: DateTime_from_thrift_def DateTime_into_thrift_def from_timestamp_def
      date_ok_def whole_seconds_def)

lemma DateTime_from_thrift_ok:
  "DateTime_from_thrift ch t = Inr d \<Longrightarrow> date_ok ch d \<and> whole_seconds d \<and> DateTime_into_thrift d = t"
  by (auto simp: DateTime_from_thrift_def DateTime_into_thrift_def from_timestamp_def
      date_ok_def whole_seconds_def split: if_splits)

lemma FileType_thrift_roundtrip: "FileType_from_thrift (FileType_into_thrift ft) = Inr ft"
  by (cases ft) (simp_all add: FileType_from_thrift_def)

lemma copy_from_thrift_ok:
  "copy_from_thrift ci = Inr (Some (p, cs)) \<Longrightarrow> valid_mpath p \<and> cs_ok cs"
  by (auto simp: copy_from_thrift_def result_simps MPath_from_thrift_valid ChangesetId_from_thrift_ok
      split: option.splits)

lemma FileChange_thrift_roundtrip:
  assumes "file_change_ok fc"
  shows "FileChange_from_thrift (FileChange_into_thrift fc) = Inr fc"
proof -
  have "copy_from_thrift (t_copy_from (FileChange_into_thrift fc)) = Inr (copy_from fc)"
    using assms
    by (auto simp: copy_from_thrift_def FileChange_into_thrift_def file_change_ok_def
        MPath_thrift_roundtrip ChangesetId_thrift_roundtrip split: option.splits)
  moreover have "ContentId_from_thrift (t_content_id (FileChange_into_thrift fc)) = Inr (content_id fc)"
    using assms by (simp add: FileChange_into_thrift_def file_change_ok_def ContentId_thrift_roundtrip)
  ultimately show ?thesis
    by (simp add: FileChange_from_thrift_def)
       (simp add: FileChange_into_thrift_def FileType_thrift_roundtrip)
qed

lemma FileChange_from_thrift_ok: "FileChange_from_thrift t = Inr fc \<Longrightarrow> file_change_ok fc"
  by (auto simp: FileChange_from_thrift_def result_simps file_change_ok_def
      dest: copy_from_thrift_ok ContentId_from_thrift_ok)

lemma file_change_from_thrift_ok:
  "file_change_from_thrift e = Inr (p, c) \<Longrightarrow>
     valid_mpath p \<and> (\<forall>fc. c = Some fc \<longrightarrow> file_change_ok fc)"
  by (auto simp: file_change_from_thrift_def FileChange_from_thrift_opt_def result_simps
      split: prod.splits option.splits dest: MPath_from_thrift_valid FileChange_from_thrift_ok)

lemma file_change_thrift_roundtrip:
  assumes "valid_mpath p" "\<And>fc. c = Some fc \<Longrightarrow> file_change_ok fc"
  shows "file_change_from_thrift (MPath_into_thrift p, FileChange_into_thrift_opt c) = Inr (p, c)"
  using assms
  by (cases c) (simp_all add: file_change_from_thrift_def FileChange_from_thrift_opt_def
      FileChange_into_thrift_opt_def MPath_thrift_roundtrip FileChange_thrift_roundtrip)

lemma MPath_into_thrift_less: "MPath_into_thrift p < MPath_into_thrift q \<longleftrightarrow> p < q"
proof -
  have inj: "as_bytes e = as_bytes f \<longleftrightarrow> e = f" for e f by (cases e; cases f) simp
  have "map as_bytes es < map as_bytes fs \<longleftrightarrow> es < fs" for es fs :: "MPathElement list"
  proof (induction es arbitrary: fs)
    case Nil
    then show ?case by (cases fs) simp_all
  next
    case (Cons e es)
    then show ?case by (cases fs) (simp_all add: less_MPathElement_def inj)
  qed
  then show ?thesis
    by (simp add: MPath_into_thrift_def MPathElement_into_thrift_def [abs_def] less_MPath_def)
qed

lemma btm_ok_into_thrift:
  "btm_ok m \<Longrightarrow> btm_ok (map (\<lambda>(f, c). (MPath_into_thrift f, g c)) m)"
  by (induction m) (auto simp: MPath_into_thrift_less)

lemma BonsaiChangeset_thrift_roundtrip:
  assumes ok: "bonsai_mut_ok ch b" and con: "bonsai_consistent b" and dates: "whole_second_dates b"
  shows "BonsaiChangeset_from_thrift ch (BonsaiChangeset_into_thrift (BonsaiChangeset b))
       = Inr (BonsaiChangeset b)"
proof -
  let ?t = "BonsaiChangeset_into_thrift (BonsaiChangeset b)"
  have "collect_ok ChangesetId_from_thrift (t_parents ?t) = Inr (map id (parents b))"
    using ok unfolding BonsaiChangeset_into_thrift_def
    by (simp add: collect_ok_map) (rule collect_ok_Inr [where g = id, simplified],
        simp add: bonsai_mut_ok_def ChangesetId_thrift_roundtrip)
  moreover have "DateTime_from_thrift ch (DateTime_into_thrift (author_date b)) = Inr (author_date b)"
    using ok dates by (simp add: bonsai_mut_ok_def whole_second_dates_def DateTime_thrift_roundtrip)
  moreover have "optional_date_from_thrift ch (t_committer_date ?t) = Inr (committer_date b)"
    using ok dates by (auto simp: bonsai_mut_ok_def whole_second_dates_def BonsaiChangeset_into_thrift_def
        optional_date_from_thrift_def DateTime_thrift_roundtrip map_ok_eq_Inr split: option.splits)
  moreover have "collect_ok file_change_from_thrift (t_file_changes ?t) = Inr (map id (file_changes b))"
  proof -
    have "t_file_changes ?t =
        map (\<lambda>(f, c). (MPath_into_thrift f, FileChange_into_thrift_opt c)) (file_changes b)"
      using ok btm_from_list_id [OF btm_ok_into_thrift, of "file_changes b" FileChange_into_thrift_opt]
      by (simp add: BonsaiChangeset_into_thrift_def Let_def bonsai_mut_ok_def)
    then show ?thesis
      using ok by (simp only: collect_ok_map)
        (rule collect_ok_Inr, auto simp: bonsai_mut_ok_def file_change_thrift_roundtrip)
  qed
  moreover have "btm_ok (file_changes b)" using ok by (simp add: bonsai_mut_ok_def)
  ultimately show ?thesis
    by (simp add: BonsaiChangeset_from_thrift_def btm_from_list_id map_err_eq_Inr)
       (use con in \<open>simp add: BonsaiChangeset_into_thrift_def Let_def freeze_iff bonsai_consistent_def\<close>)
qed

lemma BonsaiChangeset_from_thrift_ok:
  assumes "BonsaiChangeset_from_thrift ch t = Inr c"
  shows "bonsai_mut_ok ch (into_mut c) \<and> bonsai_consistent (into_mut c) \<and> whole_second_dates (into_mut c)"
proof -
  from assms obtain ps ad cd fcs where
      ps: "collect_ok ChangesetId_from_thrift (t_parents t) = Inr ps"
      and ad: "(case t_author_date t of None \<Rightarrow> Inl (ErrMsg ''missing author date field'')
                | Some d \<Rightarrow> DateTime_from_thrift ch d) = Inr ad"
      and cd: "optional_date_from_thrift ch (t_committer_date t) = Inr cd"
      and fcs: "collect_ok file_change_from_thrift (t_file_changes t) = Inr fcs"
      and fr: "freeze \<lparr>parents = ps, author = t_author t, author_date = ad,
                committer = t_committer t, committer_date = cd, message = t_message t,
                extra = t_extra t, file_changes = btm_from_list fcs\<rparr> = Inr c"
    by (auto simp: BonsaiChangeset_from_thrift_def result_simps)
  have "\<forall>p \<in> set ps. cs_ok p"
    using ps by (blast dest: collect_ok_mem ChangesetId_from_thrift_ok)
  moreover have "date_ok ch ad \<and> whole_seconds ad"
    using ad DateTime_from_thrift_ok by (auto split: option.splits)
  moreover have "\<forall>d. cd = Some d \<longrightarrow> date_ok ch d \<and> whole_seconds d"
    using cd DateTime_from_thrift_ok
    by (auto simp: optional_date_from_thrift_def result_simps split: option.splits)
  moreover have "\<forall>(p, c) \<in> set (btm_from_list fcs).
      valid_mpath p \<and> (\<forall>fc. c = Some fc \<longrightarrow> file_change_ok fc)"
  proof -
    have "(p, c) \<in> set fcs \<Longrightarrow> valid_mpath p \<and> (\<forall>fc. c = Some fc \<longrightarrow> file_change_ok fc)" for p c
      using collect_ok_mem [OF fcs, of "(p, c)"] file_change_from_thrift_ok [of _ p c] by blast
    then show ?thesis using btm_from_list_subset [of fcs] by auto
  qed
  ultimately show ?thesis
    using fr btm_from_list_ok [of fcs]
    by (simp add: freeze_iff bonsai_mut_ok_def whole_second_dates_def)
qed

lemma file_contents_blob_roundtrip:
  assumes "de (ser (FileContents_into_thrift fc)) = Some (FileContents_into_thrift fc)"
  shows "FileContents_from_blob de (FileContents_into_blob ser blake2 fc) = Inr fc"
  using assms by (simp add: FileContents_from_blob_def FileContents_into_blob_def
      FileContents_into_thrift_def)

section \<open>Properties\<close>

text \<open>C25: \<open>freeze\<close> accepts exactly the changesets that are internally consistent: copy information
  names a parent of the changeset and no changed path is a directory of another changed path. It
  returns the changeset unchanged; a rejection is an \<open>InvalidBonsaiChangeset\<close>, on its own for copy
  information and wrapping the pair of conflicting paths otherwise.\<close>

theorem freeze_correct:
  assumes "btm_ok (file_changes b)"
  shows "(\<forall>c. freeze b = Inr c \<longleftrightarrow> c = BonsaiChangeset b \<and> bonsai_consistent b) \<and>
    (\<forall>e. freeze b = Inl e \<longrightarrow>
      (\<exists>m. e = InvalidBonsaiChangeset m) \<or>
      (\<exists>m p q. e = Context (InvalidBonsaiChangeset m) (NotPathConflictFree p q) \<and>
         prefix (elements p) (elements q)))"
  using freeze_iff [OF assms] freeze_error by blast

theorem freeze_correct_witness:
  "is_ok (freeze \<lparr>parents = [], author = [], author_date = DateTime 0 0 0, committer = None,
     committer_date = None, message = [], extra = [],
     file_changes = [(MPath [MPathElement [97]],
        Some \<lparr>content_id = ContentId (Blake2 []), file_type = Regular, fc_size = 0, copy_from = None\<rparr>)]\<rparr>)"
  using freeze_correct [of "\<lparr>parents = [], author = [], author_date = DateTime 0 0 0, committer = None,
     committer_date = None, message = [], extra = [],
     file_changes = [(MPath [MPathElement [97]],
        Some \<lparr>content_id = ContentId (Blake2 []), file_type = Regular, fc_size = 0, copy_from = None\<rparr>)]\<rparr>"]
  by (simp add: bonsai_consistent_def path_conflict_free_def is_ok_iff)

text \<open>C26: storing a changeset and reading it back gives the same changeset, for a well-formed and
  consistent changeset whose dates have no fraction of a second, and a serializer whose output
  deserializes; and the identifier that \<open>into_blob\<close> computes is the one the bytes alone give, so
  that a blob fetched by its key can be checked against it.\<close>

theorem bonsai_blob_roundtrip:
  assumes "bonsai_mut_ok ch b" and "bonsai_consistent b" and "whole_second_dates b"
    and "de (ser (BonsaiChangeset_into_thrift (BonsaiChangeset b)))
       = Some (BonsaiChangeset_into_thrift (BonsaiChangeset b))"
  shows "BonsaiChangeset_from_blob de ch (BonsaiChangeset_into_blob ser blake2 (BonsaiChangeset b))
       = Inr (BonsaiChangeset b) \<and>
     blob_from_bytes blake2 (blob_data (BonsaiChangeset_into_blob ser blake2 (BonsaiChangeset b)))
       = BonsaiChangeset_into_blob ser blake2 (BonsaiChangeset b)"
  using BonsaiChangeset_thrift_roundtrip [OF assms(1-3)] assms(4)
  by (simp add: BonsaiChangeset_from_blob_def BonsaiChangeset_into_blob_def blob_from_bytes_def Let_def)

theorem bonsai_blob_roundtrip_witness:
  "let b = \<lparr>parents = [], author = [65], author_date = DateTime 5 0 60, committer = None,
     committer_date = None, message = [], extra = [],
     file_changes = [(MPath [MPathElement [97]], None)]\<rparr>;
     t = BonsaiChangeset_into_thrift (BonsaiChangeset b);
     ch = \<lparr>offset_in_range = \<lambda>s. \<bar>s\<bar> < 86400, secs_in_range = \<lambda>s. \<bar>s\<bar> < 2 ^ 32\<rparr>
   in BonsaiChangeset_from_blob (\<lambda>d. if d = [1] then Some t else None) ch
        (BonsaiChangeset_into_blob (\<lambda>_. [1]) (\<lambda>k d. Blake2 d) (BonsaiChangeset b))
      = Inr (BonsaiChangeset b)"
  unfolding Let_def
  by (rule bonsai_blob_roundtrip [THEN conjunct1])
     (simp_all add: bonsai_mut_ok_def bonsai_consistent_def whole_second_dates_def date_ok_def
       whole_seconds_def path_conflict_free_def valid_mpath_def valid_element_def SLASH_def NEWLINE_def)

text \<open>C27: whatever bytes come out of the blobstore, a changeset that \<open>from_blob\<close> accepts is
  well-formed (hashes of the right length, valid paths, dates in range, ordered file changes) and
  internally consistent, so that untrusted data never yields a broken changeset; serializing it
  again and reading that back gives the same changeset.\<close>

theorem bonsai_from_blob_safe:
  assumes "BonsaiChangeset_from_blob de ch blob = Inr c"
  shows "bonsai_mut_ok ch (into_mut c) \<and> bonsai_consistent (into_mut c) \<and>
     freeze (into_mut c) = Inr c \<and>
     BonsaiChangeset_from_thrift ch (BonsaiChangeset_into_thrift c) = Inr c"
proof -
  obtain t where "BonsaiChangeset_from_thrift ch t = Inr c"
    using assms by (auto simp: BonsaiChangeset_from_blob_def split: option.splits)
  note ok = BonsaiChangeset_from_thrift_ok [OF this]
  have "btm_ok (file_changes (into_mut c))" using ok by (simp add: bonsai_mut_ok_def)
  with ok BonsaiChangeset_thrift_roundtrip [of ch "into_mut c"] show ?thesis
    by (simp add: freeze_iff)
qed

theorem bonsai_from_blob_safe_witness:
  "\<exists>c. BonsaiChangeset_from_blob
     (\<lambda>d. Some \<lparr>t_parents = [], t_author = d,
       t_author_date = Some \<lparr>t_timestamp_secs = 7, t_tz_offset_secs = 0\<rparr>, t_committer = None,
       t_committer_date = None, t_message = [], t_extra = [],
       t_file_changes = [([[98]], None), ([[97]], None)]\<rparr>)
     \<lparr>offset_in_range = \<lambda>s. \<bar>s\<bar> < 86400, secs_in_range = \<lambda>s. \<bar>s\<bar> < 2 ^ 32\<rparr>
     \<lparr>blob_id = ChangesetId (Blake2 []), blob_data = [65]\<rparr> = Inr c \<and> freeze (into_mut c) = Inr c"
  (is "\<exists>c. ?r = Inr c \<and> _")
proof -
  have "\<exists>c. ?r = Inr c"
    by (simp add: BonsaiChangeset_from_blob_def BonsaiChangeset_from_thrift_def DateTime_from_thrift_def
       from_timestamp_def optional_date_from_thrift_def file_change_from_thrift_def
       FileChange_from_thrift_opt_def MPath_from_thrift_def MPathElement_from_thrift_def
       MPathElement_verify_def SLASH_def NEWLINE_def freeze_def bonsai_verify_def btm_from_list_def
       less_MPath_def less_MPathElement_def check_pcf_def)
  then show ?thesis using bonsai_from_blob_safe by blast
qed



text \<open>C34: a date survives the Thrift conversion exactly when it has no fraction of a second (the
  Thrift structure has whole seconds only); a non-negative \<open>Timestamp\<close> survives the conversion to
  \<open>DateTime\<close> and back to the nanosecond, and a negative one that is not a whole number of seconds
  panics, because the negative remainder is cast to \<open>u32\<close>.\<close>

theorem datetime_roundtrips:
  "(DateTime_from_thrift ch (DateTime_into_thrift d) = Inr d \<longleftrightarrow> date_ok ch d \<and> whole_seconds d) \<and>
   (0 \<le> n \<longrightarrow> secs_in_range ch (n div 1000000000) \<longrightarrow>
      map_option Timestamp_from_DateTime (DateTime_from_Timestamp ch (Timestamp n)) = Some (Timestamp n)) \<and>
   (n < 0 \<longrightarrow> n mod 1000000000 \<noteq> 0 \<longrightarrow> DateTime_from_Timestamp ch (Timestamp n) = None)"
proof -
  have pos: "map_option Timestamp_from_DateTime (DateTime_from_Timestamp ch (Timestamp n))
      = Some (Timestamp n)" if "0 \<le> n" "secs_in_range ch (n div 1000000000)"
  proof -
    have "n mod 1000000000 mod 2 ^ 32 = n mod 1000000000"
      using pos_mod_bound [of 1000000000 n] pos_mod_sign [of 1000000000 n] by simp
    then show ?thesis
      using that pos_mod_bound [of 1000000000 n]
      by (simp add: DateTime_from_Timestamp_def timestamp_seconds_def quot_trunc_def rem_trunc_def
          Timestamp_from_DateTime_def Let_def)
  qed
  have neg: "DateTime_from_Timestamp ch (Timestamp n) = None" if "n < 0" "n mod 1000000000 \<noteq> 0"
  proof -
    let ?r = "(- n) mod 1000000000"
    have "0 < ?r" "?r < 1000000000" using that(2) by (simp_all add: zmod_zminus1_not_zero le_neq_trans)
    then have "(- ?r) mod 2 ^ 32 = 2 ^ 32 - ?r"
      by (simp add: zmod_zminus1_eq_if)
    moreover have "\<not> 2294967296 < ?r" using \<open>?r < 1000000000\<close> by linarith
    ultimately show ?thesis
      using that by (simp add: DateTime_from_Timestamp_def rem_trunc_def Let_def)
  qed
  show ?thesis using DateTime_thrift_roundtrip pos neg by blast
qed

theorem datetime_roundtrips_witness:
  "DateTime_from_Timestamp \<lparr>offset_in_range = \<lambda>_. True, secs_in_range = \<lambda>_. True\<rparr> (Timestamp (- 1)) = None"
  using datetime_roundtrips [of "\<lparr>offset_in_range = \<lambda>_. True, secs_in_range = \<lambda>_. True\<rparr>" _ "- 1"]
  by simp

end
