(* ===== verification/Delta.thy ===== *)
theory Delta
  imports Mononoke_Prelude
begin

text \<open>
  Revlog deltas: \<open>src/mercurial_types/src/delta.rs\<close> and \<open>delta_apply.rs\<close>.

  A delta replaces byte ranges of a text. \<open>apply\<close> applies one delta; \<open>apply_chain\<close> folds a chain
  of deltas into one, by the algorithm of Mercurial's \<open>mpatch.c\<close>, and applies that. Fragments
  keep \<open>usize\<close> positions (\<open>nat\<close>); the wrapped fragments of the folding are \<open>i32\<close>, kept as \<open>int\<close>
  with the wrap-around \<open>i32\<close> written out after every operation. A panic (a slice out of range,
  a failed assertion) is \<open>None\<close>.
\<close>

section \<open>Deltas\<close>

datatype delta_error =
    InvalidFragmentList string
  | DeltaMsg string
  | DeltaContext delta_error delta_error

record Fragment =
  frag_start :: nat
  frag_end :: nat
  frag_content :: bytes

datatype Delta = Delta (fragments: "Fragment list")

definition post_end :: "Fragment \<Rightarrow> nat" where
  "post_end f = frag_start f + length (frag_content f)"

definition content_length :: "Fragment \<Rightarrow> nat" where
  "content_length f = length (frag_content f)"

definition length_change :: "Fragment \<Rightarrow> int" where
  "length_change f = int (length (frag_content f)) - int (frag_end f - frag_start f)"

definition contains_offset :: "Fragment \<Rightarrow> nat \<Rightarrow> bool" where
  "contains_offset f off \<longleftrightarrow> frag_start f \<le> off \<and> off < post_end f"

definition Fragment_verify :: "Fragment \<Rightarrow> delta_error + unit" where
  "Fragment_verify f =
     (if frag_start f > frag_end f then Inl (DeltaMsg ''invalid fragment: start {} > end {}'')
      else Inr ())"

fun Delta_verify_from :: "Fragment option \<Rightarrow> Fragment list \<Rightarrow> delta_error + unit" where
  "Delta_verify_from prev_frag [] = Inr ()"
| "Delta_verify_from prev_frag (frag # rest) =
     and_then (map_err (DeltaContext (InvalidFragmentList ''invalid fragment {}'')) (Fragment_verify frag))
       (\<lambda>_. case prev_frag of
          Some prev \<Rightarrow>
            if frag_start frag < frag_end prev
            then Inl (InvalidFragmentList ''previous end overlaps with start'')
            else Delta_verify_from (Some frag) rest
        | None \<Rightarrow> Delta_verify_from (Some frag) rest)"

definition Delta_verify :: "Fragment list \<Rightarrow> delta_error + unit" where
  "Delta_verify frags = Delta_verify_from None frags"

definition Delta_new :: "Fragment list \<Rightarrow> delta_error + Delta" where
  "Delta_new frags = and_then (Delta_verify frags) (\<lambda>_. Inr (Delta frags))"

definition new_fulltext :: "bytes \<Rightarrow> Delta" where
  "new_fulltext text = Delta [\<lparr>frag_start = 0, frag_end = 0, frag_content = text\<rparr>]"

definition Delta_push :: "Delta \<Rightarrow> Fragment \<Rightarrow> Delta" where
  "Delta_push d f = Delta (fragments d @ [f])"

definition maybe_fulltext :: "Delta \<Rightarrow> bytes option" where
  "maybe_fulltext d =
     (case fragments d of
        [f] \<Rightarrow> if frag_start f = 0 \<and> frag_end f = 0 then Some (frag_content f) else None
      | _ \<Rightarrow> None)"

text \<open>The loop of \<open>apply\<close>; \<open>off\<close> is the position reached in the text, \<open>chunks\<close> the output.\<close>

fun apply_from :: "bytes \<Rightarrow> nat \<Rightarrow> bytes list \<Rightarrow> Fragment list \<Rightarrow> delta_error + (nat \<times> bytes list)" where
  "apply_from text off chunks [] = Inr (off, chunks)"
| "apply_from text off chunks (frag # rest) =
     (if \<not> off \<le> frag_start frag
      then Inl (DeltaMsg ''Invalid delta, fragment start is less than current offset'')
      else
        and_then
          (if off < frag_start frag
           then (if frag_start frag \<le> length text
                 then Inr (chunks @ [take (frag_start frag - off) (drop off text)])
                 else Inl (DeltaMsg ''Invalid delta, the range is out of bounds for provided text''))
           else Inr chunks)
          (\<lambda>chunks.
             apply_from text (frag_end frag)
               (if length (frag_content frag) > 0 then chunks @ [frag_content frag] else chunks) rest))"

definition delta_apply :: "bytes \<Rightarrow> Delta \<Rightarrow> delta_error + bytes" where
  "delta_apply text delta =
     and_then (apply_from text 0 [] (fragments delta)) (\<lambda>(off, chunks).
       if off < length text then Inr (concat (chunks @ [drop off text]))
       else if off > length text
       then Inl (DeltaMsg ''Invalid delta, fragment is referencing out of bounds content'')
       else Inr (concat chunks))"

section \<open>Folding chains of deltas\<close>

definition i32 :: "int \<Rightarrow> int" where
  "i32 x = signed_take_bit 31 x"

definition as_usize :: "int \<Rightarrow> nat" where
  "as_usize x = nat (x mod 2 ^ 64)"

record FragmentWrapper =
  fw_start :: int
  fw_end :: int
  fw_len :: int
  content_start :: int

record FragmentWrapperIterator =
  frags :: "FragmentWrapper list"
  cur_pointer :: nat

fun wrap_fragments :: "int \<Rightarrow> Fragment list \<Rightarrow> FragmentWrapper list" where
  "wrap_fragments offset [] = []"
| "wrap_fragments offset (frag # rest) =
     \<lparr>fw_start = i32 (int (frag_start frag)), fw_end = i32 (int (frag_end frag)),
      fw_len = i32 (int (content_length frag)), content_start = offset\<rparr>
     # wrap_fragments (i32 (offset + i32 (int (content_length frag)))) rest"

definition iterator_new :: "Delta \<Rightarrow> int \<Rightarrow> FragmentWrapperIterator" where
  "iterator_new delta content_offset =
     \<lparr>frags = wrap_fragments content_offset (fragments delta), cur_pointer = 0\<rparr>"

fun wrap_deltas_from ::
    "FragmentWrapperIterator list \<Rightarrow> bytes \<Rightarrow> nat \<Rightarrow> Delta list \<Rightarrow> FragmentWrapperIterator list \<times> bytes" where
  "wrap_deltas_from wrapped dat content_offset [] = (wrapped, dat)"
| "wrap_deltas_from wrapped dat content_offset (delta # rest) =
     wrap_deltas_from (wrapped @ [iterator_new delta (i32 (int content_offset))])
       (dat @ concat (map frag_content (fragments delta)))
       (content_offset + sum_list (map content_length (fragments delta))) rest"

definition wrap_deltas :: "Delta list \<Rightarrow> FragmentWrapperIterator list \<times> bytes" where
  "wrap_deltas deltas = wrap_deltas_from [] [] 0 deltas"

definition iterator_end :: "FragmentWrapperIterator \<Rightarrow> bool" where
  "iterator_end it \<longleftrightarrow> cur_pointer it = length (frags it)"

definition current_fragment :: "FragmentWrapperIterator \<Rightarrow> FragmentWrapper" where
  "current_fragment it = frags it ! cur_pointer it"

definition go_next :: "FragmentWrapperIterator \<Rightarrow> FragmentWrapperIterator" where
  "go_next it = it\<lparr>cur_pointer := cur_pointer it + 1\<rparr>"

definition set_start :: "FragmentWrapperIterator \<Rightarrow> FragmentWrapperIterator" where
  "set_start it = it\<lparr>cur_pointer := 0\<rparr>"

definition iterator_push :: "FragmentWrapperIterator \<Rightarrow> FragmentWrapper \<Rightarrow> FragmentWrapperIterator" where
  "iterator_push it f = it\<lparr>frags := frags it @ [f]\<rparr>"

definition set_current :: "FragmentWrapperIterator \<Rightarrow> FragmentWrapper \<Rightarrow> FragmentWrapperIterator" where
  "set_current it f = it\<lparr>frags := (frags it)[cur_pointer it := f]\<rparr>"

definition iterator_content_length :: "FragmentWrapperIterator \<Rightarrow> int" where
  "iterator_content_length it = fold (\<lambda>f size. i32 (size + fw_len f)) (frags it) 0"

text \<open>The loops run while the cursor is not at the end; it starts at 0 and moves by one, so that
  \<open>cur_pointer = len\<close> and \<open>cur_pointer \<ge> len\<close> are the same test.\<close>

function gather ::
    "FragmentWrapperIterator \<Rightarrow> FragmentWrapperIterator \<Rightarrow> int \<Rightarrow> int
      \<Rightarrow> FragmentWrapperIterator \<times> FragmentWrapperIterator \<times> int" where
  "gather dst src cut_at offset =
     (if cur_pointer src \<ge> length (frags src) then (dst, src, offset)
      else
        let frag = current_fragment src in
        if i32 (fw_start frag + offset) \<ge> cut_at then (dst, src, offset)
        else
          let postend = i32 (i32 (offset + fw_start frag) + fw_len frag) in
          if postend \<le> cut_at then
            gather (iterator_push dst frag) (go_next src) cut_at
              (i32 (offset + i32 (i32 (fw_start frag + fw_len frag) - fw_end frag)))
          else
            let new_start = min (i32 (cut_at - offset)) (fw_end frag);
                prev_len = min (i32 (i32 (cut_at - offset) - fw_start frag)) (fw_len frag);
                offset' = i32 (offset + i32 (i32 (fw_start frag + prev_len) - new_start));
                new_content_start = i32 (content_start frag + prev_len)
            in (iterator_push dst
                  \<lparr>fw_start = fw_start frag, fw_end = new_start, fw_len = prev_len,
                   content_start = content_start frag\<rparr>,
                set_current src
                  \<lparr>fw_start = new_start, fw_end = fw_end frag, fw_len = i32 (fw_len frag - prev_len),
                   content_start = new_content_start\<rparr>,
                offset'))"
  by pat_completeness auto
termination
  by (relation "measure (\<lambda>(dst, src, cut_at, offset). length (frags src) - cur_pointer src)")
     (auto simp: go_next_def)

function discard ::
    "FragmentWrapperIterator \<Rightarrow> int \<Rightarrow> int \<Rightarrow> FragmentWrapperIterator \<times> int" where
  "discard src cut_at offset =
     (if cur_pointer src \<ge> length (frags src) then (src, offset)
      else
        let frag = current_fragment src in
        if i32 (fw_start frag + offset) \<ge> cut_at then (src, offset)
        else
          let postend = i32 (i32 (offset + fw_start frag) + fw_len frag) in
          if postend \<le> cut_at then
            discard (go_next src) cut_at
              (i32 (offset + i32 (i32 (fw_start frag + fw_len frag) - fw_end frag)))
          else
            let new_start = min (i32 (cut_at - offset)) (fw_end frag);
                prev_len = min (i32 (i32 (cut_at - offset) - fw_start frag)) (fw_len frag);
                offset' = i32 (offset + i32 (i32 (fw_start frag + prev_len) - new_start));
                new_content_start = i32 (content_start frag + prev_len)
            in (set_current src
                  \<lparr>fw_start = new_start, fw_end = fw_end frag, fw_len = i32 (fw_len frag - prev_len),
                   content_start = new_content_start\<rparr>,
                offset'))"
  by pat_completeness auto
termination
  by (relation "measure (\<lambda>(src, cut_at, offset). length (frags src) - cur_pointer src)")
     (auto simp: go_next_def)

declare gather.simps [simp del] discard.simps [simp del]

fun combine_loop ::
    "FragmentWrapperIterator \<Rightarrow> FragmentWrapperIterator \<Rightarrow> int \<Rightarrow> FragmentWrapper list
      \<Rightarrow> FragmentWrapperIterator \<times> FragmentWrapperIterator" where
  "combine_loop combined a offset [] = (combined, a)"
| "combine_loop combined a offset (b_frag # rest) =
     (let (combined, a, offset) = gather combined a (fw_start b_frag) offset;
          (a, post) = discard a (fw_end b_frag) offset;
          frag = \<lparr>fw_start = i32 (fw_start b_frag - offset), fw_end = i32 (fw_end b_frag - post),
                  fw_len = fw_len b_frag, content_start = content_start b_frag\<rparr>
      in combine_loop (iterator_push combined frag) a post rest)"

text \<open>\<open>push_tail\<close> is the loop that copies what is left of \<open>a\<close>.\<close>

function push_tail :: "FragmentWrapperIterator \<Rightarrow> FragmentWrapperIterator \<Rightarrow> FragmentWrapperIterator" where
  "push_tail combined a =
     (if cur_pointer a \<ge> length (frags a) then combined
      else push_tail (iterator_push combined (current_fragment a)) (go_next a))"
  by pat_completeness auto
termination
  by (relation "measure (\<lambda>(combined, a). length (frags a) - cur_pointer a)") (auto simp: go_next_def)

declare push_tail.simps [simp del]

definition combine ::
    "FragmentWrapperIterator \<Rightarrow> FragmentWrapperIterator \<Rightarrow> FragmentWrapperIterator" where
  "combine a b =
     (let (combined, a) = combine_loop \<lparr>frags = [], cur_pointer = 0\<rparr> (set_start a) 0 (frags b)
      in push_tail combined a)"

function mpatch_fold ::
    "FragmentWrapperIterator list \<Rightarrow> nat \<Rightarrow> nat \<Rightarrow> FragmentWrapperIterator option" where
  "mpatch_fold deltas start end' =
     (if \<not> start < end' then None
      else if start + 1 = end' then (if start < length deltas then Some (deltas ! start) else None)
      else
        let half_deltas_cnt = (end' - start) div 2 in
        (case mpatch_fold deltas start (start + half_deltas_cnt) of
           None \<Rightarrow> None
         | Some a \<Rightarrow>
             (case mpatch_fold deltas (start + half_deltas_cnt) end' of
                None \<Rightarrow> None
              | Some b \<Rightarrow> Some (combine a b))))"
  by pat_completeness auto
termination
  by (relation "measure (\<lambda>(deltas, start, end'). end' - start)") auto

declare mpatch_fold.simps [simp del]

fun slices :: "bytes \<Rightarrow> FragmentWrapper list \<Rightarrow> Fragment list option" where
  "slices dat [] = Some []"
| "slices dat (fw # rest) =
     (let cs = as_usize (content_start fw);
          ce = as_usize (i32 (content_start fw + fw_len fw))
      in if cs \<le> ce \<and> ce \<le> length dat
         then map_option ((#) \<lparr>frag_start = as_usize (fw_start fw), frag_end = as_usize (fw_end fw),
                frag_content = take (ce - cs) (drop cs dat)\<rparr>) (slices dat rest)
         else None)"

definition into_delta :: "FragmentWrapperIterator \<Rightarrow> bytes \<Rightarrow> (delta_error + Delta) option" where
  "into_delta it dat = map_option Delta_new (slices dat (frags it))"

definition apply_chain :: "bytes \<Rightarrow> Delta list \<Rightarrow> (delta_error + bytes) option" where
  "apply_chain text deltas =
     (let (wrapped_deltas, dat) = wrap_deltas deltas in
      if length wrapped_deltas = 0 then Some (Inr text)
      else
        (case mpatch_fold wrapped_deltas 0 (length wrapped_deltas) of
           None \<Rightarrow> None
         | Some folded_wrapped_delta \<Rightarrow>
             map_option (\<lambda>r. and_then r (delta_apply text)) (into_delta folded_wrapped_delta dat)))"

section \<open>What a list of wrapped fragments denotes\<close>

text \<open>\<open>seg t p q\<close> is the slice of \<open>t\<close> from \<open>p\<close> to \<open>q\<close>; \<open>emit D t p fs q\<close> is the text that the fragments
  \<open>fs\<close>, with their contents in \<open>D\<close>, make of that slice.\<close>

definition seg :: "bytes \<Rightarrow> int \<Rightarrow> int \<Rightarrow> bytes" where
  "seg t p q = take (nat (q - p)) (drop (nat p) t)"

definition fw_content :: "bytes \<Rightarrow> FragmentWrapper \<Rightarrow> bytes" where
  "fw_content D f = seg D (content_start f) (content_start f + fw_len f)"

fun emit :: "bytes \<Rightarrow> bytes \<Rightarrow> int \<Rightarrow> FragmentWrapper list \<Rightarrow> int \<Rightarrow> bytes" where
  "emit D t p [] q = seg t p q"
| "emit D t p (f # fs) q = seg t p (fw_start f) @ fw_content D f @ emit D t (fw_end f) fs q"

fun wf_frags :: "bytes \<Rightarrow> int \<Rightarrow> FragmentWrapper list \<Rightarrow> int \<Rightarrow> bool" where
  "wf_frags D p [] q \<longleftrightarrow> p \<le> q"
| "wf_frags D p (f # fs) q \<longleftrightarrow> p \<le> fw_start f \<and> fw_start f \<le> fw_end f \<and> 0 \<le> fw_len f \<and>
     0 \<le> content_start f \<and> content_start f + fw_len f \<le> int (length D) \<and> wf_frags D (fw_end f) fs q"

lemma seg_length: "0 \<le> p \<Longrightarrow> p \<le> q \<Longrightarrow> q \<le> int (length t) \<Longrightarrow> int (length (seg t p q)) = q - p"
  by (simp add: seg_def)

lemma seg_append:
  assumes "0 \<le> p" "p \<le> q" "q \<le> r"
  shows "seg t p q @ seg t q r = seg t p r"
proof -
  have "nat (r - p) = nat (q - p) + nat (r - q)" "nat q = nat (q - p) + nat p" using assms by auto
  then show ?thesis by (simp add: seg_def take_add)
qed

lemma seg_take: "0 \<le> n \<Longrightarrow> n \<le> q - p \<Longrightarrow> take (nat n) (seg t p q) = seg t p (p + n)"
  by (simp add: seg_def min_def nat_le_iff)

lemma seg_drop: "0 \<le> p \<Longrightarrow> 0 \<le> n \<Longrightarrow> drop (nat n) (seg t p q) = seg t (p + n) q"
proof -
  assume "0 \<le> p" "0 \<le> n"
  then have "nat (q - p) - nat n = nat (q - (p + n))" "nat n + nat p = nat (p + n)" by linarith+
  then show ?thesis by (simp add: seg_def drop_take)
qed

lemma seg_full: "seg t 0 (int (length t)) = t"
  by (simp add: seg_def)

lemma seg_same [simp]: "seg t p p = []"
  by (simp add: seg_def)

lemma wf_frags_le: "wf_frags D p fs q \<Longrightarrow> p \<le> q"
  by (induction fs arbitrary: p) force+

lemma wf_frags_appendI:
  "wf_frags D p fs m \<Longrightarrow> wf_frags D m gs q \<Longrightarrow> wf_frags D p (fs @ gs) q"
proof (induction fs arbitrary: p)
  case Nil
  then show ?case by (cases gs) auto
qed simp

lemma emit_append:
  assumes "wf_frags D p fs m" "wf_frags D m gs q" "0 \<le> p"
  shows "emit D t p (fs @ gs) q = emit D t p fs m @ emit D t m gs q"
  using assms
proof (induction fs arbitrary: p)
  case Nil
  then show ?case by (cases gs) (simp_all add: seg_append)
qed simp

lemma fw_content_length:
  assumes "wf_frags D p (f # fs) q"
  shows "int (length (fw_content D f)) = fw_len f"
  using assms by (simp add: fw_content_def seg_length)

lemma emit_length_Cons:
  assumes "wf_frags D p (f # fs) q" "0 \<le> p" "q \<le> int (length t)"
  shows "int (length (emit D t p (f # fs) q)) =
     (fw_start f - p) + fw_len f + int (length (emit D t (fw_end f) fs q))"
  using assms fw_content_length [OF assms(1)] wf_frags_le [of D "fw_end f" fs q]
  by (simp add: seg_length)

section \<open>The cut of a fragment list\<close>

text \<open>\<open>cut_frags\<close> is what both \<open>gather\<close> and \<open>discard\<close> compute, on unbounded integers: the fragments
  that end before the cut, the fragments that are left, and the new offset.\<close>

fun cut_frags ::
    "int \<Rightarrow> int \<Rightarrow> FragmentWrapper list \<Rightarrow> FragmentWrapper list \<times> FragmentWrapper list \<times> int" where
  "cut_frags c off [] = ([], [], off)"
| "cut_frags c off (f # fs) =
     (if fw_start f + off \<ge> c then ([], f # fs, off)
      else if off + fw_start f + fw_len f \<le> c then
        (let (g, r, off') = cut_frags c (off + (fw_start f + fw_len f - fw_end f)) fs
         in (f # g, r, off'))
      else
        (let n = min (c - off) (fw_end f); k = c - off - fw_start f in
         ([\<lparr>fw_start = fw_start f, fw_end = n, fw_len = k, content_start = content_start f\<rparr>],
          \<lparr>fw_start = n, fw_end = fw_end f, fw_len = fw_len f - k,
           content_start = content_start f + k\<rparr> # fs,
          c - n)))"

lemma i32_id: "- (2 ^ 31) \<le> x \<Longrightarrow> x < 2 ^ 31 \<Longrightarrow> i32 x = x"
  by (simp add: i32_def signed_take_bit_int_eq_self)

text \<open>The cut splits the text that the fragments make.\<close>

lemma cut_frags_correct:
  assumes "cut_frags c off fs = (g, r, off')" and "wf_frags D p fs N" and "N = int (length t)"
    and "0 \<le> p" and "p + off \<le> c" and "c - (p + off) \<le> int (length (emit D t p fs N))"
  shows "wf_frags D p g (c - off') \<and> wf_frags D (c - off') r N \<and>
     emit D t p g (c - off') = take (nat (c - (p + off))) (emit D t p fs N) \<and>
     emit D t (c - off') r N = drop (nat (c - (p + off))) (emit D t p fs N)"
  using assms
proof (induction fs arbitrary: p off g r off')
  case Nil
  then show ?case
    by (simp add: seg_length seg_take seg_drop)
next
  case (Cons f fs)
  note wf = Cons.prems(2) and p = Cons.prems(4)
  have len: "int (length (emit D t p (f # fs) N)) =
      (fw_start f - p) + fw_len f + int (length (emit D t (fw_end f) fs N))"
    using emit_length_Cons [OF wf p] Cons.prems(3) by simp
  consider (before) "fw_start f + off \<ge> c"
    | (inside) "fw_start f + off < c" "off + fw_start f + fw_len f \<le> c"
    | (straddle) "fw_start f + off < c" "off + fw_start f + fw_len f > c" by linarith
  then show ?case
  proof cases
    case before
    then have res: "g = []" "r = f # fs" "off' = off" using Cons.prems(1) by auto
    have "nat (c - (p + off)) \<le> length (seg t p (fw_start f))"
      using before seg_length [of p "fw_start f" t] wf p Cons.prems(3) wf_frags_le [of D "fw_end f" fs N]
      by auto
    moreover have "c - (p + off) \<le> fw_start f - p" "p + (c - (p + off)) = c - off" using before by auto
    ultimately show ?thesis
      using before wf p Cons.prems(5) seg_take [of "c - (p + off)" "fw_start f" p t]
        seg_drop [of p "c - (p + off)" t "fw_start f"]
      by (simp add: res)
  next
    case inside
    let ?off = "off + (fw_start f + fw_len f - fw_end f)"
    obtain g' where g: "g = f # g'" "cut_frags c ?off fs = (g', r, off')"
      using Cons.prems(1) inside by (auto split: prod.splits)
    have pre: "wf_frags D (fw_end f) fs N" "0 \<le> fw_end f" "fw_end f + ?off \<le> c"
        "c - (fw_end f + ?off) \<le> int (length (emit D t (fw_end f) fs N))"
      using wf p inside Cons.prems(6) len by auto
    have ih: "wf_frags D (fw_end f) g' (c - off') \<and> wf_frags D (c - off') r N \<and>
       emit D t (fw_end f) g' (c - off') = take (nat (c - (fw_end f + ?off))) (emit D t (fw_end f) fs N) \<and>
       emit D t (c - off') r N = drop (nat (c - (fw_end f + ?off))) (emit D t (fw_end f) fs N)"
      by (rule Cons.IH [OF g(2) pre(1) Cons.prems(3) pre(2-4)])
    define A where "A = seg t p (fw_start f) @ fw_content D f"
    have A: "int (length A) = fw_start f - p + fw_len f"
      using fw_content_length [OF wf] seg_length [of p "fw_start f" t] wf p Cons.prems(3)
        wf_frags_le [of D "fw_end f" fs N] by (simp add: A_def)
    have n: "nat (c - (p + off)) - length A = nat (c - (fw_end f + ?off))"
        "length A \<le> nat (c - (p + off))"
      using A inside by auto
    have E: "emit D t p (f # fs) N = A @ emit D t (fw_end f) fs N"
        "emit D t p g (c - off') = A @ emit D t (fw_end f) g' (c - off')"
      by (simp_all add: A_def g)
    have "wf_frags D p g (c - off')" using ih wf by (simp add: g)
    then show ?thesis unfolding E using ih n by simp
  next
    case straddle
    let ?n = "min (c - off) (fw_end f)" and ?k = "c - off - fw_start f"
    have res: "g = [\<lparr>fw_start = fw_start f, fw_end = ?n, fw_len = ?k, content_start = content_start f\<rparr>]"
        "r = \<lparr>fw_start = ?n, fw_end = fw_end f, fw_len = fw_len f - ?k,
              content_start = content_start f + ?k\<rparr> # fs" "c - off' = ?n"
      using Cons.prems(1) straddle by (auto simp: Let_def)
    have k: "0 \<le> ?k" "?k \<le> fw_len f" "fw_start f \<le> ?n" using straddle wf by auto
    define A where "A = seg t p (fw_start f)"
    have A: "int (length A) = fw_start f - p"
      using seg_length [of p "fw_start f" t] wf p Cons.prems(3) wf_frags_le [of D "fw_end f" fs N]
      by (simp add: A_def)
    have C: "take (nat ?k) (fw_content D f) = seg D (content_start f) (content_start f + ?k)"
        "drop (nat ?k) (fw_content D f) = seg D (content_start f + ?k) (content_start f + fw_len f)"
      using seg_take [OF k(1), of "content_start f + fw_len f" "content_start f" D]
        seg_drop [OF _ k(1), of "content_start f" D "content_start f + fw_len f"] k wf
      by (simp_all add: fw_content_def)
    have n: "nat (c - (p + off)) - length A = nat ?k" "length A \<le> nat (c - (p + off))"
        "nat ?k \<le> length (fw_content D f)"
      using A k fw_content_length [OF wf] Cons.prems(5) wf by auto
    have "emit D t p (f # fs) N = A @ fw_content D f @ emit D t (fw_end f) fs N" by (simp add: A_def)
    moreover have "emit D t p g ?n = A @ take (nat ?k) (fw_content D f)"
      by (simp add: A_def res C) (simp add: fw_content_def)
    moreover have "emit D t ?n r N = drop (nat ?k) (fw_content D f) @ emit D t (fw_end f) fs N"
      by (simp add: res C) (simp add: fw_content_def)
    moreover have "wf_frags D p g ?n" "wf_frags D ?n r N" using wf k by (auto simp: res)
    ultimately show ?thesis using n by (simp add: res(3))
  qed
qed

section \<open>The loops compute the cut\<close>

text \<open>While the texts are shorter than \<open>2 ^ 30\<close> bytes no \<open>i32\<close> operation wraps, and the loops over
  the cursor compute \<open>cut_frags\<close> of the fragments from the cursor on.\<close>

abbreviation rest_frags :: "FragmentWrapperIterator \<Rightarrow> FragmentWrapper list" where
  "rest_frags it \<equiv> drop (cur_pointer it) (frags it)"

definition small :: "bytes \<Rightarrow> bytes \<Rightarrow> int \<Rightarrow> int \<Rightarrow> FragmentWrapper list \<Rightarrow> bool" where
  "small D t p off fs \<longleftrightarrow> int (length t) < 2 ^ 30 \<and> int (length D) < 2 ^ 31 \<and> 0 \<le> p \<and> 0 \<le> p + off \<and>
     p + off + int (length (emit D t p fs (int (length t)))) < 2 ^ 30"

lemma rest_frags_Cons:
  assumes "rest_frags it = f # fs"
  shows "cur_pointer it < length (frags it)" "current_fragment it = f" "rest_frags (go_next it) = fs"
    "rest_frags (set_current it g) = g # fs"
proof -
  show lt: "cur_pointer it < length (frags it)" using assms by (metis drop_all linorder_not_le list.distinct(1))
  show "current_fragment it = f" using assms lt by (metis current_fragment_def hd_drop_conv_nth list.sel(1))
  show "rest_frags (go_next it) = fs" using assms by (simp add: go_next_def) (metis drop_Suc list.sel(3) tl_drop)
  show "rest_frags (set_current it g) = g # fs"
    using assms lt by (simp add: set_current_def drop_update_swap)
qed

lemma small_Cons:
  assumes "small D t p off (f # fs)" "wf_frags D p (f # fs) (int (length t))"
  shows "small D t (fw_end f) (off + (fw_start f + fw_len f - fw_end f)) fs"
    and "off + fw_start f + fw_len f < 2 ^ 30" "fw_end f < 2 ^ 30" "fw_len f < 2 ^ 30"
      "content_start f + fw_len f < 2 ^ 31" "off < 2 ^ 30" "- (2 ^ 30) < off"
      "0 \<le> fw_start f" "0 \<le> fw_start f + off"
proof -
  have l: "int (length (emit D t p (f # fs) (int (length t)))) =
      (fw_start f - p) + fw_len f + int (length (emit D t (fw_end f) fs (int (length t))))"
    using emit_length_Cons [OF assms(2)] assms(1) by (simp add: small_def)
  have e: "fw_end f \<le> int (length t)" using assms(2) wf_frags_le [of D "fw_end f" fs] by simp
  show "small D t (fw_end f) (off + (fw_start f + fw_len f - fw_end f)) fs"
    using assms l by (simp add: small_def)
  show "off + fw_start f + fw_len f < 2 ^ 30" "fw_end f < 2 ^ 30" "fw_len f < 2 ^ 30"
      "content_start f + fw_len f < 2 ^ 31" "off < 2 ^ 30" "- (2 ^ 30) < off"
      "0 \<le> fw_start f" "0 \<le> fw_start f + off"
    using assms l e by (simp_all add: small_def)
qed

lemma no_wrap:
  assumes "small D t p off (f # fs)" "wf_frags D p (f # fs) (int (length t))" "0 \<le> c" "c < 2 ^ 30"
  shows "i32 (fw_start f + off) = fw_start f + off" "i32 (off + fw_start f) = off + fw_start f"
    "i32 (off + fw_start f + fw_len f) = off + fw_start f + fw_len f"
    "i32 (fw_start f + fw_len f) = fw_start f + fw_len f"
    "i32 (fw_start f + fw_len f - fw_end f) = fw_start f + fw_len f - fw_end f"
    "i32 (off + (fw_start f + fw_len f - fw_end f)) = off + (fw_start f + fw_len f - fw_end f)"
    "i32 (c - off) = c - off"
    "fw_start f + off < c \<Longrightarrow> i32 (c - off - fw_start f) = c - off - fw_start f"
  using small_Cons [OF assms(1,2)] assms(2-) by (simp_all add: i32_id)

lemma no_wrap_straddle:
  assumes "small D t p off (f # fs)" "wf_frags D p (f # fs) (int (length t))" "0 \<le> c" "c < 2 ^ 30"
    and "fw_start f + off < c" "c < off + fw_start f + fw_len f"
  defines "n \<equiv> min (c - off) (fw_end f)" and "k \<equiv> c - off - fw_start f"
  shows "min k (fw_len f) = k" "i32 (off + i32 (i32 (fw_start f + k) - n)) = c - n"
    "i32 (content_start f + k) = content_start f + k" "i32 (fw_len f - k) = fw_len f - k"
proof -
  note b = small_Cons [OF assms(1,2)]
  have k: "0 < k" "k < fw_len f" "fw_start f + k = c - off" using assms(5,6) by (simp_all add: k_def)
  have n: "fw_start f \<le> n" "n \<le> c - off" "n < 2 ^ 30" using assms(2,5) b by (auto simp: n_def)
  have "i32 (fw_start f + k) = c - off" "i32 (c - off - n) = c - off - n" "i32 (c - n) = c - n"
    using k n b assms(3,4) by (simp_all add: i32_id)
  moreover have "off + (c - off - n) = c - n" by simp
  ultimately show "i32 (off + i32 (i32 (fw_start f + k) - n)) = c - n" by metis
  show "min k (fw_len f) = k" "i32 (content_start f + k) = content_start f + k"
      "i32 (fw_len f - k) = fw_len f - k"
    using k b assms(2) by (simp_all add: i32_id)
qed

lemma gather_discard_cut:
  assumes "cut_frags c off (rest_frags src) = (g, r, off')"
    and "wf_frags D p (rest_frags src) (int (length t))" and "small D t p off (rest_frags src)"
    and "0 \<le> c" and "c < 2 ^ 30" and "cur_pointer src \<le> length (frags src)"
  shows "\<exists>src'. gather dst src c off = (dst\<lparr>frags := frags dst @ g\<rparr>, src', off') \<and>
     discard src c off = (src', off') \<and> rest_frags src' = r \<and> cur_pointer src' \<le> length (frags src')"
  using assms
proof (induction "rest_frags src" arbitrary: src dst off p g)
  case Nil
  then have "cur_pointer src \<ge> length (frags src)" by simp
  with Nil show ?case by (subst gather.simps, subst discard.simps) simp
next
  case (Cons f fs)
  note rf = rest_frags_Cons [OF Cons.hyps(2) [symmetric]]
  have wf: "wf_frags D p (f # fs) (int (length t))" and sm: "small D t p off (f # fs)"
    and cut: "cut_frags c off (f # fs) = (g, r, off')"
    using Cons.prems(1-3) Cons.hyps(2) by simp_all
  note nw = no_wrap [OF sm wf Cons.prems(4,5)]
  consider (before) "fw_start f + off \<ge> c"
    | (inside) "fw_start f + off < c" "off + fw_start f + fw_len f \<le> c"
    | (straddle) "fw_start f + off < c" "c < off + fw_start f + fw_len f" by linarith
  then show ?case
  proof cases
    case before
    then have "g = []" "r = f # fs" "off' = off" using cut by auto
    then show ?thesis
      using before rf(1,2) Cons.hyps(2) [symmetric] nw(1)
      by (subst gather.simps, subst discard.simps) (simp add: Let_def)
  next
    case inside
    let ?off = "off + (fw_start f + fw_len f - fw_end f)"
    obtain g' where g: "g = f # g'" "cut_frags c ?off fs = (g', r, off')"
      using cut inside by (auto split: prod.splits)
    have "\<exists>src'. gather (iterator_push dst f) (go_next src) c ?off
          = ((iterator_push dst f)\<lparr>frags := frags (iterator_push dst f) @ g'\<rparr>, src', off') \<and>
        discard (go_next src) c ?off = (src', off') \<and> rest_frags src' = r \<and>
        cur_pointer src' \<le> length (frags src')"
      using rf g wf small_Cons(1) [OF sm wf] Cons.prems(4,5)
      by (intro Cons.hyps(1)) (auto simp: go_next_def)
    then show ?thesis
      using rf inside nw
      by (subst gather.simps, subst discard.simps) (simp add: Let_def g(1) iterator_push_def)
  next
    case straddle
    note ns = no_wrap_straddle [OF sm wf Cons.prems(4,5) straddle]
    let ?n = "min (c - off) (fw_end f)" and ?k = "c - off - fw_start f"
    have res: "g = [\<lparr>fw_start = fw_start f, fw_end = ?n, fw_len = ?k, content_start = content_start f\<rparr>]"
        "r = \<lparr>fw_start = ?n, fw_end = fw_end f, fw_len = fw_len f - ?k,
              content_start = content_start f + ?k\<rparr> # fs" "off' = c - ?n"
      using cut straddle by (auto simp: Let_def)
    have "\<not> c \<le> fw_start f + off" "\<not> off + fw_start f + fw_len f \<le> c" using straddle by auto
    then show ?thesis
      unfolding res using rf(1,2) rf(4) [of "hd r"] nw(1-3,7) nw(8) [OF straddle(1)] ns
      by (subst gather.simps, subst discard.simps)
         (simp add: Let_def iterator_push_def res(2) set_current_def)
  qed
qed

section \<open>Combining two deltas\<close>

text \<open>One cut, with the texts instead of the fragments: from position \<open>p\<close> of \<open>t\<close>, which is position
  \<open>q\<close> of the intermediate text \<open>s\<close>, to position \<open>c\<close> of \<open>s\<close>.\<close>

lemma cut_step:
  assumes "wf_frags D p (rest_frags a) (int (length t))" "cur_pointer a \<le> length (frags a)"
    and "emit D t p (rest_frags a) (int (length t)) = drop (nat q) s" and "0 \<le> p" "0 \<le> q" "q \<le> c"
    and "c \<le> int (length s)" "int (length t) < 2 ^ 30" "int (length s) < 2 ^ 30" "int (length D) < 2 ^ 31"
  obtains g a' off where
    "\<forall>dst. gather dst a c (q - p) = (dst\<lparr>frags := frags dst @ g\<rparr>, a', off)"
    "discard a c (q - p) = (a', off)" "cur_pointer a' \<le> length (frags a')"
    "wf_frags D p g (c - off)" "wf_frags D (c - off) (rest_frags a') (int (length t))"
    "emit D t p g (c - off) = seg s q c"
    "emit D t (c - off) (rest_frags a') (int (length t)) = drop (nat c) s"
    "i32 (c - off) = c - off" "p \<le> c - off"
proof -
  let ?N = "int (length t)"
  obtain g r off where cut: "cut_frags c (q - p) (rest_frags a) = (g, r, off)"
    by (cases "cut_frags c (q - p) (rest_frags a)") auto
  have len: "int (length (emit D t p (rest_frags a) ?N)) = int (length s) - q"
    using assms by simp
  have sm: "small D t p (q - p) (rest_frags a)" using assms len by (simp add: small_def)
  have spl: "wf_frags D p g (c - off) \<and> wf_frags D (c - off) r ?N \<and>
      emit D t p g (c - off) = take (nat (c - q)) (drop (nat q) s) \<and>
      emit D t (c - off) r ?N = drop (nat (c - q)) (drop (nat q) s)"
    using cut_frags_correct [OF cut assms(1) refl assms(4)] assms(3,5-7) len by simp
  have nq: "nat (c - q) + nat q = nat c" using assms(5,6) by simp
  have g: "\<exists>src'. gather dst a c (q - p) = (dst\<lparr>frags := frags dst @ g\<rparr>, src', off) \<and>
     discard a c (q - p) = (src', off) \<and> rest_frags src' = r \<and> cur_pointer src' \<le> length (frags src')" for dst
    using gather_discard_cut [OF cut assms(1) sm] assms(2,5-7,9) by auto
  then obtain a' where a': "discard a c (q - p) = (a', off)" "rest_frags a' = r"
      "cur_pointer a' \<le> length (frags a')" by blast
  have "0 \<le> c - off" "c - off \<le> ?N" "p \<le> c - off" using spl wf_frags_le assms(4) by fastforce+
  then have "i32 (c - off) = c - off" using assms(8) by (simp add: i32_id)
  moreover have "gather dst a c (q - p) = (dst\<lparr>frags := frags dst @ g\<rparr>, a', off)" for dst
    using g [of dst] a'(1) by auto
  ultimately show ?thesis
    by (intro that [of g a' off]) (use spl a' nq \<open>p \<le> c - off\<close> in \<open>simp_all add: seg_def\<close>)
qed

lemma combine_loop_correct:
  assumes "combine_loop comb a (q - p) bs = (comb', a')"
    and "wf_frags D p (rest_frags a) (int (length t))" "cur_pointer a \<le> length (frags a)"
    and "emit D t p (rest_frags a) (int (length t)) = drop (nat q) s" and "0 \<le> p" "0 \<le> q"
    and "wf_frags D q bs (int (length s))"
    and "int (length t) < 2 ^ 30" "int (length s) < 2 ^ 30" "int (length D) < 2 ^ 31"
  shows "\<exists>g m. frags comb' = frags comb @ g \<and> wf_frags D p g m \<and> cur_pointer a' \<le> length (frags a') \<and>
     wf_frags D m (rest_frags a') (int (length t)) \<and>
     emit D t p g m @ emit D t m (rest_frags a') (int (length t)) = emit D s q bs (int (length s))"
  using assms
proof (induction bs arbitrary: comb a p q)
  case Nil
  then show ?case by (intro exI [of _ "[]"] exI [of _ p]) (simp add: seg_def)
next
  case (Cons b bs)
  let ?N = "int (length t)"
  have b: "q \<le> fw_start b" "fw_start b \<le> fw_end b" "fw_end b \<le> int (length s)"
      "wf_frags D (fw_end b) bs (int (length s))"
    using Cons.prems(7) wf_frags_le [of D "fw_end b" bs "int (length s)"] by auto
  have sb: "fw_start b \<le> int (length s)" using b by simp
  obtain g1 a1 o1 where gather: "\<forall>dst. gather dst a (fw_start b) (q - p) = (dst\<lparr>frags := frags dst @ g1\<rparr>, a1, o1)"
      and "discard a (fw_start b) (q - p) = (a1, o1)" and c1: "cur_pointer a1 \<le> length (frags a1)" and w1: "wf_frags D p g1 (fw_start b - o1)"
      and r1: "wf_frags D (fw_start b - o1) (rest_frags a1) ?N"
      and e1: "emit D t p g1 (fw_start b - o1) = seg s q (fw_start b)"
      and t1: "emit D t (fw_start b - o1) (rest_frags a1) ?N = drop (nat (fw_start b)) s"
      and i1: "i32 (fw_start b - o1) = fw_start b - o1" and p1: "p \<le> fw_start b - o1"
    by (rule cut_step [OF Cons.prems(2-6) b(1) sb Cons.prems(8-10)])
  have q1: "0 \<le> fw_start b - o1" "0 \<le> fw_start b" using p1 b(1) Cons.prems(5,6) by auto
  obtain g2 a2 o2 where
      "\<forall>dst. gather dst a1 (fw_end b) (fw_start b - (fw_start b - o1)) = (dst\<lparr>frags := frags dst @ g2\<rparr>, a2, o2)"
      and discard: "discard a1 (fw_end b) (fw_start b - (fw_start b - o1)) = (a2, o2)"
      and c2: "cur_pointer a2 \<le> length (frags a2)"
      and "wf_frags D (fw_start b - o1) g2 (fw_end b - o2)"
      and r2: "wf_frags D (fw_end b - o2) (rest_frags a2) ?N"
      and "emit D t (fw_start b - o1) g2 (fw_end b - o2) = seg s (fw_start b) (fw_end b)"
      and t2: "emit D t (fw_end b - o2) (rest_frags a2) ?N = drop (nat (fw_end b)) s"
      and i2: "i32 (fw_end b - o2) = fw_end b - o2" and p2: "fw_start b - o1 \<le> fw_end b - o2"
    by (rule cut_step [OF r1 c1 t1 q1 b(2,3) Cons.prems(8-10)])
  let ?f = "\<lparr>fw_start = fw_start b - o1, fw_end = fw_end b - o2, fw_len = fw_len b,
             content_start = content_start b\<rparr>"
  have "combine_loop (iterator_push (comb\<lparr>frags := frags comb @ g1\<rparr>) ?f) a2
      (fw_end b - (fw_end b - o2)) bs = (comb', a')"
    using Cons.prems(1) discard by (simp add: gather i1 i2)
  from Cons.IH [OF this r2 c2 t2 _ _ b(4) Cons.prems(8-10)] obtain g3 m where
      ih: "frags comb' = frags comb @ g1 @ ?f # g3" "wf_frags D (fw_end b - o2) g3 m"
        "cur_pointer a' \<le> length (frags a')" "wf_frags D m (rest_frags a') ?N"
        "emit D t (fw_end b - o2) g3 m @ emit D t m (rest_frags a') ?N = emit D s (fw_end b) bs (int (length s))"
    using b p1 p2 Cons.prems(5,6) by (auto simp: iterator_push_def)
  have wf: "wf_frags D (fw_start b - o1) (?f # g3) m"
    using ih(2) p2 Cons.prems(7) by simp
  have "emit D t p (g1 @ ?f # g3) m = seg s q (fw_start b) @ fw_content D b @ emit D t (fw_end b - o2) g3 m"
    using emit_append [OF w1 wf Cons.prems(5)] e1 by (simp add: fw_content_def)
  with ih wf_frags_appendI [OF w1 wf] show ?case
    by (intro exI [of _ "g1 @ ?f # g3"] exI [of _ m]) simp
qed

lemma push_tail_frags:
  "cur_pointer a \<le> length (frags a) \<Longrightarrow> frags (push_tail comb a) = frags comb @ rest_frags a"
proof (induction comb a rule: push_tail.induct)
  case (1 comb a)
  show ?case
  proof (cases "cur_pointer a < length (frags a)")
    case True
    then have "rest_frags a = current_fragment a # rest_frags (go_next a)"
      by (simp add: current_fragment_def go_next_def Cons_nth_drop_Suc)
    with 1 True show ?thesis
      by (subst push_tail.simps) (simp add: go_next_def iterator_push_def)
  qed (use 1 in \<open>subst push_tail.simps, simp\<close>)
qed

lemma combine_correct:
  assumes "wf_frags D 0 (frags a) (int (length t))" "s = emit D t 0 (frags a) (int (length t))"
    and "wf_frags D 0 (frags b) (int (length s))"
    and "int (length t) < 2 ^ 30" "int (length s) < 2 ^ 30" "int (length D) < 2 ^ 31"
  shows "wf_frags D 0 (frags (combine a b)) (int (length t)) \<and>
     emit D t 0 (frags (combine a b)) (int (length t)) = emit D s 0 (frags b) (int (length s))"
proof -
  obtain comb' a' where l: "combine_loop \<lparr>frags = [], cur_pointer = 0\<rparr> (set_start a) (0 - 0) (frags b) = (comb', a')"
    by (cases "combine_loop \<lparr>frags = [], cur_pointer = 0\<rparr> (set_start a) (0 - 0) (frags b)") auto
  from combine_loop_correct [OF l, of D t s] assms obtain g m where
      g: "frags comb' = g" "wf_frags D 0 g m" "cur_pointer a' \<le> length (frags a')"
        "wf_frags D m (rest_frags a') (int (length t))"
        "emit D t 0 g m @ emit D t m (rest_frags a') (int (length t)) = emit D s 0 (frags b) (int (length s))"
    by (auto simp: set_start_def)
  have "frags (combine a b) = g @ rest_frags a'"
    using l push_tail_frags [OF g(3)] g(1) by (simp add: combine_def)
  with g wf_frags_appendI [OF g(2,4)] emit_append [OF g(2,4)] show ?thesis by simp
qed

section \<open>Applying one delta\<close>

text \<open>The text a delta makes, and the condition under which it can be applied to a text of \<open>N\<close> bytes:
  fragments in order, not overlapping, ending within the text.\<close>

fun delta_text :: "bytes \<Rightarrow> nat \<Rightarrow> Fragment list \<Rightarrow> bytes" where
  "delta_text t off [] = drop off t"
| "delta_text t off (f # fs) =
     take (frag_start f - off) (drop off t) @ frag_content f @ delta_text t (frag_end f) fs"

fun in_order :: "nat \<Rightarrow> Fragment list \<Rightarrow> bool" where
  "in_order off [] \<longleftrightarrow> True"
| "in_order off (f # fs) \<longleftrightarrow> off \<le> frag_start f \<and> frag_start f \<le> frag_end f \<and> in_order (frag_end f) fs"

definition ends_within :: "Fragment list \<Rightarrow> nat \<Rightarrow> bool" where
  "ends_within fs N \<longleftrightarrow> (\<forall>f \<in> set fs. frag_end f \<le> N)"

lemma in_order_mono: "in_order m fs \<Longrightarrow> n \<le> m \<Longrightarrow> in_order n fs"
  by (cases fs) auto

lemma Delta_verify_from_iff:
  "Delta_verify_from prev fs = Inr () \<longleftrightarrow> in_order (case prev of None \<Rightarrow> 0 | Some f \<Rightarrow> frag_end f) fs"
  by (induction prev fs rule: Delta_verify_from.induct)
     (auto simp: Fragment_verify_def split: option.splits)

lemma Delta_verify_iff: "Delta_verify fs = Inr () \<longleftrightarrow> in_order 0 fs"
  by (simp add: Delta_verify_def Delta_verify_from_iff)

fun last_end :: "nat \<Rightarrow> Fragment list \<Rightarrow> nat" where
  "last_end off [] = off"
| "last_end off (f # fs) = last_end (frag_end f) fs"

lemma last_end_within:
  "in_order off fs \<Longrightarrow> last_end off fs \<le> N \<longleftrightarrow> off \<le> N \<and> ends_within fs N"
  by (induction off fs rule: in_order.induct) (auto simp: ends_within_def)

lemma Delta_new_iff: "Delta_new fs = Inr d \<longleftrightarrow> d = Delta fs \<and> in_order 0 fs"
  by (auto simp: Delta_new_def and_then_eq_Inr Delta_verify_iff)

lemma apply_from_end: "apply_from t off chunks fs = Inr (o', cs) \<Longrightarrow> o' = last_end off fs"
  by (induction t off chunks fs arbitrary: o' cs rule: apply_from.induct)
     (auto simp: and_then_eq_Inr split: if_splits)

lemma apply_from_text:
  assumes "in_order off fs" "ends_within fs (length t)"
  shows "\<exists>cs. apply_from t off chunks fs = Inr (last_end off fs, cs) \<and>
     concat cs @ drop (last_end off fs) t = concat chunks @ delta_text t off fs"
  using assms
proof (induction fs arbitrary: off chunks)
  case (Cons f fs)
  have f: "off \<le> frag_start f" "frag_start f \<le> length t" "in_order (frag_end f) fs"
      "ends_within fs (length t)"
    using Cons.prems by (auto simp: ends_within_def)
  let ?c1 = "if off < frag_start f then chunks @ [take (frag_start f - off) (drop off t)] else chunks"
  let ?c2 = "if length (frag_content f) > 0 then ?c1 @ [frag_content f] else ?c1"
  have "apply_from t off chunks (f # fs) = apply_from t (frag_end f) ?c2 fs"
    using f by simp
  moreover have "concat ?c2 = concat chunks @ take (frag_start f - off) (drop off t) @ frag_content f"
    by simp
  ultimately show ?case using Cons.IH [OF f(3,4), of ?c2] by (simp del: apply_from.simps)
qed simp

lemma delta_apply_iff:
  assumes "in_order 0 (fragments d)"
  shows "delta_apply t d = Inr r \<longleftrightarrow>
     ends_within (fragments d) (length t) \<and> r = delta_text t 0 (fragments d)"
proof (cases "ends_within (fragments d) (length t)")
  case True
  then obtain cs where cs: "apply_from t 0 [] (fragments d) = Inr (last_end 0 (fragments d), cs)"
      "concat cs @ drop (last_end 0 (fragments d)) t = delta_text t 0 (fragments d)"
    using apply_from_text [OF assms, of t "[]"] by auto
  moreover have "last_end 0 (fragments d) \<le> length t" using True last_end_within [OF assms] by simp
  ultimately show ?thesis using True by (auto simp: delta_apply_def)
next
  case False
  then have "\<not> last_end 0 (fragments d) \<le> length t" using last_end_within [OF assms] by simp
  with False show ?thesis
    by (auto simp: delta_apply_def and_then_eq_Inr dest!: apply_from_end split: if_splits)
qed

lemma delta_text_length:
  "in_order off fs \<Longrightarrow> ends_within fs (length t) \<Longrightarrow> off \<le> length t \<Longrightarrow>
     int (length (delta_text t off fs)) = int (length t) - int off + sum_list (map length_change fs)"
proof (induction off fs rule: in_order.induct)
  case (2 off f fs)
  then have "int (length (delta_text t (frag_end f) fs)) =
      int (length t) - int (frag_end f) + sum_list (map length_change fs)"
    by (simp add: ends_within_def)
  moreover have "min (length t - off) (frag_start f - off) = frag_start f - off"
    using 2 by (auto simp: ends_within_def)
  ultimately show ?case using 2 by (simp add: length_change_def [of f])
qed simp

section \<open>Wrapping and unwrapping\<close>

definition denotes :: "bytes \<Rightarrow> Fragment \<Rightarrow> FragmentWrapper \<Rightarrow> bool" where
  "denotes D f w \<longleftrightarrow> fw_start w = int (frag_start f) \<and> fw_end w = int (frag_end f) \<and> 0 \<le> fw_len w \<and>
     0 \<le> content_start w \<and> content_start w + fw_len w \<le> int (length D) \<and> fw_content D w = frag_content f"

lemma denotes_wf:
  assumes "list_all2 (denotes D) fs ws" "in_order off fs" "ends_within fs N" "off \<le> N"
  shows "wf_frags D (int off) ws (int N)"
  using assms
proof (induction arbitrary: off rule: list_all2_induct)
  case (Cons f fs w ws)
  then show ?case by (auto simp: denotes_def ends_within_def)
qed simp

lemma denotes_in_order:
  "list_all2 (denotes D) fs ws \<Longrightarrow> wf_frags D (int off) ws (int N) \<Longrightarrow> in_order off fs \<and> ends_within fs N"
proof (induction arbitrary: off rule: list_all2_induct)
  case (Cons f fs w ws)
  then have "in_order (frag_end f) fs \<and> ends_within fs N" by (auto simp: denotes_def)
  moreover have "frag_end f \<le> N"
    using Cons.hyps(1) Cons.prems wf_frags_le [of D "fw_end w" ws "int N"] by (auto simp: denotes_def)
  ultimately show ?case using Cons.hyps(1) Cons.prems by (auto simp: denotes_def ends_within_def)
qed (simp add: ends_within_def)

lemma denotes_emit:
  "list_all2 (denotes D) fs ws \<Longrightarrow> emit D t (int off) ws (int (length t)) = delta_text t off fs"
proof (induction arbitrary: off rule: list_all2_induct)
  case (Cons f fs w ws)
  then have "emit D t (int (frag_end f)) ws (int (length t)) = delta_text t (frag_end f) fs" by blast
  with Cons.hyps(1) show ?case by (simp add: denotes_def seg_def nat_diff_distrib')
qed (simp add: seg_def)

lemma wrap_fragments_denotes:
  assumes "\<forall>f \<in> set fs. frag_start f < 2 ^ 31 \<and> frag_end f < 2 ^ 31"
    and "D = pre @ concat (map frag_content fs) @ post" "int (length D) < 2 ^ 31"
  shows "list_all2 (denotes D) fs (wrap_fragments (int (length pre)) fs)"
  using assms
proof (induction fs arbitrary: pre)
  case (Cons f fs)
  have len: "int (length pre) + int (length (frag_content f)) < 2 ^ 31"
    using Cons.prems(2,3) by simp
  then have "i32 (int (length pre) + i32 (int (content_length f))) = int (length (pre @ frag_content f))"
    by (simp add: content_length_def i32_id)
  moreover have "list_all2 (denotes D) fs (wrap_fragments (int (length (pre @ frag_content f))) fs)"
    using Cons.prems by (intro Cons.IH) simp_all
  moreover have "denotes D f \<lparr>fw_start = i32 (int (frag_start f)), fw_end = i32 (int (frag_end f)),
      fw_len = i32 (int (content_length f)), content_start = int (length pre)\<rparr>"
    using Cons.prems len by (simp add: denotes_def content_length_def i32_id fw_content_def seg_def)
  ultimately show ?case by simp
qed simp

lemma wrap_deltas_from_denotes:
  assumes "wrap_deltas_from wrapped dat (length dat) ds = (ws, D)"
    and "\<forall>d \<in> set ds. \<forall>f \<in> set (fragments d). frag_start f < 2 ^ 31 \<and> frag_end f < 2 ^ 31"
    and "int (length dat) + int (sum_list (map (\<lambda>d. sum_list (map content_length (fragments d))) ds)) < 2 ^ 31"
  shows "int (length D) < 2 ^ 31 \<and> (\<exists>post. D = dat @ post) \<and>
     (\<exists>vs. ws = wrapped @ vs \<and> list_all2 (\<lambda>d w. list_all2 (denotes D) (fragments d) (frags w)) ds vs)"
  using assms
proof (induction ds arbitrary: wrapped dat)
  case (Cons d ds)
  let ?c = "concat (map frag_content (fragments d))" and ?w = "iterator_new d (i32 (int (length dat)))"
  have len: "length ?c = sum_list (map content_length (fragments d))"
    by (simp add: length_concat content_length_def [abs_def] comp_def)
  have "wrap_deltas_from (wrapped @ [?w]) (dat @ ?c) (length (dat @ ?c)) ds = (ws, D)"
    using Cons.prems(1) len by simp
  then have ih: "int (length D) < 2 ^ 31 \<and> (\<exists>post. D = (dat @ ?c) @ post) \<and>
     (\<exists>vs. ws = (wrapped @ [?w]) @ vs \<and>
       list_all2 (\<lambda>d w. list_all2 (denotes D) (fragments d) (frags w)) ds vs)"
    by (rule Cons.IH) (use Cons.prems len in auto)
  moreover have "i32 (int (length dat)) = int (length dat)" using Cons.prems(3) by (simp add: i32_id)
  ultimately have "list_all2 (denotes D) (fragments d) (frags ?w)"
    using wrap_fragments_denotes [of "fragments d" D dat] Cons.prems(2)
    by (fastforce simp: iterator_new_def)
  with ih show ?case by fastforce
qed simp

text \<open>Applying the wrapped deltas one after the other, and that every text on the way is short.\<close>

fun wrapped_seq :: "bytes \<Rightarrow> bytes \<Rightarrow> FragmentWrapperIterator list \<Rightarrow> bytes" where
  "wrapped_seq D t [] = t"
| "wrapped_seq D t (w # ws) = wrapped_seq D (emit D t 0 (frags w) (int (length t))) ws"

fun wrapped_ok :: "bytes \<Rightarrow> bytes \<Rightarrow> FragmentWrapperIterator list \<Rightarrow> bool" where
  "wrapped_ok D t [] \<longleftrightarrow> int (length t) < 2 ^ 30"
| "wrapped_ok D t (w # ws) \<longleftrightarrow> int (length t) < 2 ^ 30 \<and> wf_frags D 0 (frags w) (int (length t)) \<and>
     wrapped_ok D (emit D t 0 (frags w) (int (length t))) ws"

lemma wrapped_append:
  "wrapped_seq D t (vs @ ws) = wrapped_seq D (wrapped_seq D t vs) ws"
  "wrapped_ok D t (vs @ ws) \<longleftrightarrow> wrapped_ok D t vs \<and> wrapped_ok D (wrapped_seq D t vs) ws"
proof -
  show "wrapped_seq D t (vs @ ws) = wrapped_seq D (wrapped_seq D t vs) ws"
    by (induction vs arbitrary: t) simp_all
  have "wrapped_ok D t ws \<Longrightarrow> int (length t) < 2 ^ 30" for t by (cases ws) simp_all
  then show "wrapped_ok D t (vs @ ws) \<longleftrightarrow> wrapped_ok D t vs \<and> wrapped_ok D (wrapped_seq D t vs) ws"
    by (induction vs arbitrary: t) auto
qed

lemma wrapped_ok_short: "wrapped_ok D t ws \<Longrightarrow> int (length t) < 2 ^ 30 \<and> int (length (wrapped_seq D t ws)) < 2 ^ 30"
  by (induction ws arbitrary: t) auto

lemma mpatch_fold_correct:
  assumes "start < end'" "end' \<le> length ws" "int (length D) < 2 ^ 31"
  shows "\<exists>w. mpatch_fold ws start end' = Some w \<and>
     (\<forall>t. wrapped_ok D t (take (end' - start) (drop start ws)) \<longrightarrow>
        wf_frags D 0 (frags w) (int (length t)) \<and>
        emit D t 0 (frags w) (int (length t)) = wrapped_seq D t (take (end' - start) (drop start ws)))"
  using assms
proof (induction ws start end' rule: mpatch_fold.induct)
  case (1 ws start end')
  show ?case
  proof (cases "start + 1 = end'")
    case True
    then have "take (end' - start) (drop start ws) = [ws ! start]"
      using 1(4) by (auto simp: take_Suc hd_drop_conv_nth)
    then show ?thesis using True 1(4) by (subst mpatch_fold.simps) simp
  next
    case False
    define h where "h = (end' - start) div 2"
    have h: "0 < h" "start + h < end'" using False 1(3) by (auto simp: h_def)
    obtain a where a: "mpatch_fold ws start (start + h) = Some a" and
      wa: "\<forall>t. wrapped_ok D t (take h (drop start ws)) \<longrightarrow> wf_frags D 0 (frags a) (int (length t)) \<and>
        emit D t 0 (frags a) (int (length t)) = wrapped_seq D t (take h (drop start ws))"
      using 1(1) [of h] 1(3-5) False h by (auto simp: h_def)
    obtain b where b: "mpatch_fold ws (start + h) end' = Some b" and
      wb: "\<forall>t. wrapped_ok D t (take (end' - (start + h)) (drop (start + h) ws)) \<longrightarrow>
        wf_frags D 0 (frags b) (int (length t)) \<and> emit D t 0 (frags b) (int (length t)) =
          wrapped_seq D t (take (end' - (start + h)) (drop (start + h) ws))"
      using 1(2) [of h a] a 1(3-5) False h by (auto simp: h_def)
    have "take (end' - start) (drop start ws) =
        take h (drop start ws) @ take (end' - (start + h)) (drop (start + h) ws)"
      using h take_add [of h "end' - (start + h)" "drop start ws"] by (simp add: add.commute)
    moreover have "mpatch_fold ws start end' = Some (combine a b)"
      using a b 1(3) False by (subst mpatch_fold.simps) (simp add: h_def Let_def)
    moreover have "wf_frags D 0 (frags (combine a b)) (int (length t)) \<and>
        emit D t 0 (frags (combine a b)) (int (length t)) =
          wrapped_seq D (wrapped_seq D t (take h (drop start ws)))
            (take (end' - (start + h)) (drop (start + h) ws))"
      if "wrapped_ok D t (take h (drop start ws))"
        "wrapped_ok D (wrapped_seq D t (take h (drop start ws))) (take (end' - (start + h)) (drop (start + h) ws))"
      for t
      using combine_correct [of D a t "wrapped_seq D t (take h (drop start ws))" b]
        wa [rule_format, OF that(1)] wb [rule_format, OF that(2)] wrapped_ok_short [OF that(1)] 1(5)
      by simp
    ultimately show ?thesis by (simp add: wrapped_append)
  qed
qed

lemma slices_denotes:
  assumes "wf_frags D p ws N" "0 \<le> p" "N < 2 ^ 31" "int (length D) < 2 ^ 31"
  shows "\<exists>fs. slices D ws = Some fs \<and> list_all2 (denotes D) fs ws"
  using assms
proof (induction ws arbitrary: p)
  case (Cons w ws)
  have w: "0 \<le> fw_start w" "fw_start w < 2 ^ 31" "0 \<le> fw_end w" "fw_end w < 2 ^ 31" "0 \<le> content_start w"
      "0 \<le> fw_len w" "content_start w + fw_len w \<le> int (length D)"
    using Cons.prems wf_frags_le [of D "fw_end w" ws N] by auto
  obtain fs where "slices D ws = Some fs" "list_all2 (denotes D) fs ws"
    using Cons.IH [of "fw_end w"] Cons.prems w by auto
  moreover have "i32 (content_start w + fw_len w) = content_start w + fw_len w"
    using w Cons.prems(4) by (simp add: i32_id)
  moreover have "nat (content_start w + fw_len w) - nat (content_start w) = nat (fw_len w)"
      "nat (content_start w) \<le> nat (content_start w + fw_len w)"
      "nat (content_start w + fw_len w) \<le> length D"
    using w by (simp_all add: nat_add_distrib nat_le_iff)
  moreover have "denotes D \<lparr>frag_start = nat (fw_start w), frag_end = nat (fw_end w),
      frag_content = take (nat (fw_len w)) (drop (nat (content_start w)) D)\<rparr> w"
    using w by (simp add: denotes_def fw_content_def seg_def)
  moreover have "as_usize x = nat x" if "0 \<le> x" "x < 2 ^ 31" for x
    using that by (simp add: as_usize_def)
  ultimately show ?case using w Cons.prems(4) by (simp add: Let_def)
qed simp

section \<open>Properties\<close>

text \<open>The reference: the deltas of a chain applied one after the other.\<close>

fun apply_seq :: "bytes \<Rightarrow> Delta list \<Rightarrow> delta_error + bytes" where
  "apply_seq t [] = Inr t"
| "apply_seq t (d # ds) = and_then (delta_apply t d) (\<lambda>u. apply_seq u ds)"

definition chain_short :: "bytes \<Rightarrow> Delta list \<Rightarrow> bool" where
  "chain_short t ds \<longleftrightarrow>
     (\<forall>n \<le> length ds. case apply_seq t (take n ds) of Inr u \<Rightarrow> length u < 2 ^ 30 | Inl _ \<Rightarrow> True) \<and>
     sum_list (map (\<lambda>d. sum_list (map content_length (fragments d))) ds) < 2 ^ 31"

lemma chain_short_Cons:
  assumes "chain_short t (d # ds)" "delta_apply t d = Inr u"
  shows "length t < 2 ^ 30" "chain_short u ds"
proof -
  show "length t < 2 ^ 30" using assms(1) by (auto simp: chain_short_def dest!: spec [of _ 0])
  have "case apply_seq u (take n ds) of Inr u \<Rightarrow> length u < 2 ^ 30 | Inl _ \<Rightarrow> True" if "n \<le> length ds" for n
    using assms that by (auto simp: chain_short_def dest!: spec [of _ "Suc n"])
  then show "chain_short u ds" using assms(1) by (simp add: chain_short_def)
qed

lemma chain_wrapped:
  assumes "list_all2 (\<lambda>d w. list_all2 (denotes D) (fragments d) (frags w)) ds ws"
    and "\<forall>d \<in> set ds. Delta_verify (fragments d) = Inr ()" "apply_seq t ds = Inr r" "chain_short t ds"
  shows "wrapped_ok D t ws \<and> wrapped_seq D t ws = r"
  using assms
proof (induction arbitrary: t rule: list_all2_induct)
  case Nil
  then show ?case by (simp add: chain_short_def)
next
  case (Cons d ds w ws)
  obtain u where u: "delta_apply t d = Inr u" "apply_seq u ds = Inr r"
    using Cons.prems(2) by (auto simp: and_then_eq_Inr)
  have ord: "in_order 0 (fragments d)" using Cons.prems(1) by (simp add: Delta_verify_iff)
  have "ends_within (fragments d) (length t)" "u = delta_text t 0 (fragments d)"
    using u(1) by (simp_all add: delta_apply_iff [OF ord])
  then show ?case
    using denotes_wf [OF Cons.hyps(1) ord] denotes_emit [OF Cons.hyps(1), of t 0] Cons.IH [of u]
      Cons.prems u chain_short_Cons [OF Cons.prems(3) u(1)] by simp
qed

lemma chain_positions:
  assumes "\<forall>d \<in> set ds. Delta_verify (fragments d) = Inr ()" "apply_seq t ds = Inr r" "chain_short t ds"
    and "d \<in> set ds" "f \<in> set (fragments d)"
  shows "frag_start f < 2 ^ 31 \<and> frag_end f < 2 ^ 31"
  using assms
proof (induction ds arbitrary: t)
  case (Cons e ds)
  obtain u where u: "delta_apply t e = Inr u" "apply_seq u ds = Inr r"
    using Cons.prems(2) by (auto simp: and_then_eq_Inr)
  note sh = chain_short_Cons [OF Cons.prems(3) u(1)]
  have ord: "in_order 0 (fragments e)" using Cons.prems(1) by (simp add: Delta_verify_iff)
  have se: "in_order off fs \<Longrightarrow> f \<in> set fs \<Longrightarrow> frag_start f \<le> frag_end f" for off fs
    by (induction off fs rule: in_order.induct) auto
  show ?case
  proof (cases "d = e")
    case True
    then have "frag_end f \<le> length t" "frag_start f \<le> frag_end f"
      using u(1) Cons.prems(5) delta_apply_iff [OF ord] se [OF ord] by (auto simp: ends_within_def)
    then show ?thesis using sh(1) by simp
  next
    case False
    then show ?thesis using Cons.IH [of u] Cons.prems u sh(2) by simp
  qed
qed simp

text \<open>C1: folding a chain of deltas into one and applying it gives what applying them one after the
  other gives. For verified deltas, whenever the sequential application succeeds, no text on the
  way reaches \<open>2 ^ 30\<close> bytes and the contents stay below \<open>2 ^ 31\<close> bytes, \<open>apply_chain\<close> neither
  panics nor fails nor wraps around, and returns the same text.\<close>

theorem apply_chain_correct:
  assumes "\<forall>d \<in> set ds. Delta_verify (fragments d) = Inr ()"
    and "apply_seq text ds = Inr r" and "chain_short text ds"
  shows "apply_chain text ds = Some (Inr r)"
proof (cases "ds = []")
  case True
  then show ?thesis using assms(2) by (simp add: apply_chain_def wrap_deltas_def)
next
  case False
  obtain ws D where w: "wrap_deltas ds = (ws, D)" by fastforce
  have D: "int (length D) < 2 ^ 31" and ws: "list_all2 (\<lambda>d w. list_all2 (denotes D) (fragments d) (frags w)) ds ws"
    using wrap_deltas_from_denotes [of "[]" "[]" ds ws D] w chain_positions [OF assms] assms(3)
    by (auto simp: wrap_deltas_def chain_short_def simp flip: of_nat_less_iff)
  have n: "0 < length ws" using ws False by (auto dest: list_all2_lengthD)
  note cw = chain_wrapped [OF ws assms]
  from mpatch_fold_correct [OF n order_refl D] cw obtain v where
      v: "mpatch_fold ws 0 (length ws) = Some v" "wf_frags D 0 (frags v) (int (length text))"
        "emit D text 0 (frags v) (int (length text)) = r" by auto
  obtain fs where fs: "slices D (frags v) = Some fs" "list_all2 (denotes D) fs (frags v)"
    using slices_denotes [OF v(2)] D wrapped_ok_short cw by fastforce
  have ord: "in_order 0 fs" and "ends_within fs (length text)"
    using denotes_in_order [OF fs(2), of 0] v(2) by auto
  then have "delta_apply text (Delta fs) = Inr r"
    using delta_apply_iff [of "Delta fs" "text" r] denotes_emit [OF fs(2), of "text" 0] v(3) by simp
  moreover have "Delta_new fs = Inr (Delta fs)" using ord by (simp add: Delta_new_iff)
  ultimately show ?thesis using n by (simp add: apply_chain_def w v(1) into_delta_def fs(1))
qed

theorem apply_chain_correct_witness:
  "let ds = [Delta [\<lparr>frag_start = 1, frag_end = 2, frag_content = [7, 8]\<rparr>],
             Delta [\<lparr>frag_start = 0, frag_end = 2, frag_content = [9]\<rparr>]]
   in apply_seq [1, 2, 3] ds = Inr [9, 8, 3] \<and> apply_chain [1, 2, 3] ds = Some (Inr [9, 8, 3])"
proof -
  let ?ds = "[Delta [\<lparr>frag_start = 1, frag_end = 2, frag_content = [7, 8]\<rparr>],
             Delta [\<lparr>frag_start = 0, frag_end = 2, frag_content = [9]\<rparr>]]"
  have s: "apply_seq [1, 2, 3] ?ds = Inr [9, 8, 3]" by (simp add: delta_apply_def)
  have "chain_short [1, 2, 3] ?ds"
    by (auto simp: chain_short_def content_length_def delta_apply_def le_Suc_eq)
  then show ?thesis
    using s apply_chain_correct [OF _ s] by (simp add: Delta_verify_iff)
qed

text \<open>C2: a delta built by \<open>Delta::new\<close> can be applied exactly to the texts that reach the end of
  its fragments, and the result is the text with every fragment's range replaced; its length is
  the old length plus the sum of the \<open>length_change\<close> of the fragments.\<close>

theorem delta_apply_contract:
  assumes "Delta_new fs = Inr d"
  shows "((\<exists>r. delta_apply t d = Inr r) \<longleftrightarrow> ends_within fs (length t)) \<and>
    (\<forall>r. delta_apply t d = Inr r \<longrightarrow> r = delta_text t 0 fs \<and>
       int (length r) = int (length t) + sum_list (map length_change fs))"
proof -
  have d: "d = Delta fs" "in_order 0 fs" using assms by (simp_all add: Delta_new_iff)
  then show ?thesis using delta_apply_iff [of d t] delta_text_length [of 0 fs t] by auto
qed

theorem delta_apply_contract_witness:
  "\<not> (\<exists>r. delta_apply [1, 2] (Delta [\<lparr>frag_start = 1, frag_end = 3, frag_content = []\<rparr>]) = Inr r)"
  using delta_apply_contract [of "[\<lparr>frag_start = 1, frag_end = 3, frag_content = []\<rparr>]" _ "[1, 2]"]
  by (simp add: Delta_new_iff ends_within_def)

end
