(* ===== verification/Changesets.thy ===== *)
theory Changesets
  imports Hashes
begin

text \<open>
  The changeset store: \<open>src/changesets/src/lib.rs\<close> (\<open>SqlChangesets\<close>) with its schema
  \<open>src/changesets/schemas/sqlite-changesets.sql\<close>, and \<open>SimpleChangesetFetcher\<close> of
  \<open>src/blobrepo/changeset_fetcher/src/lib.rs\<close>.

  The two tables are lists of rows, and every query is the relational meaning of its SQL text; a
  transaction is one step. \<open>read_connection\<close> may be a replica that lags behind the master: the
  reads take both databases. Identifiers are any type \<open>'c\<close>. The order in which a \<open>HashMap\<close> or
  \<open>HashSet\<close> is iterated shows only in \<open>MissingParents\<close>, which carries a set, and in the order of
  the entries of \<open>get_many\<close>, which is that of first appearance.
\<close>

section \<open>Tables and queries\<close>

datatype 'c changesets_error =
    DuplicateInsertionInconsistency 'c "'c list" "'c list"
  | MissingParents "'c set"
  | NotFound 'c
  | Panicked string

record 'c ChangesetEntry =
  ce_repo_id :: int
  ce_cs_id :: 'c
  ce_parents :: "'c list"
  ce_gen :: nat

record 'c ChangesetInsert =
  ci_repo_id :: int
  ci_cs_id :: 'c
  ci_parents :: "'c list"

record 'c cs_row =
  row_id :: nat
  row_repo :: int
  row_cs :: 'c
  row_gen :: nat

record csparents_row =
  p_cs_id :: nat
  p_parent_id :: nat
  p_seq :: nat

record 'c changesets_db =
  t_changesets :: "'c cs_row list"
  t_csparents :: "csparents_row list"
  next_id :: nat

definition empty_db :: "'c changesets_db" where
  "empty_db = \<lparr>t_changesets = [], t_csparents = [], next_id = 1\<rparr>"

text \<open>\<open>LEFT JOIN (csparents p, changesets pcs) ON (cs.id = p.cs_id AND p.parent_id = pcs.id)\<close>:
  the row, with the sequence number and the identifier of a parent, or nothing.\<close>

definition parent_join :: "'c changesets_db \<Rightarrow> 'c cs_row \<Rightarrow> (nat \<times> 'c) list" where
  "parent_join db r =
     concat (map (\<lambda>p. map (\<lambda>pcs. (p_seq p, row_cs pcs))
         (filter (\<lambda>pcs. row_id pcs = p_parent_id p) (t_changesets db)))
       (filter (\<lambda>p. p_cs_id p = row_id r) (t_csparents db)))"

definition left_join :: "'c changesets_db \<Rightarrow> 'c cs_row list \<Rightarrow> ('c cs_row \<times> (nat \<times> 'c) option) list" where
  "left_join db rows =
     concat (map (\<lambda>r. case parent_join db r of
         [] \<Rightarrow> [(r, None)]
       | js \<Rightarrow> map (\<lambda>j. (r, Some j)) js) rows)"

text \<open>\<open>ORDER BY p.seq ASC\<close>, with \<open>NULL\<close> first.\<close>

definition order_by_seq :: "('c cs_row \<times> (nat \<times> 'c) option) list \<Rightarrow> ('c cs_row \<times> (nat \<times> 'c) option) list" where
  "order_by_seq = sort_key (\<lambda>(r, j). case j of None \<Rightarrow> 0 | Some (s, _) \<Rightarrow> Suc s)"

definition SelectChangeset :: "'c changesets_db \<Rightarrow> int \<Rightarrow> 'c \<Rightarrow> (nat \<times> 'c option) list" where
  "SelectChangeset db repo_id cs_id =
     map (\<lambda>(r, j). (row_gen r, map_option snd j))
       (order_by_seq (left_join db
         (filter (\<lambda>r. row_repo r = repo_id \<and> row_cs r = cs_id) (t_changesets db))))"

definition SelectManyChangesets :: "'c changesets_db \<Rightarrow> int \<Rightarrow> 'c list \<Rightarrow> ('c \<times> nat \<times> 'c option) list" where
  "SelectManyChangesets db repo_id cs_ids =
     map (\<lambda>(r, j). (row_cs r, row_gen r, map_option snd j))
       (order_by_seq (left_join db
         (filter (\<lambda>r. row_repo r = repo_id \<and> row_cs r \<in> set cs_ids) (t_changesets db))))"

definition SelectChangesets :: "'c changesets_db \<Rightarrow> int \<Rightarrow> 'c list \<Rightarrow> (nat \<times> 'c \<times> nat) list" where
  "SelectChangesets db repo_id cs_ids =
     map (\<lambda>r. (row_id r, row_cs r, row_gen r))
       (filter (\<lambda>r. row_repo r = repo_id \<and> row_cs r \<in> set cs_ids) (t_changesets db))"

definition SelectAllChangesetsIdsInRange :: "'c changesets_db \<Rightarrow> int \<Rightarrow> nat \<Rightarrow> nat \<Rightarrow> 'c list" where
  "SelectAllChangesetsIdsInRange db repo_id min_id max_id =
     map row_cs (filter (\<lambda>r. row_repo r = repo_id \<and> min_id \<le> row_id r \<and> row_id r \<le> max_id) (t_changesets db))"

text \<open>\<open>INSERT OR IGNORE\<close> under \<open>UNIQUE (repo_id, cs_id)\<close>: the new table and the row id, if a row
  was inserted.\<close>

definition InsertChangeset :: "'c changesets_db \<Rightarrow> int \<Rightarrow> 'c \<Rightarrow> nat \<Rightarrow> 'c changesets_db \<times> nat option" where
  "InsertChangeset db repo_id cs_id gen =
     (if \<exists>r \<in> set (t_changesets db). row_repo r = repo_id \<and> row_cs r = cs_id then (db, None)
      else (db\<lparr>t_changesets := t_changesets db @
               [\<lparr>row_id = next_id db, row_repo = repo_id, row_cs = cs_id, row_gen = gen\<rparr>],
               next_id := next_id db + 1\<rparr>,
            Some (next_id db)))"

definition InsertParents :: "'c changesets_db \<Rightarrow> csparents_row list \<Rightarrow> 'c changesets_db" where
  "InsertParents db rows = db\<lparr>t_csparents := t_csparents db @ rows\<rparr>"

section \<open>The operations\<close>

definition select_changeset :: "'c changesets_db \<Rightarrow> int \<Rightarrow> 'c \<Rightarrow> 'c ChangesetEntry option" where
  "select_changeset db repo_id cs_id =
     (case SelectChangeset db repo_id cs_id of
        [] \<Rightarrow> None
      | row # rows \<Rightarrow>
          Some \<lparr>ce_repo_id = repo_id, ce_cs_id = cs_id,
                ce_parents = List.map_filter snd (row # rows), ce_gen = fst row\<rparr>)"

text \<open>The entries of the \<open>HashMap\<close>: the first row of a changeset makes its entry, every row
  extends the parents.\<close>

fun extend_entry :: "int \<Rightarrow> 'c \<Rightarrow> nat \<Rightarrow> 'c option \<Rightarrow> 'c ChangesetEntry list \<Rightarrow> 'c ChangesetEntry list" where
  "extend_entry repo_id cs_id gen maybe_parent [] =
     [\<lparr>ce_repo_id = repo_id, ce_cs_id = cs_id,
       ce_parents = (case maybe_parent of None \<Rightarrow> [] | Some p \<Rightarrow> [p]), ce_gen = gen\<rparr>]"
| "extend_entry repo_id cs_id gen maybe_parent (e # es) =
     (if ce_cs_id e = cs_id
      then e\<lparr>ce_parents := ce_parents e @ (case maybe_parent of None \<Rightarrow> [] | Some p \<Rightarrow> [p])\<rparr> # es
      else e # extend_entry repo_id cs_id gen maybe_parent es)"

definition select_many_changesets :: "'c changesets_db \<Rightarrow> int \<Rightarrow> 'c list \<Rightarrow> 'c ChangesetEntry list" where
  "select_many_changesets db repo_id cs_ids =
     fold (\<lambda>(cs_id, gen, maybe_parent). extend_entry repo_id cs_id gen maybe_parent)
       (SelectManyChangesets db repo_id cs_ids) []"

definition check_missing_rows :: "'c list \<Rightarrow> (nat \<times> 'c \<times> nat) list \<Rightarrow> 'c changesets_error + unit" where
  "check_missing_rows expected actual =
     (let diff = set expected - set (map (fst \<circ> snd) actual)
      in if diff = {} then Inr () else Inl (MissingParents diff))"

definition parent_map :: "(nat \<times> 'c \<times> nat) list \<Rightarrow> 'c \<Rightarrow> nat option" where
  "parent_map rows c = map_of (rev (map (\<lambda>(i, c, g). (c, i)) rows)) c"

definition insert_parents ::
    "'c changesets_db \<Rightarrow> nat \<Rightarrow> 'c list \<Rightarrow> (nat \<times> 'c \<times> nat) list
      \<Rightarrow> 'c changesets_error + 'c changesets_db" where
  "insert_parents db new_cs_id ps parent_rows =
     map_ok (InsertParents db)
       (collect_ok (\<lambda>(seq, parent).
          case parent_map parent_rows parent of
            None \<Rightarrow> Inl (Panicked ''check_missing_rows check failed'')
          | Some parent_id \<Rightarrow> Inr \<lparr>p_cs_id = new_cs_id, p_parent_id = parent_id, p_seq = seq\<rparr>)
         (zip [0..<length ps] ps))"

definition check_changeset_matches ::
    "'c changesets_db \<Rightarrow> 'c ChangesetInsert \<Rightarrow> 'c changesets_error + unit" where
  "check_changeset_matches db cs =
     (let stored_parents = map_option ce_parents (select_changeset db (ci_repo_id cs) (ci_cs_id cs))
      in if Some (ci_parents cs) = stored_parents then Inr ()
         else Inl (DuplicateInsertionInconsistency (ci_cs_id cs)
                (case stored_parents of None \<Rightarrow> [] | Some ps \<Rightarrow> ps) (ci_parents cs)))"

text \<open>\<open>SqlChangesets::add\<close>. A failed transaction leaves the database as it was.\<close>

definition changesets_add ::
    "'c changesets_db \<Rightarrow> 'c ChangesetInsert \<Rightarrow> ('c changesets_error + bool) \<times> 'c changesets_db" where
  "changesets_add db cs =
     (let parent_rows = (if ci_parents cs = [] then []
                         else SelectChangesets db (ci_repo_id cs) (ci_parents cs))
      in case check_missing_rows (ci_parents cs) parent_rows of
           Inl e \<Rightarrow> (Inl e, db)
         | Inr _ \<Rightarrow>
             let gen = fold max (map (snd \<circ> snd) parent_rows) 0 + 1 in
             (case InsertChangeset db (ci_repo_id cs) (ci_cs_id cs) gen of
                (db', Some new_cs_id) \<Rightarrow>
                  (case insert_parents db' new_cs_id (ci_parents cs) parent_rows of
                     Inl e \<Rightarrow> (Inl e, db)
                   | Inr db'' \<Rightarrow> (Inr True, db''))
              | (_, None) \<Rightarrow> (map_ok (\<lambda>_. False) (check_changeset_matches db cs), db)))"

definition changesets_get ::
    "'c changesets_db \<Rightarrow> 'c changesets_db \<Rightarrow> int \<Rightarrow> 'c \<Rightarrow> 'c ChangesetEntry option" where
  "changesets_get replica master repo_id cs_id =
     (case select_changeset replica repo_id cs_id of
        Some mapping \<Rightarrow> Some mapping
      | None \<Rightarrow> select_changeset master repo_id cs_id)"

definition changesets_get_many ::
    "'c changesets_db \<Rightarrow> 'c changesets_db \<Rightarrow> int \<Rightarrow> 'c list \<Rightarrow> 'c ChangesetEntry list" where
  "changesets_get_many replica master repo_id cs_ids =
     (if cs_ids = [] then []
      else
        let fetched_cs = select_many_changesets replica repo_id cs_ids;
            fetched_set = set (map ce_cs_id fetched_cs);
            notfetched_cs_ids = filter (\<lambda>c. c \<notin> fetched_set) cs_ids
        in if notfetched_cs_ids = [] then fetched_cs
           else select_many_changesets master repo_id notfetched_cs_ids @ fetched_cs)"

text \<open>\<open>max_id - 1\<close> is a subtraction on \<open>u64\<close>: at 0 it panics (or wraps), here \<open>None\<close>.\<close>

definition get_list_bs_cs_id_in_range :: "'c changesets_db \<Rightarrow> int \<Rightarrow> nat \<Rightarrow> nat \<Rightarrow> 'c list option" where
  "get_list_bs_cs_id_in_range db repo_id min_id max_id =
     (if max_id = 0 then None
      else Some (SelectAllChangesetsIdsInRange db repo_id min_id (max_id - 1)))"

section \<open>Thrift form of the entries\<close>

record thrift_ChangesetEntry =
  te_repo_id :: int
  te_cs_id :: thrift_IdType
  te_parents :: "thrift_IdType list"
  te_gen :: int

text \<open>\<open>gen\<close> is a \<open>u64\<close> stored as an \<open>i64\<close>: both casts keep the bits.\<close>

definition entry_into_thrift :: "ChangesetId ChangesetEntry \<Rightarrow> thrift_ChangesetEntry" where
  "entry_into_thrift e =
     \<lparr>te_repo_id = ce_repo_id e, te_cs_id = ChangesetId_into_thrift (ce_cs_id e),
      te_parents = map ChangesetId_into_thrift (ce_parents e),
      te_gen = signed_take_bit 63 (int (ce_gen e))\<rparr>"

definition entry_from_thrift :: "thrift_ChangesetEntry \<Rightarrow> error_kind + ChangesetId ChangesetEntry" where
  "entry_from_thrift t =
     and_then (ChangesetId_from_thrift (te_cs_id t)) (\<lambda>cs_id.
     and_then (collect_ok ChangesetId_from_thrift (te_parents t)) (\<lambda>ps.
     Inr \<lparr>ce_repo_id = te_repo_id t, ce_cs_id = cs_id, ce_parents = ps,
          ce_gen = nat (te_gen t mod 2 ^ 64)\<rparr>))"

definition serialize_cs_entries ::
    "(thrift_ChangesetEntry list \<Rightarrow> bytes) \<Rightarrow> ChangesetId ChangesetEntry list \<Rightarrow> bytes" where
  "serialize_cs_entries ser entries = ser (map entry_into_thrift entries)"

definition deserialize_cs_entries ::
    "(bytes \<Rightarrow> thrift_ChangesetEntry list option) \<Rightarrow> bytes \<Rightarrow> error_kind + ChangesetId ChangesetEntry list" where
  "deserialize_cs_entries de blob =
     (case de blob of
        None \<Rightarrow> Inl (ErrMsg ''deserialize'')
      | Some ts \<Rightarrow>
          collect_ok (\<lambda>t.
            and_then (collect_ok ChangesetId_from_thrift (te_parents t)) (\<lambda>ps.
            and_then (ChangesetId_from_thrift (te_cs_id t)) (\<lambda>cs_id.
            Inr \<lparr>ce_repo_id = te_repo_id t, ce_cs_id = cs_id, ce_parents = ps,
                 ce_gen = nat (te_gen t mod 2 ^ 64)\<rparr>))) ts)"

section \<open>Fetchers\<close>

record 'c ChangesetFetcher =
  get_generation_number :: "'c \<Rightarrow> 'c changesets_error + nat"
  get_parents :: "'c \<Rightarrow> 'c changesets_error + 'c list"

definition simple_fetcher :: "(int \<Rightarrow> 'c \<Rightarrow> 'c ChangesetEntry option) \<Rightarrow> int \<Rightarrow> 'c ChangesetFetcher" where
  "simple_fetcher get repo_id =
     \<lparr>get_generation_number = \<lambda>cs_id.
        (case get repo_id cs_id of None \<Rightarrow> Inl (NotFound cs_id) | Some cs \<Rightarrow> Inr (ce_gen cs)),
      get_parents = \<lambda>cs_id.
        (case get repo_id cs_id of None \<Rightarrow> Inl (NotFound cs_id) | Some cs \<Rightarrow> Inr (ce_parents cs))\<rparr>"

section \<open>The store the tables represent\<close>

text \<open>
  The abstract store maps a repository and a changeset to the parents, in order, and the
  generation number. \<open>store_add\<close> is the contract of \<open>Changesets::add\<close>.
\<close>

type_synonym 'c store = "int \<Rightarrow> 'c \<Rightarrow> ('c list \<times> nat) option"

definition store_gen :: "'c store \<Rightarrow> int \<Rightarrow> 'c \<Rightarrow> nat" where
  "store_gen s repo c = (case s repo c of None \<Rightarrow> 0 | Some (ps, g) \<Rightarrow> g)"

definition missing_parents :: "'c store \<Rightarrow> int \<Rightarrow> 'c list \<Rightarrow> 'c set" where
  "missing_parents s repo ps = {p \<in> set ps. s repo p = None}"

definition store_add :: "'c store \<Rightarrow> 'c ChangesetInsert \<Rightarrow> ('c changesets_error + bool) \<times> 'c store" where
  "store_add s cs =
     (let repo = ci_repo_id cs; c = ci_cs_id cs; ps = ci_parents cs;
          missing = missing_parents s repo ps
      in if missing \<noteq> {} then (Inl (MissingParents missing), s)
         else case s repo c of
           Some (qs, g) \<Rightarrow>
             (if ps = qs then Inr False else Inl (DuplicateInsertionInconsistency c qs ps), s)
         | None \<Rightarrow>
             (Inr True, s(repo := (s repo)(c \<mapsto> (ps, Suc (Max (insert 0 (store_gen s repo ` set ps))))))))"

definition row_parents :: "'c changesets_db \<Rightarrow> 'c cs_row \<Rightarrow> 'c list" where
  "row_parents db r = map snd (sort_key fst (parent_join db r))"

definition has_key :: "int \<Rightarrow> 'c \<Rightarrow> 'c cs_row \<Rightarrow> bool" where
  "has_key repo c r \<longleftrightarrow> row_repo r = repo \<and> row_cs r = c"

definition view :: "'c changesets_db \<Rightarrow> 'c store" where
  "view db repo c = map_option (\<lambda>r. (row_parents db r, row_gen r)) (find (has_key repo c) (t_changesets db))"

definition tables_ok :: "'c changesets_db \<Rightarrow> bool" where
  "tables_ok db \<longleftrightarrow>
     distinct (map row_id (t_changesets db)) \<and>
     distinct (map (\<lambda>r. (row_repo r, row_cs r)) (t_changesets db)) \<and>
     (\<forall>r \<in> set (t_changesets db). row_id r < next_id db) \<and>
     (\<forall>p \<in> set (t_csparents db). p_cs_id p < next_id db \<and> p_parent_id p < next_id db)"

text \<open>Parents are in the store, and the generation number is one more than the largest of theirs.\<close>

definition store_ok :: "'c store \<Rightarrow> bool" where
  "store_ok s \<longleftrightarrow> (\<forall>repo c ps g. s repo c = Some (ps, g) \<longrightarrow>
     (\<forall>p \<in> set ps. s repo p \<noteq> None) \<and> g = Suc (Max (insert 0 (store_gen s repo ` set ps))))"

definition db_ok :: "'c changesets_db \<Rightarrow> bool" where
  "db_ok db \<longleftrightarrow> tables_ok db \<and> store_ok (view db)"

lemma insort_key_map: "insort_key f (h x) (map h xs) = map h (insort_key (\<lambda>y. f (h y)) x xs)"
  by (induction xs) auto

lemma sort_key_map: "sort_key f (map h xs) = map h (sort_key (\<lambda>y. f (h y)) xs)"
  by (induction xs) (simp_all add: insort_key_map comp_def)

lemma sort_key_Suc: "sort_key (\<lambda>x. Suc (f x)) xs = sort_key f xs"
proof -
  have "insort_key (\<lambda>x. Suc (f x)) y ys = insort_key f y ys" for y ys by (induction ys) auto
  then show ?thesis by (induction xs) simp_all
qed

lemma filter_key:
  assumes "distinct (map f xs)"
  shows "filter (\<lambda>x. f x = k) xs = (case find (\<lambda>x. f x = k) xs of None \<Rightarrow> [] | Some x \<Rightarrow> [x])"
  using assms
proof (induction xs)
  case (Cons y xs)
  show ?case
  proof (cases "f y = k")
    case True
    then have "filter (\<lambda>x. f x = k) xs = []" using Cons.prems by (auto simp: filter_empty_conv image_iff)
    with True show ?thesis by simp
  qed (use Cons in simp)
qed simp

lemma filter_key_single:
  "distinct (map f xs) \<Longrightarrow> x \<in> set xs \<Longrightarrow> filter (\<lambda>y. f y = f x) xs = [x]"
proof (induction xs)
  case (Cons y xs)
  show ?case
  proof (cases "x = y")
    case True
    then have "filter (\<lambda>z. f z = f x) xs = []" using Cons.prems by (auto simp: filter_empty_conv image_iff)
    with True show ?thesis by simp
  next
    case False
    then have "x \<in> set xs" "f y \<noteq> f x" using Cons.prems by (auto simp: image_iff)
    then show ?thesis using Cons by simp
  qed
qed simp

lemma tables_ok_filter:
  assumes "tables_ok db"
  shows "filter (\<lambda>r. row_repo r = repo \<and> row_cs r = c) (t_changesets db)
    = (case find (has_key repo c) (t_changesets db) of None \<Rightarrow> [] | Some r \<Rightarrow> [r])"
  using filter_key [of "\<lambda>r. (row_repo r, row_cs r)" "t_changesets db" "(repo, c)"] assms
  by (simp add: tables_ok_def has_key_def [abs_def])

lemma SelectChangeset_single:
  "map (\<lambda>(r, j). (row_gen r, map_option snd j)) (order_by_seq (left_join db [r])) =
     (if parent_join db r = [] then [(row_gen r, None)]
      else map (\<lambda>c. (row_gen r, Some c)) (row_parents db r))"
proof (cases "parent_join db r")
  case Nil
  then show ?thesis by (simp add: left_join_def order_by_seq_def)
next
  case (Cons j js)
  have "order_by_seq (map (\<lambda>j. (r, Some j)) (j # js)) = map (\<lambda>j. (r, Some j)) (sort_key fst (j # js))"
    unfolding order_by_seq_def sort_key_map using sort_key_Suc [of fst "j # js"]
    by (simp add: case_prod_unfold del: sort_key_simps)
  then show ?thesis
    using Cons by (simp add: left_join_def row_parents_def)
qed

lemma map_filter_snd_Some: "List.map_filter snd (map (\<lambda>c. (g, Some c)) xs) = xs"
  by (induction xs) (simp_all add: List.map_filter_simps)

lemma select_changeset_view:
  assumes "tables_ok db"
  shows "select_changeset db repo c = map_option
     (\<lambda>(ps, g). \<lparr>ce_repo_id = repo, ce_cs_id = c, ce_parents = ps, ce_gen = g\<rparr>) (view db repo c)"
proof (cases "find (has_key repo c) (t_changesets db)")
  case None
  then show ?thesis
    by (simp add: select_changeset_def SelectChangeset_def tables_ok_filter [OF assms] view_def
        left_join_def order_by_seq_def)
next
  case (Some r)
  then have rows: "SelectChangeset db repo c = (if parent_join db r = [] then [(row_gen r, None)]
      else map (\<lambda>c. (row_gen r, Some c)) (row_parents db r))"
    by (simp add: SelectChangeset_def tables_ok_filter [OF assms] SelectChangeset_single)
  show ?thesis
  proof (cases "parent_join db r")
    case Nil
    then show ?thesis using rows Some
      by (simp add: select_changeset_def view_def row_parents_def List.map_filter_simps)
  next
    case (Cons j js)
    then have "row_parents db r \<noteq> []" by (metis list.discI map_is_Nil_conv row_parents_def set_empty set_sort)
    then obtain q qs where q: "row_parents db r = q # qs" by (cases "row_parents db r") auto
    with Cons rows have "SelectChangeset db repo c = (row_gen r, Some q) # map (\<lambda>c. (row_gen r, Some c)) qs"
      by simp
    then show ?thesis using Some q map_filter_snd_Some [of "row_gen r" qs]
      by (simp add: select_changeset_def view_def List.map_filter_simps)
  qed
qed

section \<open>Adding a changeset\<close>

lemma find_key_iff:
  assumes "tables_ok db"
  shows "find (has_key repo c) (t_changesets db) = Some r \<longleftrightarrow> r \<in> set (t_changesets db) \<and> has_key repo c r"
proof
  assume r: "r \<in> set (t_changesets db) \<and> has_key repo c r"
  then have "r \<in> set (filter (\<lambda>r. row_repo r = repo \<and> row_cs r = c) (t_changesets db))"
    by (simp add: has_key_def)
  then show "find (has_key repo c) (t_changesets db) = Some r"
    unfolding tables_ok_filter [OF assms] by (auto split: option.splits)
qed (auto simp: find_Some_iff)

lemma view_None_iff: "view db repo c = None \<longleftrightarrow> (\<forall>r \<in> set (t_changesets db). \<not> has_key repo c r)"
  by (auto simp: view_def find_None_iff)

lemma view_Some_iff:
  assumes "tables_ok db"
  shows "view db repo c = Some (ps, g) \<longleftrightarrow>
     (\<exists>r \<in> set (t_changesets db). has_key repo c r \<and> ps = row_parents db r \<and> g = row_gen r)"
  using find_key_iff [OF assms] by (fastforce simp: view_def)

lemma store_gen_view:
  assumes "tables_ok db" "r \<in> set (t_changesets db)" "has_key repo c r"
  shows "store_gen (view db) repo c = row_gen r"
proof -
  have "view db repo c = Some (row_parents db r, row_gen r)" using assms by (auto simp: view_Some_iff)
  then show ?thesis by (simp add: store_gen_def)
qed

lemma check_missing_rows_view:
  "check_missing_rows ps (SelectChangesets db repo ps) =
     (let missing = missing_parents (view db) repo ps
      in if missing = {} then Inr () else Inl (MissingParents missing))"
proof -
  have "set ps - set (map (fst \<circ> snd) (SelectChangesets db repo ps)) = missing_parents (view db) repo ps"
    by (auto simp: missing_parents_def SelectChangesets_def view_None_iff has_key_def image_iff)
  then show ?thesis by (simp add: check_missing_rows_def Let_def)
qed

lemma SelectChangesets_gens:
  assumes "tables_ok db" "\<forall>p \<in> set ps. view db repo p \<noteq> None"
  shows "fold max (map (snd \<circ> snd) (SelectChangesets db repo ps)) 0 + 1
     = Suc (Max (insert 0 (store_gen (view db) repo ` set ps)))"
proof -
  have "set (map (snd \<circ> snd) (SelectChangesets db repo ps)) = store_gen (view db) repo ` set ps"
  proof -
    have "\<exists>r \<in> set (t_changesets db). has_key repo p r \<and> store_gen (view db) repo p = row_gen r"
      if "p \<in> set ps" for p
      using assms(2) that store_gen_view [OF assms(1)] by (force simp: view_None_iff)
    moreover have "row_gen r = store_gen (view db) repo (row_cs r)"
      if "r \<in> set (t_changesets db)" "row_repo r = repo" for r
      using store_gen_view [OF assms(1) that(1), of repo "row_cs r"] that(2) by (simp add: has_key_def)
    ultimately show ?thesis
      by (fastforce simp: SelectChangesets_def has_key_def image_iff)
  qed
  then show ?thesis using Max.set_eq_fold [of 0 "map (snd \<circ> snd) (SelectChangesets db repo ps)"] by simp
qed

lemma parent_map_row:
  assumes "tables_ok db" "p \<in> set ps" "r \<in> set (t_changesets db)" "has_key repo p r"
  shows "parent_map (SelectChangesets db repo ps) p = Some (row_id r)"
proof -
  let ?l = "rev (map (\<lambda>(i, c, g). (c, i)) (SelectChangesets db repo ps))"
  have "(p, row_id r) \<in> set ?l" using assms(2-4) by (force simp: SelectChangesets_def has_key_def)
  moreover have "i = row_id r" if "(p, i) \<in> set ?l" for i
  proof -
    from that obtain q where "q \<in> set (t_changesets db)" "has_key repo p q" "i = row_id q"
      by (auto simp: SelectChangesets_def has_key_def)
    then show ?thesis using find_key_iff [OF assms(1)] assms(3,4) by (metis option.inject)
  qed
  moreover obtain i where "map_of ?l p = Some i" using calculation(1) weak_map_of_SomeI by fast
  ultimately show ?thesis using map_of_SomeD [of ?l p i] by (simp add: parent_map_def)
qed

text \<open>The database after a changeset has been inserted, and what it represents.\<close>

definition inserted :: "'c changesets_db \<Rightarrow> int \<Rightarrow> 'c \<Rightarrow> nat \<Rightarrow> nat list \<Rightarrow> 'c changesets_db" where
  "inserted db repo c g pids =
     \<lparr>t_changesets = t_changesets db @ [\<lparr>row_id = next_id db, row_repo = repo, row_cs = c, row_gen = g\<rparr>],
      t_csparents = t_csparents db @
        map (\<lambda>(i, p). \<lparr>p_cs_id = next_id db, p_parent_id = p, p_seq = i\<rparr>) (zip [0..<length pids] pids),
      next_id = next_id db + 1\<rparr>"

lemma inserted_tables_ok:
  assumes "tables_ok db" "view db repo c = None" "\<forall>i \<in> set pids. i < next_id db"
  shows "tables_ok (inserted db repo c g pids)"
  using assms
  by (fastforce simp: tables_ok_def inserted_def view_None_iff has_key_def dest: set_zip_rightD)

lemma inserted_old_join:
  assumes "tables_ok db" "r \<in> set (t_changesets db)"
  shows "parent_join (inserted db repo c g pids) r = parent_join db r"
proof -
  have "row_id r \<noteq> next_id db" using assms by (auto simp: tables_ok_def)
  then have "filter (\<lambda>p. p_cs_id p = row_id r) (t_csparents (inserted db repo c g pids))
      = filter (\<lambda>p. p_cs_id p = row_id r) (t_csparents db)"
    by (auto simp: inserted_def filter_empty_conv)
  moreover have "filter (\<lambda>q. row_id q = p_parent_id p) (t_changesets (inserted db repo c g pids))
      = filter (\<lambda>q. row_id q = p_parent_id p) (t_changesets db)" if "p \<in> set (t_csparents db)" for p
    using assms(1) that by (auto simp: tables_ok_def inserted_def)
  ultimately show ?thesis
    by (simp add: parent_join_def) (intro arg_cong [of _ _ concat] map_cong, simp_all)
qed

lemma inserted_new_join:
  assumes "tables_ok db" "set rs \<subseteq> set (t_changesets db)"
  shows "parent_join (inserted db repo c g (map row_id rs))
     \<lparr>row_id = next_id db, row_repo = repo, row_cs = c, row_gen = g\<rparr> = zip [0..<length rs] (map row_cs rs)"
proof -
  let ?db = "inserted db repo c g (map row_id rs)"
  let ?new = "map (\<lambda>(i, r). \<lparr>p_cs_id = next_id db, p_parent_id = row_id r, p_seq = i\<rparr>) (zip [0..<length rs] rs)"
  have "filter (\<lambda>p. p_cs_id p = next_id db) (t_csparents db) = []"
    using assms(1) by (auto simp: tables_ok_def filter_empty_conv)
  moreover have "filter (\<lambda>p. p_cs_id p = next_id db) ?new = ?new"
    by (auto simp: filter_id_conv)
  ultimately have new: "filter (\<lambda>p. p_cs_id p = next_id db) (t_csparents ?db) = ?new"
    by (simp add: inserted_def zip_map2 comp_def case_prod_unfold)
  have row: "filter (\<lambda>q. row_id q = row_id r) (t_changesets ?db) = [r]" if "r \<in> set rs" for r
  proof -
    have "r \<in> set (t_changesets db)" using assms(2) that by auto
    moreover from this have "row_id r < next_id db" "distinct (map row_id (t_changesets db))"
      using assms(1) by (auto simp: tables_ok_def)
    ultimately show ?thesis using filter_key_single [of row_id "t_changesets db" r]
      by (simp add: inserted_def)
  qed
  have "parent_join ?db \<lparr>row_id = next_id db, row_repo = repo, row_cs = c, row_gen = g\<rparr> =
      concat (map (\<lambda>(i, r). map (\<lambda>q. (i, row_cs q)) (filter (\<lambda>q. row_id q = row_id r) (t_changesets ?db)))
        (zip [0..<length rs] rs))"
    by (simp add: parent_join_def new comp_def case_prod_unfold)
  also have "\<dots> = concat (map (\<lambda>(i, r). [(i, row_cs r)]) (zip [0..<length rs] rs))"
    by (intro arg_cong [of _ _ concat] map_cong refl) (auto dest!: set_zip_rightD simp: row)
  finally show ?thesis by (simp add: zip_map2 case_prod_unfold)
qed

lemma inserted_view:
  assumes "tables_ok db" "set rs \<subseteq> set (t_changesets db)" "view db repo c = None"
  shows "view (inserted db repo c g (map row_id rs)) =
     (view db)(repo := (view db repo)(c \<mapsto> (map row_cs rs, g)))"
proof (intro ext)
  fix repo' c'
  let ?db = "inserted db repo c g (map row_id rs)"
  let ?new = "\<lparr>row_id = next_id db, row_repo = repo, row_cs = c, row_gen = g\<rparr>"
  have "row_parents ?db ?new = map row_cs rs"
    unfolding row_parents_def inserted_new_join [OF assms(1,2)]
    by (subst sort_key_id_if_sorted) simp_all
  moreover have "find (has_key repo' c') (t_changesets ?db) =
      (case find (has_key repo' c') (t_changesets db) of
         Some r \<Rightarrow> Some r | None \<Rightarrow> if has_key repo' c' ?new then Some ?new else None)"
  proof -
    have "find P (xs @ [x]) = (case find P xs of Some r \<Rightarrow> Some r | None \<Rightarrow> if P x then Some x else None)"
      for P xs and x :: "'a cs_row" by (induction xs) auto
    then show ?thesis by (simp add: inserted_def)
  qed
  moreover have "row_parents ?db r = row_parents db r" if "r \<in> set (t_changesets db)" for r
    using inserted_old_join [OF assms(1) that] by (simp add: row_parents_def)
  moreover have "r \<in> set (t_changesets db)" if "find (has_key repo' c') (t_changesets db) = Some r" for r
    using that find_key_iff [OF assms(1)] by blast
  ultimately show "view ?db repo' c' = ((view db)(repo := (view db repo)(c \<mapsto> (map row_cs rs, g)))) repo' c'"
    using assms(3)
    by (cases "find (has_key repo' c') (t_changesets db)") (auto simp: view_def has_key_def)
qed

lemma present_rows:
  assumes "tables_ok db" "\<forall>p \<in> set ps. view db repo p \<noteq> None"
  obtains rs where "map row_cs rs = ps" "set rs \<subseteq> {r \<in> set (t_changesets db). row_repo r = repo}"
    "map row_id rs = map (\<lambda>p. the (parent_map (SelectChangesets db repo ps) p)) ps"
    "\<forall>p \<in> set ps. parent_map (SelectChangesets db repo ps) p \<noteq> None"
proof -
  have "\<exists>r \<in> set (t_changesets db). has_key repo p r" if "p \<in> set ps" for p
    using assms(2) that by (auto simp: view_None_iff)
  then obtain f where f: "\<And>p. p \<in> set ps \<Longrightarrow> f p \<in> set (t_changesets db) \<and> has_key repo p (f p)" by metis
  have "parent_map (SelectChangesets db repo ps) p = Some (row_id (f p))" if "p \<in> set ps" for p
    using parent_map_row [OF assms(1) that] f [OF that] by blast
  with f show thesis
    by (intro that [of "map f ps"]) (auto simp: has_key_def intro: map_idI)
qed

lemma insert_parents_ok:
  fixes ps :: "'c list"
  assumes "\<forall>p \<in> set ps. parent_map rows p \<noteq> None"
  shows "insert_parents db i ps rows = Inr (InsertParents db
     (map (\<lambda>(s, p). \<lparr>p_cs_id = i, p_parent_id = p, p_seq = s\<rparr>)
       (zip [0..<length ps] (map (\<lambda>p. the (parent_map rows p)) ps))))"
proof -
  have "collect_ok (\<lambda>(seq, parent). case parent_map rows parent of
            None \<Rightarrow> Inl (Panicked ''check_missing_rows check failed'' :: 'c changesets_error)
          | Some parent_id \<Rightarrow> Inr \<lparr>p_cs_id = i, p_parent_id = parent_id, p_seq = seq\<rparr>)
         (zip [0..<length ps] ps)
      = Inr (map (\<lambda>(s, p). \<lparr>p_cs_id = i, p_parent_id = the (parent_map rows p), p_seq = s\<rparr>)
         (zip [0..<length ps] ps))"
    using assms by (intro collect_ok_Inr) (auto dest!: set_zip_rightD)
  then show ?thesis unfolding insert_parents_def by (simp add: zip_map2 comp_def case_prod_unfold)
qed

text \<open>\<open>add\<close> on the tables is \<open>store_add\<close> on what they represent.\<close>

lemma changesets_add_refines:
  assumes "tables_ok db" "changesets_add db cs = (res, db')"
  shows "tables_ok db' \<and> store_add (view db) cs = (res, view db')"
proof -
  let ?repo = "ci_repo_id cs" and ?c = "ci_cs_id cs" and ?ps = "ci_parents cs"
  let ?rows = "SelectChangesets db ?repo ?ps"
  have rows: "(if ?ps = [] then [] else ?rows) = ?rows" by (simp add: SelectChangesets_def)
  let ?missing = "missing_parents (view db) ?repo ?ps"
  show ?thesis
  proof (cases "?missing = {}")
    case False
    then show ?thesis
      using assms by (auto simp: changesets_add_def rows check_missing_rows_view store_add_def Let_def)
  next
    case True
    then have present: "\<forall>p \<in> set ?ps. view db ?repo p \<noteq> None" by (auto simp: missing_parents_def)
    let ?gen = "Suc (Max (insert 0 (store_gen (view db) ?repo ` set ?ps)))"
    have gen: "fold max (map (snd \<circ> snd) ?rows) 0 + 1 = ?gen"
      by (rule SelectChangesets_gens [OF assms(1) present])
    show ?thesis
    proof (cases "view db ?repo ?c")
      case (Some e)
      then obtain r where "r \<in> set (t_changesets db)" "row_repo r = ?repo" "row_cs r = ?c"
        by (metis has_key_def option.distinct(1) view_None_iff)
      then have "InsertChangeset db ?repo ?c ?gen = (db, None)" by (auto simp: InsertChangeset_def)
      then show ?thesis
        using assms True Some gen
        by (auto simp: changesets_add_def rows check_missing_rows_view store_add_def Let_def
            check_changeset_matches_def select_changeset_view split: prod.splits)
    next
      case None
      obtain rs where rs: "map row_cs rs = ?ps" "set rs \<subseteq> {r \<in> set (t_changesets db). row_repo r = ?repo}"
          "map row_id rs = map (\<lambda>p. the (parent_map ?rows p)) ?ps"
          "\<forall>p \<in> set ?ps. parent_map ?rows p \<noteq> None"
        by (rule present_rows [OF assms(1) present])
      have "\<not> (\<exists>r \<in> set (t_changesets db). row_repo r = ?repo \<and> row_cs r = ?c)"
        using None by (auto simp: view_None_iff has_key_def)
      then have "InsertChangeset db ?repo ?c ?gen =
          (db\<lparr>t_changesets := t_changesets db @
             [\<lparr>row_id = next_id db, row_repo = ?repo, row_cs = ?c, row_gen = ?gen\<rparr>],
             next_id := next_id db + 1\<rparr>, Some (next_id db))"
        unfolding InsertChangeset_def by (simp only: if_False)
      then have "changesets_add db cs = (Inr True, inserted db ?repo ?c ?gen (map row_id rs))"
        using True gen insert_parents_ok [OF rs(4)] rs(3)
        by (simp add: changesets_add_def rows check_missing_rows_view Let_def inserted_def InsertParents_def)
      moreover have "tables_ok (inserted db ?repo ?c ?gen (map row_id rs))"
        using assms(1) None rs(2) by (intro inserted_tables_ok) (auto simp: tables_ok_def)
      moreover have "set rs \<subseteq> set (t_changesets db)" using rs(2) by auto
      ultimately show ?thesis
        using assms True None inserted_view [OF assms(1), of rs ?repo ?c ?gen] rs(1)
        by (auto simp: store_add_def Let_def)
    qed
  qed
qed

lemma add_unchanged: "changesets_add db cs = (Inr False, db') \<Longrightarrow> db' = db"
  by (auto simp: changesets_add_def Let_def split: sum.splits prod.splits option.splits)

section \<open>The invariant\<close>

lemma store_gen_update:
  "p \<noteq> c \<Longrightarrow> store_gen (s(repo := (s repo)(c \<mapsto> e))) repo p = store_gen s repo p"
  by (simp add: store_gen_def)

lemma store_ok_update:
  assumes "store_ok s" "s repo c = None" "\<forall>p \<in> set ps. s repo p \<noteq> None"
  shows "store_ok (s(repo := (s repo)(c \<mapsto> (ps, Suc (Max (insert 0 (store_gen s repo ` set ps)))))))"
    (is "store_ok ?s")
proof -
  have gen: "store_gen ?s repo' ` set qs = store_gen s repo' ` set qs"
    if "\<forall>p \<in> set qs. s repo' p \<noteq> None" for repo' qs
  proof (rule image_cong [OF refl])
    fix p
    assume "p \<in> set qs"
    then have "repo' = repo \<Longrightarrow> p \<noteq> c" using that assms(2) by auto
    then show "store_gen ?s repo' p = store_gen s repo' p" by (auto simp: store_gen_def)
  qed
  have "(\<forall>p \<in> set qs. ?s repo' p \<noteq> None) \<and> g = Suc (Max (insert 0 (store_gen ?s repo' ` set qs)))"
    if e: "?s repo' d = Some (qs, g)" for repo' d qs g
  proof (cases "repo' = repo \<and> d = c")
    case True
    then show ?thesis using e assms(3) gen [of ps repo] by auto
  next
    case False
    then have "s repo' d = Some (qs, g)" using e by (auto split: if_splits)
    then show ?thesis using assms(1) gen [of qs repo'] by (auto simp: store_ok_def)
  qed
  then show ?thesis unfolding store_ok_def by blast
qed

lemma store_add_ok:
  assumes "store_ok s" "store_add s cs = (res, s')"
  shows "store_ok s'"
proof (cases "missing_parents s (ci_repo_id cs) (ci_parents cs) = {} \<and> s (ci_repo_id cs) (ci_cs_id cs) = None")
  case True
  then have "\<forall>p \<in> set (ci_parents cs). s (ci_repo_id cs) p \<noteq> None" by (auto simp: missing_parents_def)
  then show ?thesis
    using assms(2) True store_ok_update [OF assms(1)] by (auto simp: store_add_def Let_def)
next
  case False
  then show ?thesis using assms by (auto simp: store_add_def Let_def split: if_splits option.splits)
qed

lemma store_add_mono:
  "store_add s cs = (res, s') \<Longrightarrow> s repo c = Some e \<Longrightarrow> s' repo c = Some e"
  by (auto simp: store_add_def Let_def split: if_splits option.splits)

lemma store_add_Inr:
  "store_add s cs = (Inr b, s') \<Longrightarrow> \<exists>g. s' (ci_repo_id cs) (ci_cs_id cs) = Some (ci_parents cs, g)"
  by (auto simp: store_add_def Let_def split: if_splits option.splits)

lemma store_add_False:
  assumes "db_ok db" "store_add (view db) cs = (Inr False, view db)"
  shows "changesets_add db cs = (Inr False, db)"
proof -
  obtain r db2 where r: "changesets_add db cs = (r, db2)" by fastforce
  moreover have "store_add (view db) cs = (r, view db2)"
    using changesets_add_refines [OF _ r] assms(1) by (simp add: db_ok_def)
  ultimately show ?thesis using assms(2) add_unchanged [of db cs db2] by simp
qed

lemma db_ok_empty: "db_ok empty_db"
  by (simp add: db_ok_def tables_ok_def empty_db_def store_ok_def view_def)

lemma changesets_add_ok: "db_ok db \<Longrightarrow> changesets_add db cs = (res, db') \<Longrightarrow> db_ok db'"
  using changesets_add_refines store_add_ok unfolding db_ok_def by blast

text \<open>A sequence of calls of \<open>add\<close>, whatever they return.\<close>

inductive adds :: "'c changesets_db \<Rightarrow> 'c changesets_db \<Rightarrow> bool" where
  adds_refl: "adds db db"
| adds_step: "adds db db' \<Longrightarrow> changesets_add db' cs = (res, db'') \<Longrightarrow> adds db db''"

inductive_cases adds_cases: "adds db db'"

lemma adds_ok: "adds db db' \<Longrightarrow> db_ok db \<Longrightarrow> db_ok db'"
  by (induction rule: adds.induct) (auto intro: changesets_add_ok)

lemma adds_view: "adds db db' \<Longrightarrow> db_ok db \<Longrightarrow> view db repo c = Some e \<Longrightarrow> view db' repo c = Some e"
proof (induction rule: adds.induct)
  case (adds_step db db' cs res db'')
  then have "tables_ok db'" using adds_ok unfolding db_ok_def by blast
  from changesets_add_refines [OF this adds_step.hyps(2)]
  have "store_add (view db') cs = (res, view db'')" by simp
  then show ?case by (rule store_add_mono) (use adds_step in simp)
qed

section \<open>Reading\<close>

definition entry_of :: "int \<Rightarrow> 'c \<Rightarrow> 'c list \<times> nat \<Rightarrow> 'c ChangesetEntry" where
  "entry_of repo c e = \<lparr>ce_repo_id = repo, ce_cs_id = c, ce_parents = fst e, ce_gen = snd e\<rparr>"

lemma select_changeset_entry: "tables_ok db \<Longrightarrow> select_changeset db repo c = map_option (entry_of repo c) (view db repo c)"
  by (simp add: select_changeset_view entry_of_def [abs_def] case_prod_unfold)

lemma changesets_get_view:
  assumes "db_ok replica" "adds replica master"
  shows "changesets_get replica master repo c = map_option (entry_of repo c) (view master repo c)"
proof -
  have "tables_ok replica" "tables_ok master" using assms adds_ok unfolding db_ok_def by blast+
  then show ?thesis
    using adds_view [OF assms(2,1)]
    by (auto simp: changesets_get_def select_changeset_entry split: option.splits)
qed

definition lookup_entry :: "'c \<Rightarrow> 'c ChangesetEntry list \<Rightarrow> 'c ChangesetEntry option" where
  "lookup_entry c es = find (\<lambda>e. ce_cs_id e = c) es"

lemma lookup_extend:
  "lookup_entry d (extend_entry repo c g mp es) =
     (if d = c then Some (case lookup_entry c es of
         Some e \<Rightarrow> e\<lparr>ce_parents := ce_parents e @ (case mp of None \<Rightarrow> [] | Some p \<Rightarrow> [p])\<rparr>
       | None \<Rightarrow> \<lparr>ce_repo_id = repo, ce_cs_id = c,
            ce_parents = (case mp of None \<Rightarrow> [] | Some p \<Rightarrow> [p]), ce_gen = g\<rparr>)
      else lookup_entry d es)"
  by (induction es) (auto simp: lookup_entry_def)

lemma lookup_fold_extend:
  "lookup_entry c (fold (\<lambda>(c, g, mp). extend_entry repo c g mp) rows es) =
     (let rs = filter (\<lambda>(c', g, mp). c' = c) rows; ps = List.map_filter (snd \<circ> snd) rs in
      case lookup_entry c es of
        Some e \<Rightarrow> Some (e\<lparr>ce_parents := ce_parents e @ ps\<rparr>)
      | None \<Rightarrow> (case rs of [] \<Rightarrow> None
         | (c', g, mp) # _ \<Rightarrow> Some \<lparr>ce_repo_id = repo, ce_cs_id = c, ce_parents = ps, ce_gen = g\<rparr>))"
proof (induction rows arbitrary: es)
  case Nil
  then show ?case by (simp add: List.map_filter_simps split: option.splits)
next
  case (Cons row rows)
  obtain c' g mp where row: "row = (c', g, mp)" by (cases row)
  show ?case
    using Cons.IH [of "extend_entry repo c' g mp es"]
    by (cases mp; cases "lookup_entry c es") (auto simp: row Let_def lookup_extend List.map_filter_simps)
qed

lemma extend_ids:
  "map ce_cs_id (extend_entry repo c g mp es) =
     (if c \<in> ce_cs_id ` set es then map ce_cs_id es else map ce_cs_id es @ [c])"
  by (induction es) auto

lemma fold_extend_distinct:
  "distinct (map ce_cs_id es) \<Longrightarrow>
     distinct (map ce_cs_id (fold (\<lambda>(c, g, mp). extend_entry repo c g mp) rows es))"
  by (induction rows arbitrary: es) (auto simp: extend_ids)

lemma left_join_row: "x \<in> set (left_join db rows) \<Longrightarrow> fst x \<in> set rows"
proof (induction rows)
  case (Cons r rows)
  then show ?case by (cases "parent_join db r") (auto simp: left_join_def)
qed (simp add: left_join_def)

lemma filter_SelectMany:
  "filter (\<lambda>(c', g, mp). c' = c) (SelectManyChangesets db repo cs_ids) =
     (if c \<in> set cs_ids then map (\<lambda>(g, mp). (c, g, mp)) (SelectChangeset db repo c) else [])"
proof -
  have lj: "filter (\<lambda>(r, j). row_cs r = c) (left_join db rows) = left_join db (filter (\<lambda>r. row_cs r = c) rows)"
    for rows
  proof (induction rows)
    case (Cons r rows)
    then show ?case by (cases "parent_join db r") (auto simp: left_join_def filter_empty_conv filter_id_conv)
  qed (simp add: left_join_def)
  let ?key = "\<lambda>r. row_repo r = repo \<and> row_cs r \<in> set cs_ids \<and> row_cs r = c"
  let ?rows = "order_by_seq (left_join db (filter ?key (t_changesets db)))"
  have eq: "filter (\<lambda>(c', g, mp). c' = c) (SelectManyChangesets db repo cs_ids) =
      map (\<lambda>(r, j). (row_cs r, row_gen r, map_option snd j)) ?rows"
    by (simp add: SelectManyChangesets_def filter_map comp_def case_prod_unfold order_by_seq_def filter_sort)
       (simp add: lj [unfolded case_prod_unfold] case_prod_unfold)
  have row: "row_cs (fst x) = c" if "x \<in> set ?rows" for x
    using that left_join_row [of x db "filter ?key (t_changesets db)"] by (simp add: order_by_seq_def)
  show ?thesis
  proof (cases "c \<in> set cs_ids")
    case True
    then have "filter ?key (t_changesets db) = filter (\<lambda>r. row_repo r = repo \<and> row_cs r = c) (t_changesets db)"
      by (intro filter_cong) auto
    then show ?thesis
      using True row eq by (auto simp: SelectChangeset_def case_prod_unfold intro!: map_cong)
  next
    case False
    then have "filter ?key (t_changesets db) = []" by (auto simp: filter_empty_conv)
    then show ?thesis using False eq by (simp add: left_join_def order_by_seq_def)
  qed
qed

lemma lookup_select_many:
  fixes c :: 'c
  shows "lookup_entry c (select_many_changesets db repo cs_ids) =
     (if c \<in> set cs_ids then select_changeset db repo c else None)"
proof (cases "c \<in> set cs_ids")
  case True
  have "List.map_filter (snd \<circ> snd) (map (\<lambda>(g, mp). (c, g, mp)) xs) = List.map_filter snd xs"
    for xs :: "(nat \<times> 'c option) list"
    by (induction xs) (auto simp: List.map_filter_simps split: option.splits)
  with True show ?thesis
    unfolding select_many_changesets_def lookup_fold_extend filter_SelectMany
    by (simp add: lookup_entry_def select_changeset_def Let_def case_prod_unfold
        split: list.splits cong: option.case_cong)
next
  case False
  then show ?thesis
    unfolding select_many_changesets_def lookup_fold_extend filter_SelectMany
    by (simp add: lookup_entry_def)
qed

lemma select_many_distinct: "distinct (map ce_cs_id (select_many_changesets db repo cs_ids))"
  unfolding select_many_changesets_def by (rule fold_extend_distinct) simp

lemma lookup_entry_iff:
  assumes "distinct (map ce_cs_id es)"
  shows "e \<in> set es \<longleftrightarrow> lookup_entry (ce_cs_id e) es = Some e"
  using assms filter_key_single [OF assms, of e] filter_key [OF assms, of "ce_cs_id e"]
  by (auto simp: lookup_entry_def find_Some_iff split: option.splits)

lemma changesets_get_many_view:
  assumes "db_ok replica" "adds replica master"
  shows "set (changesets_get_many replica master repo cs_ids) =
     {e. \<exists>c \<in> set cs_ids. map_option (entry_of repo c) (view master repo c) = Some e}"
proof -
  have tr: "tables_ok replica" and tm: "tables_ok master" using assms adds_ok unfolding db_ok_def by blast+
  let ?f = "select_many_changesets replica repo cs_ids"
  let ?n = "filter (\<lambda>c. c \<notin> set (map ce_cs_id ?f)) cs_ids"
  have many: "set (select_many_changesets db repo ids) =
      {e. \<exists>c \<in> set ids. map_option (entry_of repo c) (view db repo c) = Some e}" if "tables_ok db" for db ids
    using that by (auto simp: lookup_entry_iff [OF select_many_distinct] lookup_select_many
        select_changeset_entry entry_of_def split: if_splits)
  have found: "c \<in> set (map ce_cs_id ?f) \<longleftrightarrow> view replica repo c \<noteq> None" if "c \<in> set cs_ids" for c
    using that by (force simp: many [OF tr] entry_of_def image_iff)
  have "set (changesets_get_many replica master repo cs_ids) =
      set ?f \<union> set (select_many_changesets master repo ?n)"
  proof (cases "?n = []")
    case True
    moreover have "select_many_changesets replica repo [] = []" using many [OF tr, of "[]"] by simp
    ultimately show ?thesis
      using many [OF tm, of "[]"] by (auto simp: changesets_get_many_def Let_def simp del: filter_empty_conv)
  next
    case False
    then have "cs_ids \<noteq> []" by auto
    with False show ?thesis by (auto simp: changesets_get_many_def Let_def)
  qed
  also have "\<dots> = {e. \<exists>c \<in> set cs_ids. map_option (entry_of repo c) (view master repo c) = Some e}"
    using found adds_view [OF assms(2,1), of repo] unfolding many [OF tr] many [OF tm]
    by (auto; metis option.distinct(1) option.inject)
  finally show ?thesis .
qed

section \<open>Properties\<close>

text \<open>C3: \<open>SqlChangesets::add\<close> implements the contract of the store. On tables that satisfy the
  invariant it keeps the invariant, so that every generation number stays one more than the
  largest of the parents', and its result and effect are those of \<open>store_add\<close>: a changeset with
  unknown parents is refused with exactly the missing ones, a known changeset is confirmed or
  refused as inconsistent, a new one is recorded with its parents in order. It never panics.\<close>

theorem changesets_add_correct:
  assumes "db_ok db" and "changesets_add db cs = (res, db')"
  shows "db_ok db' \<and> store_add (view db) cs = (res, view db') \<and> (\<forall>m. res \<noteq> Inl (Panicked m))"
proof -
  have "store_add (view db) cs = (res, view db')"
    using changesets_add_refines assms unfolding db_ok_def by blast
  moreover have "res \<noteq> Inl (Panicked m)" for m
    using calculation by (auto simp: store_add_def Let_def split: if_splits option.splits)
  ultimately show ?thesis using changesets_add_ok [OF assms] by blast
qed

theorem changesets_add_correct_witness:
  "db_ok (snd (changesets_add empty_db \<lparr>ci_repo_id = 0, ci_cs_id = 7 :: nat, ci_parents = []\<rparr>))"
  using changesets_add_correct [OF db_ok_empty prod.collapse [symmetric]] by blast

text \<open>C4: reads through a replica that lags behind are as good as reads of the master. When the
  replica is an earlier state of the master, \<open>get\<close> returns the entry the master holds and
  \<open>get_many\<close> the entries of exactly the requested changesets that the master holds.\<close>

theorem changesets_reads_correct:
  assumes "db_ok replica" and "adds replica master"
  shows "changesets_get replica master repo c = map_option (entry_of repo c) (view master repo c) \<and>
     set (changesets_get_many replica master repo cs_ids) =
       {e. \<exists>c \<in> set cs_ids. map_option (entry_of repo c) (view master repo c) = Some e}"
  using changesets_get_view [OF assms] changesets_get_many_view [OF assms] by blast

theorem changesets_reads_correct_witness:
  "let master = snd (changesets_add empty_db \<lparr>ci_repo_id = 0, ci_cs_id = 7 :: nat, ci_parents = []\<rparr>)
   in changesets_get empty_db master 0 7
      = Some \<lparr>ce_repo_id = 0, ce_cs_id = 7, ce_parents = [], ce_gen = 1\<rparr>"
proof -
  let ?m = "snd (changesets_add empty_db \<lparr>ci_repo_id = 0, ci_cs_id = 7 :: nat, ci_parents = []\<rparr>)"
  have "adds empty_db ?m" by (rule adds_step [OF adds_refl prod.collapse [symmetric]])
  from changesets_reads_correct [OF db_ok_empty this, of 0 7 "[]"]
  have "changesets_get empty_db ?m 0 7 = map_option (entry_of 0 7) (view ?m 0 7)" by blast
  also have "\<dots> = Some \<lparr>ce_repo_id = 0, ce_cs_id = 7, ce_parents = [], ce_gen = 1\<rparr>"
    by (simp add: changesets_add_def check_missing_rows_def InsertChangeset_def insert_parents_def
        InsertParents_def empty_db_def view_def has_key_def row_parents_def parent_join_def entry_of_def)
  finally show ?thesis by simp
qed



text \<open>C6: entries survive serialization: for hashes of 32 bytes and generation numbers of 64 bits,
  \<open>deserialize_cs_entries\<close> inverts \<open>serialize_cs_entries\<close>, although the generation number travels
  as a signed integer, and \<open>ChangesetEntry::from_thrift\<close> inverts \<open>into_thrift\<close>.\<close>

theorem cs_entries_roundtrip:
  assumes "\<forall>e \<in> set es. cs_ok (ce_cs_id e) \<and> (\<forall>p \<in> set (ce_parents e). cs_ok p) \<and> ce_gen e < 2 ^ 64"
    and "de (ser (map entry_into_thrift es)) = Some (map entry_into_thrift es)"
  shows "deserialize_cs_entries de (serialize_cs_entries ser es) = Inr es \<and>
     (\<forall>e \<in> set es. entry_from_thrift (entry_into_thrift e) = Inr e)"
proof -
  have gen: "nat (te_gen (entry_into_thrift e) mod 2 ^ 64) = ce_gen e" if "e \<in> set es" for e
  proof -
    have "signed_take_bit 63 (int (ce_gen e)) mod 2 ^ 64 = int (ce_gen e) mod 2 ^ 64"
      using take_bit_signed_take_bit [of 64 63 "int (ce_gen e)"] by (simp add: take_bit_eq_mod)
    moreover have "int (ce_gen e) mod 2 ^ 64 = int (ce_gen e)" using assms(1) that by auto
    ultimately show ?thesis by (simp add: entry_into_thrift_def)
  qed
  have cs: "ChangesetId_from_thrift (te_cs_id (entry_into_thrift e)) = Inr (ce_cs_id e)" if "e \<in> set es" for e
    using assms(1) that by (simp add: entry_into_thrift_def ChangesetId_thrift_roundtrip)
  have ps: "collect_ok ChangesetId_from_thrift (te_parents (entry_into_thrift e)) = Inr (map id (ce_parents e))"
    if "e \<in> set es" for e
    using assms(1) that unfolding entry_into_thrift_def
    by (simp only: collect_ok_map thrift_ChangesetEntry.simps)
       (rule collect_ok_Inr, simp add: ChangesetId_thrift_roundtrip)
  have "te_repo_id (entry_into_thrift e) = ce_repo_id e" for e by (simp add: entry_into_thrift_def)
  then have one: "entry_from_thrift (entry_into_thrift e) = Inr e" if "e \<in> set es" for e
    using gen [OF that] cs [OF that] ps [OF that] by (simp add: entry_from_thrift_def)
  have "deserialize_cs_entries de (serialize_cs_entries ser es) = Inr (map id es)"
    unfolding deserialize_cs_entries_def serialize_cs_entries_def assms(2)
    by (simp only: option.case collect_ok_map)
       (rule collect_ok_Inr, use gen cs ps in \<open>simp add: \<open>\<And>e. te_repo_id (entry_into_thrift e) = ce_repo_id e\<close>\<close>)
  with one show ?thesis by simp
qed

theorem cs_entries_roundtrip_witness:
  "let e = \<lparr>ce_repo_id = 1, ce_cs_id = ChangesetId (Blake2 (replicate 32 7)), ce_parents = [], ce_gen = 2 ^ 63\<rparr>
   in entry_from_thrift (entry_into_thrift e) = Inr e"
  using cs_entries_roundtrip [of "[\<lparr>ce_repo_id = 1, ce_cs_id = ChangesetId (Blake2 (replicate 32 7)),
      ce_parents = [], ce_gen = 2 ^ 63\<rparr>]" "\<lambda>_. Some (map entry_into_thrift [\<lparr>ce_repo_id = 1,
      ce_cs_id = ChangesetId (Blake2 (replicate 32 7)), ce_parents = [], ce_gen = 2 ^ 63\<rparr>])" "\<lambda>_. []"]
  by (simp add: blake2_ok_def)

end
