(* ===== verification/Node_Streams.thy ===== *)
theory Node_Streams
  imports Changesets
begin

text \<open>
  Revset streams: \<open>src/revset/src/setcommon.rs\<close>, \<open>unionnodestream.rs\<close>, \<open>intersectnodestream.rs\<close>,
  \<open>setdifferencenodestream.rs\<close>, \<open>validation.rs\<close> and \<open>errors.rs\<close>.

  A stream of the futures library is what its polls return: an input is the list of the outcomes
  of its polls, \<open>Pending\<close> (not ready) as often as it likes, items, and possibly a failure; at the
  end of the list it is finished. A stream of the revsets is a state and the body of the loop of
  its \<open>poll\<close>; \<open>drive\<close> is an executor that polls it until it has finished, so that the loop of
  \<open>poll\<close> and the loop of the executor are one loop. The order in which a \<open>HashSet\<close> or \<open>HashMap\<close>
  is drained is the argument \<open>ho\<close>.
\<close>

section \<open>Polling\<close>

text \<open>The errors that concern changesets; the two of \<open>errors.rs\<close> that name Mercurial hashes do not arise
  in these streams. \<open>AssertionFailed\<close> is a panic of \<open>assert!\<close>.\<close>

datatype 'c revset_error =
    GenerationFetchFailed "'c changesets_error"
  | ParentsFetchFailed "'c changesets_error"
  | RepoChangesetError 'c
  | AssertionFailed string

datatype ('a, 'e) poll = NotReady | Ready "'a option" | Failed 'e

datatype ('a, 'e) event = Pending | Item 'a | Fail 'e

type_synonym ('a, 'e) input = "('a, 'e) event list"

fun poll_input :: "('a, 'e) input \<Rightarrow> ('a, 'e) poll \<times> ('a, 'e) input" where
  "poll_input [] = (Ready None, [])"
| "poll_input (Pending # s) = (NotReady, s)"
| "poll_input (Item x # s) = (Ready (Some x), s)"
| "poll_input (Fail e # s) = (Failed e, s)"

text \<open>\<open>drive n it s\<close>: at most \<open>n\<close> runs of the loop body \<open>it\<close>. The body either goes round again
  (\<open>None\<close>) or returns from \<open>poll\<close>.\<close>

fun drive :: "nat \<Rightarrow> ('s \<Rightarrow> ('a, 'e) poll option \<times> 's) \<Rightarrow> 's \<Rightarrow> ('e + 'a list) option" where
  "drive 0 it s = None"
| "drive (Suc n) it s =
     (case it s of
        (None, s') \<Rightarrow> drive n it s'
      | (Some NotReady, s') \<Rightarrow> drive n it s'
      | (Some (Ready None), s') \<Rightarrow> Some (Inr [])
      | (Some (Ready (Some x)), s') \<Rightarrow> map_option (map_ok ((#) x)) (drive n it s')
      | (Some (Failed e), s') \<Rightarrow> Some (Inl e))"

definition add_generations_by_bonsai ::
    "'c ChangesetFetcher \<Rightarrow> ('c, 'c revset_error) input \<Rightarrow> ('c \<times> nat, 'c revset_error) input" where
  "add_generations_by_bonsai changeset_fetcher stream =
     map (\<lambda>ev. case ev of
         Pending \<Rightarrow> Pending
       | Fail e \<Rightarrow> Fail e
       | Item c \<Rightarrow>
           (case get_generation_number changeset_fetcher c of
              Inr g \<Rightarrow> Item (c, g)
            | Inl e \<Rightarrow> Fail (GenerationFetchFailed e))) stream"

text \<open>An input with the outcome of its last poll.\<close>

type_synonym ('c, 'e) slot = "('c \<times> nat, 'e) input \<times> ('c \<times> nat, 'e) poll"

fun poll_slot :: "('c, 'e) slot \<Rightarrow> ('c, 'e) slot" where
  "poll_slot (input, NotReady) = (case poll_input input of (state, input') \<Rightarrow> (input', state))"
| "poll_slot (input, state) = (input, state)"

definition poll_all_inputs :: "('c, 'e) slot list \<Rightarrow> ('c, 'e) slot list" where
  "poll_all_inputs inputs = map poll_slot inputs"

fun slot_ready :: "('c, 'e) slot \<Rightarrow> bool" where
  "slot_ready (input, Ready x) \<longleftrightarrow> True"
| "slot_ready (input, state) \<longleftrightarrow> False"

definition all_inputs_ready :: "('c, 'e) slot list \<Rightarrow> bool" where
  "all_inputs_ready inputs \<longleftrightarrow> list_all slot_ready inputs"

fun slot_error :: "('c, 'e) slot \<Rightarrow> 'e option" where
  "slot_error (input, Failed e) = Some e"
| "slot_error (input, state) = None"

definition first_error :: "('c, 'e) slot list \<Rightarrow> 'e option" where
  "first_error inputs =
     (case List.map_filter slot_error inputs of [] \<Rightarrow> None | e # _ \<Rightarrow> Some e)"

fun slot_head :: "('c, 'e) slot \<Rightarrow> ('c \<times> nat) option" where
  "slot_head (input, Ready (Some x)) = Some x"
| "slot_head (input, state) = None"

definition slot_finished :: "('c, 'e) slot \<Rightarrow> bool" where
  "slot_finished s \<longleftrightarrow> (case snd s of Ready None \<Rightarrow> True | _ \<Rightarrow> False)"

section \<open>Union\<close>

record ('c, 'e) UnionNodeStream =
  u_inputs :: "('c, 'e) slot list"
  u_current_generation :: "nat option"
  u_accumulator :: "'c set"
  u_drain :: "'c list option"

definition union_new ::
    "'c ChangesetFetcher \<Rightarrow> ('c, 'c revset_error) input list \<Rightarrow> ('c, 'c revset_error) UnionNodeStream" where
  "union_new changeset_fetcher inputs =
     \<lparr>u_inputs = map (\<lambda>i. (add_generations_by_bonsai changeset_fetcher i, NotReady)) inputs,
      u_current_generation = None, u_accumulator = {}, u_drain = None\<rparr>"

definition gc_finished_inputs :: "('c, 'e) UnionNodeStream \<Rightarrow> ('c, 'e) UnionNodeStream" where
  "gc_finished_inputs s = s\<lparr>u_inputs := filter (\<lambda>i. \<not> slot_finished i) (u_inputs s)\<rparr>"

definition maximum :: "nat list \<Rightarrow> nat option" where
  "maximum xs = (case xs of [] \<Rightarrow> None | y # ys \<Rightarrow> Some (fold max ys y))"

definition minimum :: "nat list \<Rightarrow> nat option" where
  "minimum xs = (case xs of [] \<Rightarrow> None | y # ys \<Rightarrow> Some (fold min ys y))"

definition union_update_current_generation :: "('c, 'e) UnionNodeStream \<Rightarrow> ('c, 'e) UnionNodeStream" where
  "union_update_current_generation s =
     (if all_inputs_ready (u_inputs s)
      then s\<lparr>u_current_generation := maximum (map snd (List.map_filter slot_head (u_inputs s)))\<rparr>
      else s)"

text \<open>The inputs whose head has the current generation are consumed.\<close>

definition consume_slot :: "('c \<times> nat \<Rightarrow> bool) \<Rightarrow> ('c, 'e) slot \<Rightarrow> ('c, 'e) slot" where
  "consume_slot P s =
     (case slot_head s of
        Some x \<Rightarrow> if P x then (fst s, NotReady) else s
      | None \<Rightarrow> s)"

definition union_accumulate_nodes :: "('c, 'e) UnionNodeStream \<Rightarrow> ('c, 'e) UnionNodeStream" where
  "union_accumulate_nodes s =
     (let found = filter (\<lambda>(csid, gen_id). Some gen_id = u_current_generation s)
                    (List.map_filter slot_head (u_inputs s))
      in s\<lparr>u_inputs := map (consume_slot (\<lambda>(csid, gen_id). Some gen_id = u_current_generation s)) (u_inputs s),
           u_accumulator := u_accumulator s \<union> fst ` set found,
           u_current_generation := if found = [] then None else u_current_generation s\<rparr>)"

definition union_iter ::
    "('c set \<Rightarrow> 'c list) \<Rightarrow> ('c, 'e) UnionNodeStream \<Rightarrow> ('c, 'e) poll option \<times> ('c, 'e) UnionNodeStream" where
  "union_iter ho s0 =
     (let s = s0\<lparr>u_inputs := poll_all_inputs (u_inputs s0)\<rparr> in
      case u_drain s of
        Some (x # d) \<Rightarrow> (Some (Ready (Some x)), s\<lparr>u_drain := Some d\<rparr>)
      | _ \<Rightarrow>
          let s = s\<lparr>u_drain := None\<rparr> in
          (case first_error (u_inputs s) of
             Some e \<Rightarrow> (Some (Failed e), s\<lparr>u_inputs := []\<rparr>)
           | None \<Rightarrow>
               let s = gc_finished_inputs s in
               if \<not> all_inputs_ready (u_inputs s) then (Some NotReady, s)
               else
                 let s = (case u_current_generation s of
                            None \<Rightarrow>
                              if u_accumulator s = {} then union_update_current_generation s
                              else s\<lparr>u_accumulator := {}, u_drain := Some (ho (u_accumulator s))\<rparr>
                          | Some _ \<Rightarrow> union_accumulate_nodes s)
                 in if u_inputs s = [] \<and> u_drain s = None \<and> u_accumulator s = {}
                    then (Some (Ready None), s) else (None, s)))"

section \<open>Intersection\<close>

record ('c, 'e) IntersectNodeStream =
  i_inputs :: "('c, 'e) slot list"
  i_current_generation :: "nat option"
  i_accumulator :: "('c \<times> nat) list"
  i_drain :: "('c \<times> nat) list option"

definition intersect_new ::
    "'c ChangesetFetcher \<Rightarrow> ('c, 'c revset_error) input list \<Rightarrow> ('c, 'c revset_error) IntersectNodeStream" where
  "intersect_new changeset_fetcher inputs =
     \<lparr>i_inputs = map (\<lambda>i. (add_generations_by_bonsai changeset_fetcher i, NotReady)) inputs,
      i_current_generation = None, i_accumulator = [], i_drain = None\<rparr>"

definition intersect_update_current_generation ::
    "('c, 'e) IntersectNodeStream \<Rightarrow> ('c, 'e) IntersectNodeStream" where
  "intersect_update_current_generation s =
     (if all_inputs_ready (i_inputs s)
      then s\<lparr>i_current_generation := minimum (map snd (List.map_filter slot_head (i_inputs s)))\<rparr>
      else s)"

text \<open>The \<open>HashMap\<close> from changesets to counts is an association list.\<close>

fun count_node :: "'c \<Rightarrow> ('c \<times> nat) list \<Rightarrow> ('c \<times> nat) list" where
  "count_node c [] = [(c, 1)]"
| "count_node c ((d, n) # m) = (if c = d then (d, n + 1) # m else (d, n) # count_node c m)"

text \<open>The derived order of \<open>Option\<close> has \<open>None\<close> below every \<open>Some\<close>.\<close>

fun option_ge :: "nat \<Rightarrow> nat option \<Rightarrow> bool" where
  "option_ge g None \<longleftrightarrow> True"
| "option_ge g (Some h) \<longleftrightarrow> h \<le> g"

definition intersect_accumulate_nodes :: "('c, 'e) IntersectNodeStream \<Rightarrow> ('c, 'e) IntersectNodeStream" where
  "intersect_accumulate_nodes s =
     (let heads = List.map_filter slot_head (i_inputs s);
          current = filter (\<lambda>(csid, gen_id). Some gen_id = i_current_generation s) heads;
          found = filter (\<lambda>(csid, gen_id). option_ge gen_id (i_current_generation s)) heads
      in s\<lparr>i_inputs := map (consume_slot (\<lambda>(csid, gen_id). option_ge gen_id (i_current_generation s))) (i_inputs s),
           i_accumulator := fold count_node (map fst current) (i_accumulator s),
           i_current_generation := if found = [] then None else i_current_generation s\<rparr>)"

definition any_input_finished :: "('c, 'e) slot list \<Rightarrow> bool" where
  "any_input_finished inputs \<longleftrightarrow> (if inputs = [] then True else list_ex slot_finished inputs)"

text \<open>The inner loop over the drain: entries counted once per input are returned, the others
  dropped.\<close>

fun drain_next :: "nat \<Rightarrow> ('c \<times> nat) list \<Rightarrow> ('c \<times> ('c \<times> nat) list) option" where
  "drain_next n [] = None"
| "drain_next n ((csid, count) # d) = (if count = n then Some (csid, d) else drain_next n d)"

definition intersect_iter ::
    "(('c \<times> nat) list \<Rightarrow> ('c \<times> nat) list) \<Rightarrow> ('c, 'e) IntersectNodeStream
      \<Rightarrow> ('c, 'e) poll option \<times> ('c, 'e) IntersectNodeStream" where
  "intersect_iter ho s0 =
     (let s = s0\<lparr>i_inputs := poll_all_inputs (i_inputs s0)\<rparr> in
      case (case i_drain s of None \<Rightarrow> None | Some d \<Rightarrow> drain_next (length (i_inputs s)) d) of
        Some (csid, d) \<Rightarrow> (Some (Ready (Some csid)), s\<lparr>i_drain := Some d\<rparr>)
      | None \<Rightarrow>
          let s = s\<lparr>i_drain := None\<rparr> in
          (case first_error (i_inputs s) of
             Some e \<Rightarrow> (Some (Failed e), s\<lparr>i_inputs := []\<rparr>)
           | None \<Rightarrow>
               if \<not> all_inputs_ready (i_inputs s) then (Some NotReady, s)
               else
                 let s = (case i_current_generation s of
                            None \<Rightarrow>
                              if i_accumulator s = [] then intersect_update_current_generation s
                              else s\<lparr>i_accumulator := [], i_drain := Some (ho (i_accumulator s))\<rparr>
                          | Some _ \<Rightarrow> intersect_accumulate_nodes s)
                 in if i_drain s = None \<and> i_accumulator s = [] \<and> any_input_finished (i_inputs s)
                    then (Some (Ready None), s) else (None, s)))"

section \<open>Difference\<close>

record ('c, 'e) SetDifferenceNodeStream =
  keep_input :: "('c \<times> nat, 'e) input"
  next_keep :: "('c \<times> nat) option option"
  remove_input :: "('c \<times> nat, 'e) input"
  next_remove :: "('c \<times> nat) option option"
  remove_nodes :: "'c set"
  remove_generation :: "nat option"

definition difference_new ::
    "'c ChangesetFetcher \<Rightarrow> ('c, 'c revset_error) input \<Rightarrow> ('c, 'c revset_error) input
      \<Rightarrow> ('c, 'c revset_error) SetDifferenceNodeStream" where
  "difference_new changeset_fetcher keep remove =
     \<lparr>keep_input = add_generations_by_bonsai changeset_fetcher keep, next_keep = None,
      remove_input = add_generations_by_bonsai changeset_fetcher remove, next_remove = None,
      remove_nodes = {}, remove_generation = None\<rparr>"

text \<open>\<open>Async<Option<_>>\<close> is an option: \<open>None\<close> is \<open>NotReady\<close>. \<open>poll_async\<close> polls an input unless an
  item is at hand.\<close>

definition poll_async ::
    "('a, 'e) input \<Rightarrow> 'a option option \<Rightarrow> 'e + 'a option option \<times> ('a, 'e) input" where
  "poll_async input nxt =
     (case nxt of
        Some x \<Rightarrow> Inr (Some x, input)
      | None \<Rightarrow>
          (case poll_input input of
             (NotReady, input') \<Rightarrow> Inr (None, input')
           | (Ready x, input') \<Rightarrow> Inr (Some x, input')
           | (Failed e, input') \<Rightarrow> Inl e))"

text \<open>The inner loop: gather the removals of the generation \<open>keep_gen\<close>. It ends because every
  round but the last consumes an event of the input.\<close>

datatype gathered = Waiting | Gathered

function gather_removes ::
    "nat \<Rightarrow> ('c \<times> nat, 'e) input \<Rightarrow> ('c \<times> nat) option option \<Rightarrow> 'c set
      \<Rightarrow> 'e + gathered \<times> ('c \<times> nat, 'e) input \<times> ('c \<times> nat) option option \<times> 'c set" where
  "gather_removes keep_gen input nxt nodes =
     (case poll_async input nxt of
        Inl e \<Rightarrow> Inl e
      | Inr (None, input') \<Rightarrow> Inr (Waiting, input', None, nodes)
      | Inr (Some None, input') \<Rightarrow> Inr (Gathered, input', Some None, nodes)
      | Inr (Some (Some (hash, gen)), input') \<Rightarrow>
          if gen = keep_gen then gather_removes keep_gen input' None (insert hash nodes)
          else if gen > keep_gen then gather_removes keep_gen input' None nodes
          else Inr (Gathered, input', Some (Some (hash, gen)), nodes))"
  by pat_completeness auto
termination
proof (relation "measure (\<lambda>(g, input, nxt, nodes). 2 * length input + (if nxt = None then 0 else 1))")
qed (auto simp: poll_async_def split: option.splits prod.splits poll.splits if_splits elim: poll_input.elims)

declare gather_removes.simps [simp del]

definition difference_iter ::
    "('c, 'e) SetDifferenceNodeStream \<Rightarrow> ('c, 'e) poll option \<times> ('c, 'e) SetDifferenceNodeStream" where
  "difference_iter s0 =
     (case poll_async (keep_input s0) (next_keep s0) of
        Inl e \<Rightarrow> (Some (Failed e), s0)
      | Inr (None, ki) \<Rightarrow> (Some NotReady, s0\<lparr>keep_input := ki, next_keep := None\<rparr>)
      | Inr (Some None, ki) \<Rightarrow> (Some (Ready None), s0\<lparr>keep_input := ki, next_keep := Some None\<rparr>)
      | Inr (Some (Some (keep_hash, keep_gen)), ki) \<Rightarrow>
          let s = s0\<lparr>keep_input := ki, next_keep := Some (Some (keep_hash, keep_gen))\<rparr>;
              s = (if remove_generation s \<noteq> Some keep_gen
                   then s\<lparr>remove_nodes := {}, remove_generation := Some keep_gen\<rparr> else s)
          in (case gather_removes keep_gen (remove_input s) (next_remove s) (remove_nodes s) of
                Inl e \<Rightarrow> (Some (Failed e), s)
              | Inr (Waiting, ri, nr, nodes) \<Rightarrow>
                  (Some NotReady, s\<lparr>remove_input := ri, next_remove := nr, remove_nodes := nodes\<rparr>)
              | Inr (Gathered, ri, nr, nodes) \<Rightarrow>
                  let s = s\<lparr>remove_input := ri, next_remove := nr, remove_nodes := nodes, next_keep := None\<rparr>
                  in if keep_hash \<notin> remove_nodes s then (Some (Ready (Some keep_hash)), s) else (None, s)))"

section \<open>Validation\<close>

record ('c, 'e) ValidateNodeStream =
  wrapped :: "('c \<times> nat, 'e) input"
  last_generation :: "nat option"
  seen_hashes :: "'c set"

definition validate_new ::
    "'c ChangesetFetcher \<Rightarrow> ('c, 'c revset_error) input \<Rightarrow> ('c, 'c revset_error) ValidateNodeStream" where
  "validate_new changeset_fetcher input =
     \<lparr>wrapped = add_generations_by_bonsai changeset_fetcher input, last_generation = None, seen_hashes = {}\<rparr>"

text \<open>A failed \<open>assert!\<close> is the error \<open>AssertionFailed\<close>.\<close>

definition validate_iter ::
    "('c, 'c revset_error) ValidateNodeStream
      \<Rightarrow> ('c, 'c revset_error) poll option \<times> ('c, 'c revset_error) ValidateNodeStream" where
  "validate_iter s =
     (case poll_input (wrapped s) of
        (Failed e, w) \<Rightarrow> (Some (Failed e), s\<lparr>wrapped := w\<rparr>)
      | (NotReady, w) \<Rightarrow> (Some NotReady, s\<lparr>wrapped := w\<rparr>)
      | (Ready None, w) \<Rightarrow> (Some (Ready None), s\<lparr>wrapped := w\<rparr>)
      | (Ready (Some (hash, gen)), w) \<Rightarrow>
          if hash \<in> seen_hashes s then (Some (Failed (AssertionFailed ''Hash seen twice'')), s\<lparr>wrapped := w\<rparr>)
          else if \<not> (case last_generation s of None \<Rightarrow> True | Some l \<Rightarrow> gen \<le> l)
          then (Some (Failed (AssertionFailed ''Generation number increased unexpectedly'')), s\<lparr>wrapped := w\<rparr>)
          else (Some (Ready (Some hash)),
                s\<lparr>wrapped := w, seen_hashes := insert hash (seen_hashes s), last_generation := Some gen\<rparr>))"

section \<open>Streams as iterations\<close>

text \<open>
  What the executor relies on, once for all streams: as long as the invariant holds the loop body
  does not fail, keeps the invariant and goes down in a well-founded relation, and what it returns
  fits a specification of the whole output. Then the stream finishes with an output that meets the
  specification.
\<close>

fun stream_step_ok ::
    "('s \<Rightarrow> bool) \<Rightarrow> ('s \<times> 's) set \<Rightarrow> ('s \<Rightarrow> 'a list \<Rightarrow> bool) \<Rightarrow> 's \<Rightarrow> ('a, 'e) poll option \<Rightarrow> 's \<Rightarrow> bool" where
  "stream_step_ok I R spec s None s' \<longleftrightarrow> I s' \<and> (s', s) \<in> R \<and> (\<forall>xs. spec s' xs \<longrightarrow> spec s xs)"
| "stream_step_ok I R spec s (Some NotReady) s' \<longleftrightarrow> I s' \<and> (s', s) \<in> R \<and> (\<forall>xs. spec s' xs \<longrightarrow> spec s xs)"
| "stream_step_ok I R spec s (Some (Ready (Some x))) s' \<longleftrightarrow>
     I s' \<and> (s', s) \<in> R \<and> (\<forall>xs. spec s' xs \<longrightarrow> spec s (x # xs))"
| "stream_step_ok I R spec s (Some (Ready None)) s' \<longleftrightarrow> spec s []"
| "stream_step_ok I R spec s (Some (Failed e)) s' \<longleftrightarrow> False"

lemma stream_step_ok_weaken:
  "stream_step_ok J R spec s r s' \<Longrightarrow> (\<And>s. J s \<Longrightarrow> I s) \<Longrightarrow> stream_step_ok I R spec s r s'"
  by (cases "(I, R, spec, s, r, s')" rule: stream_step_ok.cases) auto

lemma drive_mono: "drive n iter s = Some r \<Longrightarrow> n \<le> m \<Longrightarrow> drive m iter s = Some r"
proof (induction n arbitrary: s r m)
  case (Suc n)
  obtain k where m: "m = Suc k" "n \<le> k" using Suc.prems(2) by (cases m) auto
  have up: "drive n iter t = Some q \<Longrightarrow> drive k iter t = Some q" for t q using Suc.IH m(2) by blast
  show ?case using Suc.prems(1) up m(1) by (auto split: prod.splits option.splits poll.splits)
qed simp

locale stream_iteration =
  fixes iter :: "'s \<Rightarrow> ('a, 'e) poll option \<times> 's"
    and inv :: "'s \<Rightarrow> bool" and R :: "('s \<times> 's) set" and spec :: "'s \<Rightarrow> 'a list \<Rightarrow> bool"
  assumes descends: "wf R"
    and step_ok: "inv s \<Longrightarrow> stream_step_ok inv R spec s (fst (iter s)) (snd (iter s))"
begin

lemma drive_once: "inv s \<Longrightarrow> \<exists>n xs. drive n iter s = Some (Inr xs) \<and> spec s xs"
  using descends
proof (induction s rule: wf_induct_rule)
  case (less s)
  obtain r s' where it: "iter s = (r, s')" by fastforce
  have ok: "stream_step_ok inv R spec s r s'" using step_ok [OF less.prems] it by simp
  have rec: "\<exists>n xs. drive n iter s' = Some (Inr xs) \<and> spec s' xs" if "inv s'" "(s', s) \<in> R"
    using less.IH that by blast
  have one: "drive (Suc n) iter s = (case (r, s') of
        (None, s') \<Rightarrow> drive n iter s' | (Some NotReady, s') \<Rightarrow> drive n iter s' | (Some (Ready None), s') \<Rightarrow> Some (Inr [])
      | (Some (Ready (Some x)), s') \<Rightarrow> map_option (map_ok ((#) x)) (drive n iter s') | (Some (Failed e), s') \<Rightarrow> Some (Inl e))" for n
    by (simp add: it)
  from ok show ?case
  proof (cases "(inv, R, spec, s, r, s')" rule: stream_step_ok.cases)
    case 1
    then obtain n xs where "drive n iter s' = Some (Inr xs)" "spec s' xs" using ok rec by auto
    then have "drive (Suc n) iter s = Some (Inr xs) \<and> spec s xs" using 1 ok unfolding one by auto
    then show ?thesis by blast
  next
    case 2
    then obtain n xs where "drive n iter s' = Some (Inr xs)" "spec s' xs" using ok rec by auto
    then have "drive (Suc n) iter s = Some (Inr xs) \<and> spec s xs" using 2 ok unfolding one by auto
    then show ?thesis by blast
  next
    case (3 _ _ _ _ x)
    then obtain n xs where "drive n iter s' = Some (Inr xs)" "spec s' xs" using ok rec by auto
    then have "drive (Suc n) iter s = Some (Inr (x # xs)) \<and> spec s (x # xs)" using 3 ok unfolding one by auto
    then show ?thesis by blast
  next
    case 4
    then have "drive (Suc 0) iter s = Some (Inr []) \<and> spec s []" using ok unfolding one by simp
    then show ?thesis by blast
  qed (use ok in auto)
qed

lemma drive_finishes:
  assumes "inv s"
  shows "\<exists>N xs. (\<forall>n \<ge> N. drive n iter s = Some (Inr xs)) \<and> spec s xs"
  using drive_once [OF assms] drive_mono by metis

end

section \<open>Inputs\<close>

fun event_item :: "('a, 'e) event \<Rightarrow> 'a option" where
  "event_item (Item x) = Some x"
| "event_item ev = None"

definition items :: "('a, 'e) input \<Rightarrow> 'a list" where
  "items s = List.map_filter event_item s"

lemma items_simps [simp]:
  "items [] = []" "items (Pending # s) = items s" "items (Fail e # s) = items s"
  "items (Item x # s) = x # items s"
  by (simp_all add: items_def List.map_filter_simps)

lemma set_items: "x \<in> set (items s) \<longleftrightarrow> Item x \<in> set s"
  by (induction s) (auto simp: items_def List.map_filter_simps split: option.splits elim!: event_item.elims)

definition fetched_gen :: "'c ChangesetFetcher \<Rightarrow> 'c \<Rightarrow> nat" where
  "fetched_gen F c = (case get_generation_number F c of Inr g \<Rightarrow> g | Inl _ \<Rightarrow> 0)"

text \<open>The two promises of a node stream: generation numbers never increase, and every changeset
  is known; besides, that it does not fail.\<close>

definition node_stream_ok :: "'c ChangesetFetcher \<Rightarrow> ('c, 'e) input \<Rightarrow> bool" where
  "node_stream_ok F s \<longleftrightarrow> (\<forall>e. Fail e \<notin> set s) \<and>
     (\<forall>c \<in> set (items s). get_generation_number F c = Inr (fetched_gen F c)) \<and>
     sorted_wrt (\<lambda>a b. fetched_gen F b \<le> fetched_gen F a) (items s)"

fun slot_rest :: "('c, 'e) slot \<Rightarrow> ('c \<times> nat) list" where
  "slot_rest (input, Ready (Some x)) = x # items input"
| "slot_rest (input, state) = items input"

definition slot_ok :: "('c \<Rightarrow> nat) \<Rightarrow> ('c, 'e) slot \<Rightarrow> bool" where
  "slot_ok G s \<longleftrightarrow> (\<forall>e. Fail e \<notin> set (fst s)) \<and> slot_error s = None \<and> (slot_finished s \<longrightarrow> fst s = []) \<and>
     (\<forall>(c, g) \<in> set (slot_rest s). g = G c) \<and> sorted_wrt (\<lambda>a b. snd b \<le> snd a) (slot_rest s)"

fun slot_weight :: "('c, 'e) slot \<Rightarrow> nat" where
  "slot_weight (input, NotReady) = 3 * length input + 1"
| "slot_weight (input, Ready (Some x)) = 3 * length input + 2"
| "slot_weight (input, state) = 3 * length input"

definition weight :: "('c, 'e) slot list \<Rightarrow> nat" where
  "weight inputs = sum_list (map slot_weight inputs)"

lemma poll_slot_rest [simp]: "slot_rest (poll_slot s) = slot_rest s"
  by (cases s; cases "snd s"; cases "fst s"; cases "hd (fst s)") auto

lemma poll_slot_ok: "slot_ok G s \<Longrightarrow> slot_ok G (poll_slot s)"
proof (cases s)
  case (Pair input st)
  assume ok: "slot_ok G s"
  show ?thesis
  proof (cases st)
    case NotReady
    have "slot_rest (poll_slot s) = slot_rest s" by simp
    moreover have "(\<forall>e. Fail e \<notin> set (fst (poll_slot s))) \<and> slot_error (poll_slot s) = None \<and>
        (slot_finished (poll_slot s) \<longrightarrow> fst (poll_slot s) = [])"
      using ok NotReady Pair
      by (cases input; cases "hd input") (auto simp: slot_ok_def slot_finished_def)
    ultimately show ?thesis using ok by (simp add: slot_ok_def)
  qed (use ok Pair in simp_all)
qed

lemma poll_slot_weight: "slot_weight (poll_slot s) \<le> slot_weight s"
  by (cases s; cases "snd s"; cases "fst s"; cases "hd (fst s)") auto

lemma poll_slot_weight_less:
  assumes "slot_ok G s" "\<not> slot_ready (poll_slot s)"
  shows "slot_weight (poll_slot s) < slot_weight s"
  using assms
  by (cases s; cases "snd s"; cases "fst s"; cases "hd (fst s)") (auto simp: slot_ok_def)

lemma sum_list_le: "(\<And>x. x \<in> set xs \<Longrightarrow> f x \<le> g x) \<Longrightarrow> sum_list (map f xs) \<le> sum_list (map (g :: 'a \<Rightarrow> nat) xs)"
  by (rule sum_list_mono)

lemma sum_list_less:
  "(\<And>x. x \<in> set xs \<Longrightarrow> f x \<le> g x) \<Longrightarrow> \<exists>x \<in> set xs. f x < g x \<Longrightarrow>
     sum_list (map f xs) < sum_list (map (g :: 'a \<Rightarrow> nat) xs)"
proof (induction xs)
  case (Cons y xs)
  show ?case
  proof (cases "f y < g y")
    case True
    then show ?thesis using sum_list_le [of xs f g] Cons.prems(1) by (simp add: add_less_le_mono)
  next
    case False
    then have "\<exists>x \<in> set xs. f x < g x" using Cons.prems(2) by auto
    then show ?thesis using Cons.IH Cons.prems(1) [of y] Cons.prems(1) by (simp add: add_le_less_mono)
  qed
qed simp

lemma weight_poll: "weight (poll_all_inputs inputs) \<le> weight inputs"
  by (simp add: weight_def poll_all_inputs_def comp_def sum_list_le poll_slot_weight)

lemma weight_poll_less:
  assumes "\<forall>s \<in> set inputs. slot_ok G s" "\<not> all_inputs_ready (poll_all_inputs inputs)"
  shows "weight (poll_all_inputs inputs) < weight inputs"
proof -
  obtain s where s: "s \<in> set inputs" "\<not> slot_ready (poll_slot s)"
    using assms(2) by (auto simp: all_inputs_ready_def poll_all_inputs_def list_all_iff)
  then have "slot_weight (poll_slot s) < slot_weight s" using poll_slot_weight_less assms(1) by blast
  then show ?thesis unfolding weight_def poll_all_inputs_def map_map comp_def
    by (intro sum_list_less poll_slot_weight bexI [OF _ s(1)])
qed

lemma first_error_None: "\<forall>s \<in> set inputs. slot_ok G s \<Longrightarrow> first_error inputs = None"
  by (induction inputs) (auto simp: first_error_def slot_ok_def List.map_filter_simps)

definition heads :: "('c, 'e) slot list \<Rightarrow> ('c \<times> nat) list" where
  "heads inputs = List.map_filter slot_head inputs"

definition rest :: "('c, 'e) slot list \<Rightarrow> ('c \<times> nat) set" where
  "rest inputs = (\<Union>s \<in> set inputs. set (slot_rest s))"

lemma rest_poll [simp]: "rest (poll_all_inputs inputs) = rest inputs"
  by (simp add: rest_def poll_all_inputs_def)

lemma poll_all_ok: "\<forall>s \<in> set inputs. slot_ok G s \<Longrightarrow> \<forall>s \<in> set (poll_all_inputs inputs). slot_ok G s"
  by (auto simp: poll_all_inputs_def poll_slot_ok)

lemma slot_head_rest: "slot_head s = Some x \<Longrightarrow> \<exists>xs. slot_rest s = x # xs"
  by (cases s; cases "snd s") (auto elim: slot_head.elims)

lemma set_heads: "x \<in> set (heads inputs) \<longleftrightarrow> (\<exists>s \<in> set inputs. slot_head s = Some x)"
  by (induction inputs) (auto simp: heads_def List.map_filter_simps split: option.splits)

lemma heads_rest: "x \<in> set (heads inputs) \<Longrightarrow> x \<in> rest inputs"
proof -
  assume "x \<in> set (heads inputs)"
  then obtain s where s: "s \<in> set inputs" "slot_head s = Some x" by (auto simp: set_heads)
  then obtain xs where "slot_rest s = x # xs" using slot_head_rest by blast
  with s(1) show ?thesis by (force simp: rest_def)
qed

text \<open>When all inputs have a head, the heads bound what is left.\<close>

lemma ready_head:
  assumes "slot_ok G s" "slot_ready s" "\<not> slot_finished s" "x \<in> set (slot_rest s)"
  obtains y where "slot_head s = Some y" "snd x \<le> snd y" "\<exists>xs. slot_rest s = y # xs"
  using assms
  by (cases s; cases "snd s") (auto simp: slot_ok_def slot_finished_def split: option.splits elim: slot_ready.elims)

lemma ready_has_head: "slot_ready s \<Longrightarrow> \<not> slot_finished s \<Longrightarrow> \<exists>x. slot_head s = Some x"
  by (cases s rule: slot_ready.cases) (auto simp: slot_finished_def split: option.splits)

lemma no_heads:
  assumes "all_inputs_ready inputs" "\<forall>s \<in> set inputs. \<not> slot_finished s" "heads inputs = []"
  shows "inputs = []"
proof (rule ccontr)
  assume "inputs \<noteq> []"
  then obtain s where s: "s \<in> set inputs" by (meson list.set_sel(1))
  then obtain x where "slot_head s = Some x"
    using ready_has_head [of s] assms(1,2) by (auto simp: all_inputs_ready_def list_all_iff)
  then show False using s assms(3) set_heads [of x inputs] by auto
qed

lemma rest_le_heads:
  assumes "\<forall>s \<in> set inputs. slot_ok G s" "all_inputs_ready inputs" "\<forall>s \<in> set inputs. \<not> slot_finished s"
    and "x \<in> rest inputs"
  obtains y where "y \<in> set (heads inputs)" "snd x \<le> snd y"
proof -
  obtain s where s: "s \<in> set inputs" "x \<in> set (slot_rest s)" using assms(4) by (auto simp: rest_def)
  have ok: "slot_ok G s" "slot_ready s" "\<not> slot_finished s"
    using s(1) assms(1-3) by (auto simp: all_inputs_ready_def list_all_iff)
  obtain y where "slot_head s = Some y" "snd x \<le> snd y" using ready_head [OF ok s(2)] by blast
  then show thesis using that [of y] s(1) by (auto simp: set_heads)
qed

lemma consume_slot_ok: "slot_ok G s \<Longrightarrow> slot_ok G (consume_slot P s)"
  by (cases s; cases "snd s") (auto simp: consume_slot_def slot_ok_def slot_finished_def split: option.splits elim: slot_head.elims)

lemma consume_slot_rest:
  "set (slot_rest s) = set (slot_rest (consume_slot P s)) \<union> {x. slot_head s = Some x \<and> P x}"
  by (cases s; cases "snd s") (auto simp: consume_slot_def split: option.splits elim!: slot_head.elims)

lemma consume_slot_weight:
  "slot_weight (consume_slot P s) + (case slot_head s of Some x \<Rightarrow> if P x then 1 else 0 | None \<Rightarrow> 0) = slot_weight s"
  by (cases s; cases "snd s") (auto simp: consume_slot_def split: option.splits elim!: slot_head.elims)

lemma rest_consume:
  "rest inputs = rest (map (consume_slot P) inputs) \<union> set (filter P (heads inputs))"
proof -
  have "rest inputs = (\<Union>s \<in> set inputs. set (slot_rest (consume_slot P s)) \<union> {x. slot_head s = Some x \<and> P x})"
    unfolding rest_def by (intro SUP_cong refl consume_slot_rest)
  then show ?thesis by (auto simp: rest_def set_heads)
qed

lemma weight_consume:
  "weight (map (consume_slot P) inputs) + length (filter P (heads inputs)) = weight inputs"
proof (induction inputs)
  case (Cons s inputs)
  then show ?case
    using consume_slot_weight [of P s]
    by (auto simp: weight_def heads_def List.map_filter_simps split: option.splits if_splits)
qed (simp add: weight_def heads_def List.map_filter_simps)

lemma maximum_heads: "maximum xs = Some m \<Longrightarrow> m \<in> set xs \<and> (\<forall>x \<in> set xs. x \<le> m)"
  using Max.set_eq_fold [of "hd xs" "tl xs"] Max_in [of "set xs"] Max_ge [of "set xs"]
  by (cases xs) (auto simp: maximum_def)

lemma minimum_heads: "minimum xs = Some m \<Longrightarrow> m \<in> set xs \<and> (\<forall>x \<in> set xs. m \<le> x)"
  using Min.set_eq_fold [of "hd xs" "tl xs"] Min_in [of "set xs"] Min_le [of "set xs"]
  by (cases xs) (auto simp: minimum_def)

section \<open>Union is correct\<close>

fun drained :: "'a list option \<Rightarrow> 'a list" where
  "drained None = []"
| "drained (Some xs) = xs"

text \<open>\<open>G\<close> gives the generation numbers. What is drained is above what is accumulated, which is
  above (or, while it is being collected, not below) what is still to come.\<close>

definition same_gen :: "('c \<Rightarrow> nat) \<Rightarrow> 'c set \<Rightarrow> bool" where
  "same_gen G A \<longleftrightarrow> (\<forall>x \<in> A. \<forall>y \<in> A. G x = G y)"

definition below :: "('c \<Rightarrow> nat) \<Rightarrow> 'c set \<Rightarrow> 'c set \<Rightarrow> bool" where
  "below G B A \<longleftrightarrow> (\<forall>x \<in> A. \<forall>y \<in> B. G y < G x)"

lemma same_gen_mono: "same_gen G A \<Longrightarrow> B \<subseteq> A \<Longrightarrow> same_gen G B"
  unfolding same_gen_def by blast

lemma below_mono: "below G B A \<Longrightarrow> A' \<subseteq> A \<Longrightarrow> B' \<subseteq> B \<Longrightarrow> below G B' A'"
  unfolding below_def by blast

fun current_ok :: "('c \<Rightarrow> nat) \<Rightarrow> nat option \<Rightarrow> 'c set \<Rightarrow> 'c set \<Rightarrow> bool" where
  "current_ok G None acc later \<longleftrightarrow> below G later acc"
| "current_ok G (Some g) acc later \<longleftrightarrow> (\<forall>x \<in> acc. G x = g) \<and> (\<forall>y \<in> later. G y \<le> g)"

definition union_inv :: "('c \<Rightarrow> nat) \<Rightarrow> ('c, 'e) UnionNodeStream \<Rightarrow> bool" where
  "union_inv G s \<longleftrightarrow> (\<forall>i \<in> set (u_inputs s). slot_ok G i) \<and> finite (u_accumulator s) \<and>
     distinct (drained (u_drain s)) \<and> same_gen G (set (drained (u_drain s))) \<and>
     below G (u_accumulator s \<union> fst ` rest (u_inputs s)) (set (drained (u_drain s))) \<and>
     same_gen G (u_accumulator s) \<and>
     current_ok G (u_current_generation s) (u_accumulator s) (fst ` rest (u_inputs s))"

definition union_spec :: "('c \<Rightarrow> nat) \<Rightarrow> ('c, 'e) UnionNodeStream \<Rightarrow> 'c list \<Rightarrow> bool" where
  "union_spec G s xs \<longleftrightarrow> distinct xs \<and> sorted_wrt (\<lambda>a b. G b \<le> G a) xs \<and>
     set xs = set (drained (u_drain s)) \<union> u_accumulator s \<union> fst ` rest (u_inputs s)"

fun phase :: "nat option \<Rightarrow> nat set \<Rightarrow> bool \<Rightarrow> nat" where
  "phase (Some g) gens emp = (if g \<in> gens then 0 else 3)"
| "phase None gens emp = (if emp then 1 else 2)"

lemma phase_le: "phase c gens emp \<le> 3"
  by (cases c) auto

definition union_phase :: "('c, 'e) UnionNodeStream \<Rightarrow> nat" where
  "union_phase s = phase (u_current_generation s) (snd ` set (heads (u_inputs s))) (u_accumulator s = {})"

definition union_mu :: "('c, 'e) UnionNodeStream \<Rightarrow> nat" where
  "union_mu s = 10 * weight (u_inputs s) + 2 * card (u_accumulator s) + length (drained (u_drain s)) + union_phase s"

text \<open>The states that one run of the loop body passes through.\<close>

definition u_polled :: "('c, 'e) UnionNodeStream \<Rightarrow> ('c, 'e) UnionNodeStream" where
  "u_polled s = s\<lparr>u_inputs := poll_all_inputs (u_inputs s)\<rparr>"

definition u_ready :: "('c, 'e) UnionNodeStream \<Rightarrow> ('c, 'e) UnionNodeStream" where
  "u_ready s = gc_finished_inputs ((u_polled s)\<lparr>u_drain := None\<rparr>)"

definition u_advance :: "('c set \<Rightarrow> 'c list) \<Rightarrow> ('c, 'e) UnionNodeStream \<Rightarrow> ('c, 'e) UnionNodeStream" where
  "u_advance ho s =
     (case u_current_generation s of
        None \<Rightarrow>
          if u_accumulator s = {} then union_update_current_generation s
          else s\<lparr>u_accumulator := {}, u_drain := Some (ho (u_accumulator s))\<rparr>
      | Some _ \<Rightarrow> union_accumulate_nodes s)"

lemma union_iter_unfold:
  assumes "union_inv G s"
  shows "union_iter ho s =
     (case drained (u_drain s) of
        x # d \<Rightarrow> (Some (Ready (Some x)), (u_polled s)\<lparr>u_drain := Some d\<rparr>)
      | [] \<Rightarrow>
          if \<not> all_inputs_ready (u_inputs (u_ready s)) then (Some NotReady, u_ready s)
          else let s' = u_advance ho (u_ready s)
               in if u_inputs s' = [] \<and> u_drain s' = None \<and> u_accumulator s' = {}
                  then (Some (Ready None), s') else (None, s'))"
proof -
  have "first_error (poll_all_inputs (u_inputs s)) = None"
    by (rule first_error_None [OF poll_all_ok, of _ G]) (use assms in \<open>simp add: union_inv_def\<close>)
  then show ?thesis
    by (auto simp: union_iter_def Let_def u_polled_def u_ready_def u_advance_def gc_finished_inputs_def
        split: option.splits list.splits)
qed

lemma poll_slot_head: "slot_head s = Some x \<Longrightarrow> poll_slot s = s"
  by (cases s; cases "snd s") auto

lemma heads_poll: "set (heads inputs) \<subseteq> set (heads (poll_all_inputs inputs))"
proof
  fix x
  assume "x \<in> set (heads inputs)"
  then obtain s where s: "s \<in> set inputs" "slot_head s = Some x" by (auto simp: set_heads)
  then have "slot_head (poll_slot s) = Some x" by (simp add: poll_slot_head)
  with s(1) show "x \<in> set (heads (poll_all_inputs inputs))" by (auto simp: set_heads poll_all_inputs_def)
qed

lemma u_polled:
  assumes "union_inv G s"
  shows "union_inv G (u_polled s)" "union_mu (u_polled s) \<le> union_mu s"
    "union_spec G (u_polled s) = union_spec G s"
    "\<not> all_inputs_ready (u_inputs (u_polled s)) \<Longrightarrow> union_mu (u_polled s) < union_mu s"
proof -
  have ok: "\<forall>i \<in> set (u_inputs s). slot_ok G i" using assms by (simp add: union_inv_def)
  show "union_inv G (u_polled s)"
    using assms poll_all_ok [OF ok] by (simp add: union_inv_def u_polled_def)
  show "union_spec G (u_polled s) = union_spec G s" by (rule ext) (simp add: union_spec_def u_polled_def)
  have ph: "union_phase (u_polled s) \<le> union_phase s"
    using heads_poll [of "u_inputs s"]
    by (cases "u_current_generation s") (auto simp: union_phase_def u_polled_def)
  then show "union_mu (u_polled s) \<le> union_mu s"
    using weight_poll [of "u_inputs s"] by (simp add: union_mu_def) (simp add: u_polled_def)
  assume "\<not> all_inputs_ready (u_inputs (u_polled s))"
  then show "union_mu (u_polled s) < union_mu s"
    using ph weight_poll_less [OF ok] by (simp add: union_mu_def) (simp add: u_polled_def)
qed

lemma gc_facts:
  assumes "\<forall>i \<in> set inputs. slot_ok G i"
  shows "rest (filter (\<lambda>i. \<not> slot_finished i) inputs) = rest inputs"
    "weight (filter (\<lambda>i. \<not> slot_finished i) inputs) = weight inputs"
    "heads (filter (\<lambda>i. \<not> slot_finished i) inputs) = heads inputs"
    "all_inputs_ready (filter (\<lambda>i. \<not> slot_finished i) inputs) = all_inputs_ready inputs"
proof -
  have fin: "slot_rest i = []" "slot_weight i = 0" "slot_head i = None" "slot_ready i"
    if "i \<in> set inputs" "slot_finished i" for i
  proof -
    have "snd i = Ready None" "fst i = []"
      using assms that by (auto simp: slot_ok_def slot_finished_def split: poll.splits option.splits)
    then have "i = ([], Ready None)" by (simp add: prod_eq_iff)
    then show "slot_rest i = []" "slot_weight i = 0" "slot_head i = None" "slot_ready i" by simp_all
  qed
  show "rest (filter (\<lambda>i. \<not> slot_finished i) inputs) = rest inputs" using fin(1) by (fastforce simp: rest_def)
  show "weight (filter (\<lambda>i. \<not> slot_finished i) inputs) = weight inputs"
    "heads (filter (\<lambda>i. \<not> slot_finished i) inputs) = heads inputs"
    using fin(2,3)
    by (induction inputs) (auto simp: weight_def heads_def List.map_filter_simps cong: option.case_cong)
  show "all_inputs_ready (filter (\<lambda>i. \<not> slot_finished i) inputs) = all_inputs_ready inputs"
    using fin(4) by (auto simp: all_inputs_ready_def list_all_iff)
qed

lemma u_ready:
  assumes "union_inv G s" "drained (u_drain s) = []"
  shows "union_inv G (u_ready s)" "union_mu (u_ready s) \<le> union_mu s"
    "union_spec G (u_ready s) = union_spec G s"
    "\<not> all_inputs_ready (u_inputs (u_ready s)) \<Longrightarrow> union_mu (u_ready s) < union_mu s"
    "\<forall>i \<in> set (u_inputs (u_ready s)). \<not> slot_finished i" "u_drain (u_ready s) = None"
proof -
  note p = u_polled [OF assms(1)]
  have "\<forall>i \<in> set (u_inputs (u_polled s)). slot_ok G i" using p(1) by (simp add: union_inv_def)
  note g = gc_facts [OF this]
  have d: "drained (u_drain (u_polled s)) = []" using assms(2) by (simp add: u_polled_def)
  have mu: "union_mu (u_ready s) = union_mu (u_polled s)"
    using g d
    by (simp add: union_mu_def union_phase_def u_ready_def gc_finished_inputs_def)
  show "union_inv G (u_ready s)"
    using p(1) g d
    by (simp add: union_inv_def u_ready_def gc_finished_inputs_def)
  show "union_mu (u_ready s) \<le> union_mu s" using mu p(2) by simp
  have "union_spec G (u_ready s) = union_spec G (u_polled s)"
    using g d by (intro ext) (simp add: union_spec_def u_ready_def gc_finished_inputs_def)
  then show "union_spec G (u_ready s) = union_spec G s" using p(3) by simp
  show "union_mu (u_ready s) < union_mu s" if "\<not> all_inputs_ready (u_inputs (u_ready s))"
    using that p(4) g(4) mu by (simp add: u_ready_def gc_finished_inputs_def)
  show "\<forall>i \<in> set (u_inputs (u_ready s)). \<not> slot_finished i" "u_drain (u_ready s) = None"
    by (simp_all add: u_ready_def gc_finished_inputs_def)
qed

lemma rest_gen: "\<forall>i \<in> set inputs. slot_ok G i \<Longrightarrow> x \<in> rest inputs \<Longrightarrow> snd x = G (fst x)"
  by (fastforce simp: rest_def slot_ok_def)

text \<open>Each of the three ways the loop body goes on.\<close>

definition union_goes_on ::
    "('c \<Rightarrow> nat) \<Rightarrow> ('c, 'e) UnionNodeStream \<Rightarrow> ('c, 'e) UnionNodeStream \<Rightarrow> bool" where
  "union_goes_on G s s' \<longleftrightarrow> union_inv G s' \<and> union_spec G s' = union_spec G s \<and>
     (\<not> (u_inputs s' = [] \<and> u_drain s' = None \<and> u_accumulator s' = {}) \<longrightarrow> union_mu s' < union_mu s)"

lemma union_drains:
  assumes "union_inv G s" "hash_order ho" "u_drain s = None"
    and "u_current_generation s = None" "u_accumulator s \<noteq> {}"
  shows "union_goes_on G s (s\<lparr>u_accumulator := {}, u_drain := Some (ho (u_accumulator s))\<rparr>)"
proof -
  have inv: "\<forall>i \<in> set (u_inputs s). slot_ok G i" "finite (u_accumulator s)" "same_gen G (u_accumulator s)"
      "below G (fst ` rest (u_inputs s)) (u_accumulator s)"
    using assms(1,4) by (simp_all add: union_inv_def)
  have ho: "set (ho (u_accumulator s)) = u_accumulator s" "distinct (ho (u_accumulator s))"
    using assms(2) inv(2) by (auto simp: hash_order_def)
  then have "length (ho (u_accumulator s)) = card (u_accumulator s)" using distinct_card by metis
  moreover have "0 < card (u_accumulator s)" using assms(5) inv(2) by (simp add: card_gt_0_iff)
  moreover have "same_gen G {}" "below G A {}" "below G {} A" for A by (simp_all add: same_gen_def below_def)
  ultimately show ?thesis
    using ho inv assms(3-5)
    by (auto simp: union_goes_on_def union_inv_def union_spec_def union_mu_def union_phase_def)
qed

lemma union_updates:
  assumes "union_inv G s" "all_inputs_ready (u_inputs s)" "\<forall>i \<in> set (u_inputs s). \<not> slot_finished i"
    and "u_drain s = None" "u_current_generation s = None" "u_accumulator s = {}"
  shows "union_goes_on G s (union_update_current_generation s)"
proof -
  have ok: "\<forall>i \<in> set (u_inputs s). slot_ok G i" using assms(1) by (simp add: union_inv_def)
  let ?m = "maximum (map snd (heads (u_inputs s)))"
  have upd: "union_update_current_generation s = s\<lparr>u_current_generation := ?m\<rparr>"
    using assms(2) by (simp add: union_update_current_generation_def heads_def)
  have sets: "same_gen G {}" "below G A {}" for A by (simp_all add: same_gen_def below_def)
  show ?thesis
  proof (cases ?m)
    case None
    then have "heads (u_inputs s) = []" by (simp add: maximum_def split: list.splits)
    then have "u_inputs s = []" by (rule no_heads [OF assms(2,3)])
    moreover have "union_update_current_generation s = s" unfolding upd None using assms(5) by simp
    ultimately show ?thesis using assms(1,4,6) by (simp add: union_goes_on_def)
  next
    case (Some m)
    have "G (fst x) \<le> m" if x: "x \<in> rest (u_inputs s)" for x
    proof -
      obtain y where y: "y \<in> set (heads (u_inputs s))" "snd x \<le> snd y" using rest_le_heads [OF ok assms(2,3) x] .
      have "snd y \<le> m" using maximum_heads [OF Some] y(1) by simp
      then show ?thesis using y(2) rest_gen [OF ok x] by simp
    qed
    moreover have "m \<in> snd ` set (heads (u_inputs s))" using maximum_heads [OF Some] by simp
    ultimately show ?thesis
      unfolding upd Some union_goes_on_def using assms(1,4-6)
      by (intro conjI impI) (simp_all add: union_inv_def union_spec_def fun_eq_iff union_mu_def union_phase_def)
  qed
qed

lemma union_accumulates:
  assumes "union_inv G s" "all_inputs_ready (u_inputs s)" "\<forall>i \<in> set (u_inputs s). \<not> slot_finished i"
    and "u_drain s = None" "u_current_generation s = Some g"
  shows "union_goes_on G s (union_accumulate_nodes s)"
proof -
  let ?P = "\<lambda>(csid :: 'a, gen_id). Some gen_id = Some g"
  let ?found = "filter ?P (heads (u_inputs s))" and ?in = "map (consume_slot ?P) (u_inputs s)"
  let ?acc = "u_accumulator s \<union> fst ` set ?found"
  have ok: "\<forall>i \<in> set (u_inputs s). slot_ok G i" and fin: "finite (u_accumulator s)"
    and acc: "\<forall>x \<in> u_accumulator s. G x = g" and le: "\<forall>y \<in> fst ` rest (u_inputs s). G y \<le> g"
    using assms(1,5) by (auto simp: union_inv_def)
  have st: "union_accumulate_nodes s = s\<lparr>u_inputs := ?in, u_accumulator := ?acc,
      u_current_generation := if ?found = [] then None else Some g\<rparr>"
    using assms(5) by (simp add: union_accumulate_nodes_def heads_def Let_def)
  have rest: "rest (u_inputs s) = rest ?in \<union> set ?found" by (rule rest_consume)
  have ok': "\<forall>i \<in> set ?in. slot_ok G i" using ok consume_slot_ok by fastforce
  have acc': "\<forall>x \<in> ?acc. G x = g"
    using acc rest_gen [OF ok] rest by fastforce
  have spec: "?acc \<union> fst ` rest ?in = u_accumulator s \<union> fst ` rest (u_inputs s)" using rest by auto
  have le': "\<forall>y \<in> fst ` rest ?in. G y \<le> g" using le rest by auto
  have below: "below G (fst ` rest ?in) ?acc" if "?found = []"
  proof -
    have lt: "G (fst x) < g" if x: "x \<in> rest ?in" for x
    proof -
      have xr: "x \<in> rest (u_inputs s)" using x rest by blast
      obtain y where y: "y \<in> set (heads (u_inputs s))" "snd x \<le> snd y" using rest_le_heads [OF ok assms(2,3) xr] .
      have "snd y \<noteq> g" using y(1) \<open>?found = []\<close> by (auto simp: filter_empty_conv)
      moreover have "snd y \<le> g"
        using rest_gen [OF ok heads_rest [OF y(1)]] le heads_rest [OF y(1)] by auto
      ultimately show ?thesis using y(2) rest_gen [OF ok xr] by simp
    qed
    show ?thesis unfolding below_def
    proof (intro ballI)
      fix x y
      assume x: "x \<in> ?acc" and "y \<in> fst ` rest ?in"
      then obtain z where z: "z \<in> rest ?in" "y = fst z" by blast
      have "G x = g" using acc' x by (rule bspec)
      then show "G y < G x" using lt [OF z(1)] z(2) by simp
    qed
  qed
  have inv: "union_inv G (union_accumulate_nodes s)"
  proof -
    have "same_gen G ?acc" using acc' by (simp only: same_gen_def) metis
    moreover have "same_gen G {}" "below G B {}" for B by (simp_all add: same_gen_def below_def)
    moreover have "finite ?acc" using fin by blast
    ultimately show ?thesis
      using ok' acc' le' below assms(4) unfolding st by (cases "?found = []") (simp_all only: union_inv_def, simp_all)
  qed
  have spec': "union_spec G (union_accumulate_nodes s) = union_spec G s"
    unfolding st using spec by (intro ext) (simp add: union_spec_def Un_assoc)
  have "card ?acc \<le> card (u_accumulator s) + length ?found"
    using card_Un_le [of "u_accumulator s" "fst ` set ?found"] card_image_le [of "set ?found" fst] card_length [of ?found]
    by (meson List.finite_set add_le_mono le_refl le_trans)
  moreover have "weight ?in + length ?found = weight (u_inputs s)" by (rule weight_consume)
  moreover have "union_phase (union_accumulate_nodes s) \<le> 3" by (auto simp: union_phase_def split: option.splits intro: phase_le)
  moreover have "union_phase s = 3 \<and> union_phase (union_accumulate_nodes s) \<le> 2" if "?found = []"
    using that assms(5) unfolding st by (auto simp: union_phase_def filter_empty_conv)
  ultimately have "union_mu (union_accumulate_nodes s) < union_mu s"
    unfolding st by (cases "?found = []") (auto simp: union_mu_def neq_Nil_conv)
  with inv spec' show ?thesis by (simp add: union_goes_on_def)
qed


lemma union_advances:
  assumes "union_inv G s" "hash_order ho" "all_inputs_ready (u_inputs s)"
    and "\<forall>i \<in> set (u_inputs s). \<not> slot_finished i" "u_drain s = None"
  shows "union_goes_on G s (u_advance ho s)"
proof (cases "u_current_generation s")
  case None
  then show ?thesis
    using union_drains [OF assms(1,2,5) None] union_updates [OF assms(1,3-5) None]
    by (cases "u_accumulator s = {}") (simp_all add: u_advance_def)
next
  case (Some g)
  then show ?thesis using union_accumulates [OF assms(1,3-5) Some] by (simp add: u_advance_def)
qed

lemma union_emits:
  assumes "union_inv G s" "drained (u_drain s) = x # d"
  shows "stream_step_ok (union_inv G) (measure union_mu) (union_spec G) s (Some (Ready (Some x))) ((u_polled s)\<lparr>u_drain := Some d\<rparr>)"
proof -
  let ?s = "u_polled s" and ?t = "(u_polled s)\<lparr>u_drain := Some d\<rparr>"
  note p = u_polled [OF assms(1)]
  have d: "drained (u_drain ?s) = x # d" using assms(2) by (simp add: u_polled_def)
  let ?later = "u_accumulator ?s \<union> fst ` rest (u_inputs ?s)"
  have dist: "x \<notin> set d" "distinct d" and same: "same_gen G (insert x (set d))"
    and bel: "below G ?later (insert x (set d))"
    using p(1) d by (simp_all add: union_inv_def)
  have "same_gen G (set d)" using same by (rule same_gen_mono) blast
  moreover have "below G ?later (set d)" using bel by (rule below_mono) blast+
  ultimately have inv: "union_inv G ?t" using p(1) dist(2) by (simp add: union_inv_def)
  have "union_mu ?t < union_mu ?s" using d by (simp add: union_mu_def union_phase_def)
  then have mu: "union_mu ?t < union_mu s" using p(2) by simp
  have "union_spec G ?s (x # xs)" if "union_spec G ?t xs" for xs
  proof -
    have xs: "distinct xs" "sorted_wrt (\<lambda>a b. G b \<le> G a) xs" "set xs = set d \<union> ?later"
      using that by (simp_all add: union_spec_def Un_assoc)
    have le: "G y \<le> G x" if "y \<in> set xs" for y
    proof (cases "y \<in> set d")
      case True
      then show ?thesis using same [unfolded same_gen_def, rule_format, of y x] by simp
    next
      case False
      then have "y \<in> ?later" using that xs(3) by blast
      then show ?thesis using bel [unfolded below_def, rule_format, of x y] by simp
    qed
    have "x \<notin> set xs" using dist(1) bel unfolding xs(3) below_def by blast
    then show ?thesis using xs le d by (simp add: union_spec_def Un_assoc)
  qed
  then show ?thesis using inv mu p(3) by simp
qed

lemma union_step:
  assumes "hash_order ho" "union_inv G s"
  shows "stream_step_ok (union_inv G) (measure union_mu) (union_spec G) s (fst (union_iter ho s)) (snd (union_iter ho s))"
proof (cases "drained (u_drain s)")
  case (Cons x d)
  then show ?thesis using union_emits [OF assms(2) Cons] union_iter_unfold [OF assms(2), of ho] by simp
next
  case Nil
  note r = u_ready [OF assms(2) Nil]
  show ?thesis
  proof (cases "all_inputs_ready (u_inputs (u_ready s))")
    case False
    then show ?thesis using r Nil union_iter_unfold [OF assms(2), of ho] by simp
  next
    case True
    let ?t = "u_advance ho (u_ready s)"
    have go: "union_goes_on G (u_ready s) ?t" by (rule union_advances [OF r(1) assms(1) True r(5,6)])
    show ?thesis
    proof (cases "u_inputs ?t = [] \<and> u_drain ?t = None \<and> u_accumulator ?t = {}")
      case fin: True
      have "union_spec G ?t []" using fin by (simp add: union_spec_def rest_def)
      then have "union_spec G s []" using go r(3) by (simp add: union_goes_on_def)
      then show ?thesis using True fin Nil union_iter_unfold [OF assms(2), of ho] by (simp add: Let_def)
    next
      case fin: False
      then show ?thesis using True go r Nil union_iter_unfold [OF assms(2), of ho]
        by (auto simp: Let_def union_goes_on_def)
    qed
  qed
qed


interpretation uns: stream_iteration "union_iter ho" "\<lambda>s. hash_order ho \<and> union_inv G s" "measure union_mu" "union_spec G" for ho G
proof
  show "wf (measure union_mu)" by simp
  fix s :: "('a, 'b) UnionNodeStream"
  assume inv: "hash_order ho \<and> union_inv G s"
  then have "stream_step_ok (union_inv G) (measure union_mu) (union_spec G) s (fst (union_iter ho s)) (snd (union_iter ho s))"
    using union_step by blast
  with inv show "stream_step_ok (\<lambda>s. hash_order ho \<and> union_inv G s) (measure union_mu) (union_spec G) s
      (fst (union_iter ho s)) (snd (union_iter ho s))"
    by (auto intro: stream_step_ok_weaken)
qed

lemma add_generations_known:
  assumes "\<forall>e. Fail e \<notin> set s" "\<forall>c \<in> set (items s). get_generation_number F c = Inr (fetched_gen F c)"
  shows "items (add_generations_by_bonsai F s) = map (\<lambda>c. (c, fetched_gen F c)) (items s)"
    and "Fail e \<notin> set (add_generations_by_bonsai F s)"
proof -
  have gen: "get_generation_number F c = Inr (fetched_gen F c)" if "Item c \<in> set s" for c
    using assms(2) that by (simp add: set_items)
  with assms(1) show "items (add_generations_by_bonsai F s) = map (\<lambda>c. (c, fetched_gen F c)) (items s)"
    and "Fail e \<notin> set (add_generations_by_bonsai F s)"
    by (induction s) (auto simp: add_generations_by_bonsai_def split: event.splits)
qed

lemma items_add_generations:
  assumes "node_stream_ok F s"
  shows "items (add_generations_by_bonsai F s) = map (\<lambda>c. (c, fetched_gen F c)) (items s)"
    and "Fail e \<notin> set (add_generations_by_bonsai F s)"
  using add_generations_known [of s F] assms by (simp_all add: node_stream_ok_def)

lemma new_slot_ok: "node_stream_ok F s \<Longrightarrow> slot_ok (fetched_gen F) (add_generations_by_bonsai F s, NotReady)"
  using items_add_generations [of F s]
  by (simp add: slot_ok_def slot_finished_def node_stream_ok_def sorted_wrt_map)

lemma union_new_inv:
  assumes "\<forall>i \<in> set inputs. node_stream_ok F i"
  shows "union_inv (fetched_gen F) (union_new F inputs)"
  using assms new_slot_ok [of F] by (simp add: union_inv_def union_new_def same_gen_def below_def)

lemma rest_new:
  assumes "\<forall>i \<in> set inputs. node_stream_ok F i"
  shows "fst ` rest (map (\<lambda>i. (add_generations_by_bonsai F i, NotReady)) inputs) = (\<Union>i \<in> set inputs. set (items i))"
  using assms items_add_generations(1) [of F] by (force simp: rest_def)

text \<open>C7: the union of node streams. Whatever the inputs' polls interleave, and in whatever order the
  hash set is drained, the union finishes without an error, and it returns every changeset of an
  input exactly once, in an order in which generation numbers never increase.\<close>

theorem union_correct:
  assumes "hash_order ho" "\<forall>i \<in> set inputs. node_stream_ok F i"
  shows "\<exists>N xs. (\<forall>n \<ge> N. drive n (union_iter ho) (union_new F inputs) = Some (Inr xs)) \<and>
     distinct xs \<and> sorted_wrt (\<lambda>a b. fetched_gen F b \<le> fetched_gen F a) xs \<and>
     set xs = (\<Union>i \<in> set inputs. set (items i))"
proof -
  have "hash_order ho \<and> union_inv (fetched_gen F) (union_new F inputs)" using assms union_new_inv by blast
  from uns.drive_finishes [OF this] obtain N xs where
    xs: "\<forall>n \<ge> N. drive n (union_iter ho) (union_new F inputs) = Some (Inr xs)"
      "union_spec (fetched_gen F) (union_new F inputs) xs" by blast
  then show ?thesis using rest_new [OF assms(2)] by (auto simp: union_spec_def union_new_def)
qed


theorem union_correct_witness:
  "\<exists>N xs. (\<forall>n \<ge> N. drive n (union_iter sorted_list_of_set)
       (union_new \<lparr>get_generation_number = Inr, get_parents = \<lambda>_. Inr []\<rparr>
          [[Item 3, Pending, Item 1], [Pending, Item 3, Item (2 :: nat)]]) = Some (Inr xs)) \<and>
     distinct xs \<and> set xs = {1, 2, 3}"
proof -
  let ?F = "\<lparr>get_generation_number = Inr, get_parents = \<lambda>_. Inr []\<rparr> :: nat ChangesetFetcher"
  let ?is = "[[Item 3, Pending, Item 1], [Pending, Item 3, Item 2]] :: (nat, nat revset_error) input list"
  have ok: "\<forall>i \<in> set ?is. node_stream_ok ?F i" by (simp add: node_stream_ok_def fetched_gen_def)
  have "hash_order (sorted_list_of_set :: nat set \<Rightarrow> nat list)" by (simp add: hash_order_def)
  from union_correct [OF this ok] obtain N xs where
    "\<forall>n \<ge> N. drive n (union_iter sorted_list_of_set) (union_new ?F ?is) = Some (Inr xs)" "distinct xs"
    "set xs = (\<Union>i \<in> set ?is. set (items i))" by blast
  moreover have "(\<Union>i \<in> set ?is. set (items i)) = {1, 2, 3}" by auto
  ultimately show ?thesis by auto
qed

section \<open>Difference is correct\<close>

fun async_rest :: "('a, 'e) input \<Rightarrow> 'a option option \<Rightarrow> 'a list" where
  "async_rest input (Some (Some x)) = x # items input"
| "async_rest input nxt = items input"

fun async_weight :: "('a, 'e) input \<Rightarrow> 'a option option \<Rightarrow> nat" where
  "async_weight input (Some (Some x)) = 3 * length input + 2"
| "async_weight input None = 3 * length input + 1"
| "async_weight input (Some None) = 3 * length input"

definition async_ok :: "('c \<Rightarrow> nat) \<Rightarrow> ('c \<times> nat, 'e) input \<Rightarrow> ('c \<times> nat) option option \<Rightarrow> bool" where
  "async_ok G input nxt \<longleftrightarrow> (\<forall>e. Fail e \<notin> set input) \<and> (nxt = Some None \<longrightarrow> input = []) \<and>
     (\<forall>x \<in> set (async_rest input nxt). snd x = G (fst x)) \<and>
     sorted_wrt (\<lambda>a b. snd b \<le> snd a) (async_rest input nxt)"

lemma poll_async_ok:
  assumes "async_ok G input nxt"
  obtains nxt' input' where "poll_async input nxt = Inr (nxt', input')" "async_ok G input' nxt'"
    "async_rest input' nxt' = async_rest input nxt" "async_weight input' nxt' \<le> async_weight input nxt"
    "nxt' = None \<Longrightarrow> async_weight input' nxt' < async_weight input nxt"
proof (cases nxt)
  case None
  show thesis
  proof (cases input)
    case Nil
    then show thesis using that [of "Some None" "[]"] None assms by (simp add: poll_async_def async_ok_def)
  next
    case (Cons ev input')
    then show thesis
      using that [of None input'] that [of "Some (event_item ev)" input'] None assms
      by (cases ev) (auto simp: poll_async_def async_ok_def)
  qed
next
  case (Some x)
  then show thesis using that [of nxt input] assms by (simp add: poll_async_def)
qed

text \<open>What gathering the removals of a generation does.\<close>

definition gathers :: "('c \<Rightarrow> nat) \<Rightarrow> nat \<Rightarrow> ('c \<times> nat) list \<Rightarrow> 'c set \<Rightarrow> ('c \<times> nat) list \<Rightarrow> 'c set \<Rightarrow> bool" where
  "gathers G g rem nodes rem' nodes' \<longleftrightarrow>
     (\<forall>c. G c \<le> g \<longrightarrow> (c \<in> nodes' \<union> fst ` set rem') = (c \<in> nodes \<union> fst ` set rem)) \<and>
     (\<forall>c \<in> nodes'. c \<in> nodes \<or> G c = g)"

lemma gathers_refl: "gathers G g rem nodes rem nodes"
  by (simp add: gathers_def)

lemma gathers_step:
  assumes "gathers G g rem (if h = g then insert c nodes else nodes) rem' nodes'" "h = G c" "g \<le> h"
  shows "gathers G g ((c, h) # rem) nodes rem' nodes'"
  using assms unfolding gathers_def by (auto split: if_splits)

lemma gather_removes_ok:
  assumes "async_ok G input nxt"
  shows "\<exists>w input' nxt' nodes'. gather_removes g input nxt nodes = Inr (w, input', nxt', nodes') \<and>
     async_ok G input' nxt' \<and> gathers G g (async_rest input nxt) nodes (async_rest input' nxt') nodes' \<and>
     async_weight input' nxt' \<le> async_weight input nxt \<and>
     (w = Waiting \<longrightarrow> async_weight input' nxt' < async_weight input nxt) \<and>
     (w = Gathered \<longrightarrow> (\<forall>x \<in> set (async_rest input' nxt'). snd x < g))"
  using assms
proof (induction g input nxt nodes rule: gather_removes.induct)
  case (1 g input nxt nodes)
  obtain n2 i2 where p: "poll_async input nxt = Inr (n2, i2)" "async_ok G i2 n2"
    "async_rest i2 n2 = async_rest input nxt" "async_weight i2 n2 \<le> async_weight input nxt"
    "n2 = None \<Longrightarrow> async_weight i2 n2 < async_weight input nxt"
    using poll_async_ok [OF "1.prems"] by metis
  note def = gather_removes.simps [of g input nxt nodes]
  consider (wait) "n2 = None" | (fin) "n2 = Some None" | (item) c h where "n2 = Some (Some (c, h))"
    by (metis option.exhaust surj_pair)
  then show ?case
  proof cases
    case wait
    then show ?thesis using p def by (simp add: gathers_refl)
  next
    case fin
    then have "i2 = []" using p(2) by (simp add: async_ok_def)
    then show ?thesis using fin p def by (simp add: gathers_refl)
  next
    case (item c h)
    show ?thesis
    proof (cases "h < g")
      case True
      have "\<forall>x \<in> set (async_rest i2 n2). snd x < g"
        using p(2) item True by (fastforce simp: async_ok_def)
      then show ?thesis using p item True def by (simp add: gathers_refl)
    next
      case False
      let ?nodes = "if h = g then insert c nodes else nodes"
      have ok: "async_ok G i2 None" using p(2) item by (auto simp: async_ok_def)
      have eq: "gather_removes g input nxt nodes = gather_removes g i2 None ?nodes"
        using def p(1) item False by simp
      have rest: "async_rest input nxt = (c, h) # async_rest i2 None" using p(3) item by simp
      have w: "async_weight i2 None < async_weight input nxt" using p(4) item by simp
      have hc: "h = G c" using p(2) item by (simp add: async_ok_def)
      have "\<exists>w input' nxt' nodes'. gather_removes g i2 None ?nodes = Inr (w, input', nxt', nodes') \<and>
         async_ok G input' nxt' \<and> gathers G g (async_rest i2 None) ?nodes (async_rest input' nxt') nodes' \<and>
         async_weight input' nxt' \<le> async_weight i2 None \<and>
         (w = Waiting \<longrightarrow> async_weight input' nxt' < async_weight i2 None) \<and>
         (w = Gathered \<longrightarrow> (\<forall>x \<in> set (async_rest input' nxt'). snd x < g))"
        using "1.IH" p(1) item False ok by (cases "h = g") simp_all
      then obtain w input' nxt' nodes' where r: "gather_removes g i2 None ?nodes = Inr (w, input', nxt', nodes')"
         "async_ok G input' nxt'" "gathers G g (async_rest i2 None) ?nodes (async_rest input' nxt') nodes'"
         "async_weight input' nxt' \<le> async_weight i2 None"
         "w = Gathered \<longrightarrow> (\<forall>x \<in> set (async_rest input' nxt'). snd x < g)"
        by blast
      have "gathers G g (async_rest input nxt) nodes (async_rest input' nxt') nodes'"
        unfolding rest by (rule gathers_step [OF r(3)]) (use hc False in simp_all)
      then show ?thesis unfolding eq using r w by auto
    qed
  qed
qed


definition difference_rest :: "('c, 'e) SetDifferenceNodeStream \<Rightarrow> 'c list" where
  "difference_rest s = filter (\<lambda>c. c \<notin> remove_nodes s \<union> fst ` set (async_rest (remove_input s) (next_remove s)))
     (map fst (async_rest (keep_input s) (next_keep s)))"

definition difference_inv :: "('c \<Rightarrow> nat) \<Rightarrow> ('c, 'e) SetDifferenceNodeStream \<Rightarrow> bool" where
  "difference_inv G s \<longleftrightarrow> async_ok G (keep_input s) (next_keep s) \<and> async_ok G (remove_input s) (next_remove s) \<and>
     (\<forall>c \<in> remove_nodes s. remove_generation s = Some (G c)) \<and>
     (\<forall>x \<in> set (async_rest (keep_input s) (next_keep s)). \<forall>g. remove_generation s = Some g \<longrightarrow> snd x \<le> g)"

definition difference_mu :: "('c, 'e) SetDifferenceNodeStream \<Rightarrow> nat" where
  "difference_mu s = async_weight (keep_input s) (next_keep s) + async_weight (remove_input s) (next_remove s)"

text \<open>The state once the next changeset to keep is known.\<close>

definition difference_at :: "('c, 'e) SetDifferenceNodeStream \<Rightarrow> ('c \<times> nat, 'e) input \<Rightarrow> 'c \<Rightarrow> nat \<Rightarrow> ('c, 'e) SetDifferenceNodeStream" where
  "difference_at s ki c g =
     (let s = s\<lparr>keep_input := ki, next_keep := Some (Some (c, g))\<rparr>
      in if remove_generation s \<noteq> Some g then s\<lparr>remove_nodes := {}, remove_generation := Some g\<rparr> else s)"

lemma difference_at_ok:
  assumes inv: "difference_inv G s" and ki: "async_ok G ki (Some (Some (c, g)))"
    and keep: "async_rest ki (Some (Some (c, g))) = async_rest (keep_input s) (next_keep s)"
  shows "difference_inv G (difference_at s ki c g)" "remove_generation (difference_at s ki c g) = Some g"
    "difference_rest (difference_at s ki c g) = difference_rest s"
    "remove_input (difference_at s ki c g) = remove_input s" "next_remove (difference_at s ki c g) = next_remove s"
    "keep_input (difference_at s ki c g) = ki" "next_keep (difference_at s ki c g) = Some (Some (c, g))"
proof -
  have le: "snd x \<le> g" if "x \<in> set (async_rest ki (Some (Some (c, g))))" for x
    using ki that by (auto simp: async_ok_def)
  have gen: "snd x = G (fst x)" if "x \<in> set (async_rest ki (Some (Some (c, g))))" for x
    using ki that by (auto simp: async_ok_def)
  show "remove_generation (difference_at s ki c g) = Some g" by (simp add: difference_at_def Let_def)
  show "difference_inv G (difference_at s ki c g)"
    using inv ki le by (auto simp: difference_inv_def difference_at_def Let_def)
  have "fst x \<notin> remove_nodes s"
    if x: "x \<in> set (async_rest ki (Some (Some (c, g))))" and ne: "remove_generation s \<noteq> Some g" for x
  proof
    assume "fst x \<in> remove_nodes s"
    then have rg: "remove_generation s = Some (snd x)" using inv gen [OF x] by (simp add: difference_inv_def)
    have "(c, g) \<in> set (async_rest (keep_input s) (next_keep s))" using keep by (metis async_rest.simps(1) list.set_intros(1))
    then have "g \<le> snd x" using inv rg by (force simp: difference_inv_def)
    then show False using le [OF x] rg ne by simp
  qed
  then have rm: "d \<in> remove_nodes (difference_at s ki c g) \<longleftrightarrow> d \<in> remove_nodes s"
    if "d \<in> set (map fst (async_rest ki (Some (Some (c, g)))))" for d
    using that by (auto simp del: async_rest.simps simp: difference_at_def Let_def)
  have eqs: "remove_input (difference_at s ki c g) = remove_input s" "next_remove (difference_at s ki c g) = next_remove s"
    "keep_input (difference_at s ki c g) = ki" "next_keep (difference_at s ki c g) = Some (Some (c, g))"
    by (simp_all add: difference_at_def Let_def)
  show "difference_rest (difference_at s ki c g) = difference_rest s"
    unfolding difference_rest_def keep [symmetric] eqs by (rule filter_cong [OF refl]) (use rm in blast)
qed (simp_all add: difference_at_def Let_def)


lemma difference_iter_unfold:
  assumes "poll_async (keep_input s) (next_keep s) = Inr (Some (Some (c, g)), ki)"
    and "gather_removes g (remove_input s) (next_remove s) (remove_nodes (difference_at s ki c g)) = Inr (w, ri, nr, nodes)"
  shows "difference_iter s =
     (case w of
        Waiting \<Rightarrow> (Some NotReady, (difference_at s ki c g)\<lparr>remove_input := ri, next_remove := nr, remove_nodes := nodes\<rparr>)
      | Gathered \<Rightarrow>
          (if c \<notin> nodes then Some (Ready (Some c)) else None,
           (difference_at s ki c g)\<lparr>remove_input := ri, next_remove := nr, remove_nodes := nodes, next_keep := None\<rparr>))"
  using assms by (auto simp: difference_iter_def difference_at_def Let_def split: gathered.splits)

lemma filter_gathers:
  assumes "gathers G g rem nodes rem' nodes'" "\<forall>x \<in> set keep. G x \<le> g"
  shows "filter (\<lambda>c. c \<notin> nodes' \<union> fst ` set rem') keep = filter (\<lambda>c. c \<notin> nodes \<union> fst ` set rem) keep"
  using assms by (intro filter_cong refl) (simp add: gathers_def)

lemma difference_step:
  assumes inv: "difference_inv G s"
  shows "stream_step_ok (difference_inv G) (measure difference_mu) (\<lambda>s xs. xs = difference_rest s) s
     (fst (difference_iter s)) (snd (difference_iter s))"
proof -
  have "async_ok G (keep_input s) (next_keep s)" using inv by (simp add: difference_inv_def)
  from poll_async_ok [OF this] obtain nk ki where p:
    "poll_async (keep_input s) (next_keep s) = Inr (nk, ki)" "async_ok G ki nk"
    "async_rest ki nk = async_rest (keep_input s) (next_keep s)"
    "async_weight ki nk \<le> async_weight (keep_input s) (next_keep s)"
    "nk = None \<Longrightarrow> async_weight ki nk < async_weight (keep_input s) (next_keep s)" by metis
  consider (wait) "nk = None" | (fin) "nk = Some None" | (item) c g where "nk = Some (Some (c, g))"
    by (metis option.exhaust surj_pair)
  then show ?thesis
  proof cases
    case wait
    then show ?thesis
      using p inv by (simp add: difference_iter_def difference_inv_def difference_mu_def difference_rest_def)
  next
    case fin
    then have "async_rest (keep_input s) (next_keep s) = []" using p(2,3) by (simp add: async_ok_def)
    then show ?thesis using fin p(1) by (simp add: difference_iter_def difference_rest_def)
  next
    case (item c g)
    let ?s = "difference_at s ki c g"
    note at = difference_at_ok [OF inv p(2) [unfolded item] p(3) [unfolded item]]
    have rem: "async_ok G (remove_input s) (next_remove s)" using inv by (simp add: difference_inv_def)
    obtain w ri nr nodes where r:
      "gather_removes g (remove_input s) (next_remove s) (remove_nodes ?s) = Inr (w, ri, nr, nodes)"
      "async_ok G ri nr" "gathers G g (async_rest (remove_input s) (next_remove s)) (remove_nodes ?s) (async_rest ri nr) nodes"
      "async_weight ri nr \<le> async_weight (remove_input s) (next_remove s)"
      "w = Waiting \<longrightarrow> async_weight ri nr < async_weight (remove_input s) (next_remove s)"
      "w = Gathered \<longrightarrow> (\<forall>x \<in> set (async_rest ri nr). snd x < g)"
      using gather_removes_ok [OF rem, of g "remove_nodes ?s"] by blast
    have keep: "async_rest ki (Some (Some (c, g))) = (c, g) # items ki" by simp
    have gc: "g = G c" and le: "\<forall>x \<in> set (map fst ((c, g) # items ki)). G x \<le> g"
      using p(2) item by (fastforce simp: async_ok_def)+
    have nodes: "\<forall>x \<in> nodes. G x = g" using r(3) at(1,2) by (fastforce simp: gathers_def difference_inv_def)
    have drest: "difference_rest s = filter (\<lambda>c. c \<notin> nodes \<union> fst ` set (async_rest ri nr)) (c # map fst (items ki))"
      using filter_gathers [OF r(3) le] at(3) by (simp add: difference_rest_def at)
    note it = difference_iter_unfold [OF p(1) [unfolded item] r(1)]
    show ?thesis
    proof (cases w)
      case Waiting
      have "difference_inv G (?s\<lparr>remove_input := ri, next_remove := nr, remove_nodes := nodes\<rparr>)"
        using at(1,2) r(2) nodes by (simp add: difference_inv_def)
      then show ?thesis unfolding it using Waiting p(4) item r(5) drest at by (simp add: difference_mu_def difference_rest_def)
    next
      case Gathered
      let ?t = "?s\<lparr>remove_input := ri, next_remove := nr, remove_nodes := nodes, next_keep := None\<rparr>"
      have "async_ok G ki None" using p(2) item by (simp add: async_ok_def)
      then have inv': "difference_inv G ?t"
        using at(1,2,6,7) r(2) nodes by (simp add: difference_inv_def)
      have mu: "difference_mu ?t < difference_mu s" using p(4) item r(4) at(6) by (simp add: difference_mu_def)
      have "c \<notin> fst ` set (async_rest ri nr)"
        using r(2,6) Gathered gc by (force simp: async_ok_def)
      then have "difference_rest s = (if c \<notin> nodes then [c] else []) @ difference_rest ?t"
        using drest at(6) by (simp add: difference_rest_def)
      then show ?thesis unfolding it using Gathered inv' mu by simp
    qed
  qed
qed

interpretation dns: stream_iteration difference_iter "difference_inv G" "measure difference_mu" "\<lambda>s xs. xs = difference_rest s" for G
  by unfold_locales (simp, rule difference_step)

text \<open>C9: the difference of node streams. However the polls of the two inputs interleave, the
  difference finishes without an error and returns exactly the changesets of the first input that
  are not in the second, in the order of the first input.\<close>

theorem difference_correct:
  assumes "node_stream_ok F keep" "node_stream_ok F remove"
  shows "\<exists>N. \<forall>n \<ge> N. drive n difference_iter (difference_new F keep remove) =
     Some (Inr (filter (\<lambda>c. c \<notin> set (items remove)) (items keep)))"
proof -
  have ok: "async_ok (fetched_gen F) (add_generations_by_bonsai F s) None" if "node_stream_ok F s" for s
    using new_slot_ok [OF that] by (auto simp: slot_ok_def async_ok_def)
  have "difference_inv (fetched_gen F) (difference_new F keep remove)"
    using ok assms by (simp add: difference_inv_def difference_new_def)
  from dns.drive_finishes [OF this] show ?thesis
    using items_add_generations(1) [OF assms(1)] items_add_generations(1) [OF assms(2)]
    by (auto simp: difference_rest_def difference_new_def comp_def image_image)
qed

theorem difference_correct_witness:
  "\<exists>N. \<forall>n \<ge> N. drive n difference_iter
       (difference_new \<lparr>get_generation_number = Inr, get_parents = \<lambda>_. Inr []\<rparr>
          [Item 3, Pending, Item 2, Item 1] [Pending, Item 3, Item (1 :: nat)]) = Some (Inr [2])"
  using difference_correct [of "\<lparr>get_generation_number = Inr, get_parents = \<lambda>_. Inr []\<rparr>"
      "[Item 3, Pending, Item 2, Item 1]" "[Pending, Item 3, Item (1 :: nat)]"]
  by (simp add: node_stream_ok_def fetched_gen_def)

section \<open>Validation is correct\<close>

definition validated :: "nat option \<Rightarrow> 'c set \<Rightarrow> ('c \<times> nat) list \<Rightarrow> bool" where
  "validated lg seen xs \<longleftrightarrow> distinct (map fst xs) \<and> fst ` set xs \<inter> seen = {} \<and>
     sorted_wrt (\<lambda>a b. snd b \<le> snd a) xs \<and> (\<forall>l. lg = Some l \<longrightarrow> (\<forall>x \<in> set xs. snd x \<le> l))"

lemma validated_Cons:
  "validated lg seen ((c, g) # xs) \<longleftrightarrow>
     c \<notin> seen \<and> (\<forall>l. lg = Some l \<longrightarrow> g \<le> l) \<and> validated (Some g) (insert c seen) xs"
  by (cases lg) (auto simp: validated_def)

lemma drive_validate:
  assumes "\<forall>e. Fail e \<notin> set w" "length w < n"
  shows "validated lg seen (items w) \<Longrightarrow>
      drive n validate_iter \<lparr>wrapped = w, last_generation = lg, seen_hashes = seen\<rparr> = Some (Inr (map fst (items w)))"
    and "\<not> validated lg seen (items w) \<Longrightarrow>
      \<exists>msg. drive n validate_iter \<lparr>wrapped = w, last_generation = lg, seen_hashes = seen\<rparr> = Some (Inl (AssertionFailed msg))"
  using assms
proof (induction w arbitrary: n lg seen)
  case Nil
  { case 1 then show ?case by (cases n) (simp_all add: validate_iter_def) }
  { case 2 then show ?case by (simp add: validated_def) }
next
  case (Cons ev w)
  { case 1
    then obtain m where m: "n = Suc m" "length w < m" by (cases n) auto
    have nf: "\<forall>e. Fail e \<notin> set w" using 1 by simp
    show ?case using 1 m Cons.IH(1) [OF _ nf m(2)] by (cases ev) (auto simp: validate_iter_def validated_Cons split: option.splits) }
  { case 2
    then obtain m where m: "n = Suc m" "length w < m" by (cases n) auto
    have nf: "\<forall>e. Fail e \<notin> set w" using 2 by simp
    show ?case
    proof (cases ev)
      case Pending
      then show ?thesis using 2 m(1) Cons.IH(2) [OF _ nf m(2), of lg seen] by (simp add: validate_iter_def)
    next
      case (Item x)
      obtain c g where x: "x = (c, g)" by fastforce
      consider "c \<in> seen" | l where "c \<notin> seen" "lg = Some l" "l < g" | "c \<notin> seen" "\<forall>l. lg = Some l \<longrightarrow> g \<le> l"
        by (meson not_le)
      then show ?thesis
      proof cases
        case 3
        then have "\<not> validated (Some g) (insert c seen) (items w)" using 2 Item x by (simp add: validated_Cons)
        from Cons.IH(2) [OF this nf m(2)] show ?thesis
          using 3 m(1) Item x by (cases lg) (auto simp: validate_iter_def)
      qed (use m(1) Item x in \<open>simp_all add: validate_iter_def\<close>)
    next
      case (Fail e)
      then show ?thesis using 2 by auto
    qed }
qed

text \<open>C10: the validating wrapper lets a stream through unchanged exactly when it keeps the two promises
  of a node stream: no changeset twice, and generation numbers that never increase. Otherwise it
  stops at a failed assertion.\<close>

theorem validate_correct:
  assumes "\<forall>e. Fail e \<notin> set s" "\<forall>c \<in> set (items s). get_generation_number F c = Inr (fetched_gen F c)"
    and "length s < n"
  shows "if distinct (items s) \<and> sorted_wrt (\<lambda>a b. fetched_gen F b \<le> fetched_gen F a) (items s)
     then drive n validate_iter (validate_new F s) = Some (Inr (items s))
     else \<exists>msg. drive n validate_iter (validate_new F s) = Some (Inl (AssertionFailed msg))"
proof -
  let ?w = "add_generations_by_bonsai F s"
  have i: "items ?w = map (\<lambda>c. (c, fetched_gen F c)) (items s)" and nf: "\<forall>e. Fail e \<notin> set ?w" and len: "length ?w < n"
    using assms add_generations_known [of s F] by (simp_all add: add_generations_by_bonsai_def)
  have "validated None {} (items ?w) \<longleftrightarrow> distinct (items s) \<and> sorted_wrt (\<lambda>a b. fetched_gen F b \<le> fetched_gen F a) (items s)"
    by (simp add: validated_def i sorted_wrt_map comp_def)
  then show ?thesis using drive_validate [OF nf len, of None "{}"] by (simp add: validate_new_def i comp_def)
qed

theorem validate_correct_witness:
  "drive 9 validate_iter (validate_new \<lparr>get_generation_number = Inr, get_parents = \<lambda>_. Inr []\<rparr>
      [Item 3, Pending, Item (2 :: nat)]) = Some (Inr [3, 2]) \<and>
   (\<exists>msg. drive 9 validate_iter (validate_new \<lparr>get_generation_number = Inr, get_parents = \<lambda>_. Inr []\<rparr>
      [Item 2, Item (3 :: nat)]) = Some (Inl (AssertionFailed msg)))"
  using validate_correct [of "[Item 3, Pending, Item (2 :: nat)]" "\<lparr>get_generation_number = Inr, get_parents = \<lambda>_. Inr []\<rparr>" 9]
    validate_correct [of "[Item 2, Item (3 :: nat)]" "\<lparr>get_generation_number = Inr, get_parents = \<lambda>_. Inr []\<rparr>" 9]
  by (simp add: fetched_gen_def del: drive.simps)


end
