(* ===== verification/Intersection.thy ===== *)
theory Intersection
  imports Node_Streams "HOL-Library.Multiset"
begin

text \<open>
  The intersection of node streams (\<open>src/revset/src/intersectnodestream.rs\<close>) returns exactly the
  changesets that all inputs have.
\<close>

section \<open>Counting\<close>

definition node_count :: "('c \<times> nat) list \<Rightarrow> 'c \<Rightarrow> nat" where
  "node_count acc c = (case map_of acc c of Some k \<Rightarrow> k | None \<Rightarrow> 0)"

definition present :: "('c, 'e) slot list \<Rightarrow> 'c \<Rightarrow> nat" where
  "present inputs c = length (filter (\<lambda>i. c \<in> fst ` set (slot_rest i)) inputs)"

lemma node_count_Nil [simp]: "node_count [] c = 0"
  by (simp add: node_count_def)

lemma node_count_0: "c \<notin> fst ` set acc \<Longrightarrow> node_count acc c = 0"
  by (simp add: node_count_def map_of_eq_None_iff [symmetric])

lemma node_count_iff:
  assumes "distinct (map fst acc)" "c \<in> fst ` set acc"
  shows "(c, k) \<in> set acc \<longleftrightarrow> node_count acc c = k"
proof -
  obtain k0 where k0: "(c, k0) \<in> set acc" using assms(2) by auto
  then have "node_count acc c = k0" using map_of_is_SomeI [OF assms(1) k0] by (simp add: node_count_def)
  then show ?thesis using k0 eq_key_imp_eq_value [OF assms(1)] by blast
qed

lemma node_count_count_node: "node_count (count_node c acc) d = node_count acc d + (if d = c then 1 else 0)"
  by (induction c acc rule: count_node.induct) (auto simp: node_count_def)

lemma keys_count_node: "fst ` set (count_node c acc) = insert c (fst ` set acc)"
  by (induction c acc rule: count_node.induct) auto

lemma distinct_count_node: "distinct (map fst acc) \<Longrightarrow> distinct (map fst (count_node c acc))"
proof (induction c acc rule: count_node.induct)
  case (2 c d n m)
  then show ?case using keys_count_node [of c m] by (simp add: image_set del: set_map)
qed simp

lemma length_count_node: "length (count_node c acc) \<le> Suc (length acc)"
  by (induction c acc rule: count_node.induct) auto

lemma fold_count_node:
  "node_count (fold count_node cs acc) d = node_count acc d + count_list cs d"
  "fst ` set (fold count_node cs acc) = fst ` set acc \<union> set cs"
  "distinct (map fst acc) \<Longrightarrow> distinct (map fst (fold count_node cs acc))"
  "length (fold count_node cs acc) \<le> length acc + length cs"
proof (induction cs arbitrary: acc)
  case (Cons c cs)
  { case 1 then show ?case using Cons(1) [of "count_node c acc"] by (simp add: node_count_count_node) }
  { case 2 then show ?case using Cons(2) [of "count_node c acc"] by (simp add: keys_count_node) }
  { case 3 then show ?case using Cons(3) [of "count_node c acc"] by (simp add: distinct_count_node) }
  { case 4 then show ?case using Cons(4) [of "count_node c acc"] length_count_node [of c acc] by simp }
qed simp_all

lemma present_poll [simp]: "present (poll_all_inputs inputs) c = present inputs c"
  by (simp add: present_def poll_all_inputs_def filter_map comp_def)

lemma present_Cons: "present (i # inputs) c = (if c \<in> fst ` set (slot_rest i) then 1 else 0) + present inputs c"
  by (simp add: present_def)

lemma present_less: "i \<in> set inputs \<Longrightarrow> c \<notin> fst ` set (slot_rest i) \<Longrightarrow> present inputs c < length inputs"
  unfolding present_def by (rule length_filter_less)

lemma present_pos: "present inputs c > 0 \<longleftrightarrow> c \<in> fst ` rest inputs"
  by (auto simp: present_def rest_def filter_empty_conv)

lemma consume_slot_present:
  assumes "distinct (map fst (slot_rest s))"
  shows "(c \<in> fst ` set (slot_rest s)) =
     (c \<in> fst ` set (slot_rest (consume_slot P s)) \<or> (\<exists>x. slot_head s = Some x \<and> P x \<and> fst x = c))"
    and "slot_head s = Some x \<Longrightarrow> P x \<Longrightarrow> fst x \<notin> fst ` set (slot_rest (consume_slot P s))"
proof -
  show "(c \<in> fst ` set (slot_rest s)) =
     (c \<in> fst ` set (slot_rest (consume_slot P s)) \<or> (\<exists>x. slot_head s = Some x \<and> P x \<and> fst x = c))"
    unfolding consume_slot_rest [of s P] by force
  assume h: "slot_head s = Some x" "P x"
  then have "slot_rest s = x # slot_rest (consume_slot P s)"
    by (cases s rule: slot_head.cases) (auto simp: consume_slot_def)
  then show "fst x \<notin> fst ` set (slot_rest (consume_slot P s))" using assms by simp
qed

lemma present_consume:
  assumes "\<forall>i \<in> set inputs. distinct (map fst (slot_rest i))"
  shows "present (map (consume_slot P) inputs) c + count_list (map fst (filter P (heads inputs))) c = present inputs c"
  using assms
proof (induction inputs)
  case (Cons i inputs)
  have d: "distinct (map fst (slot_rest i))" using Cons.prems by simp
  show ?case
  proof (cases "slot_head i")
    case None
    then have "consume_slot P i = i" by (simp add: consume_slot_def)
    then show ?thesis using Cons None by (simp add: present_Cons heads_def List.map_filter_simps)
  next
    case (Some x)
    then have "heads (i # inputs) = x # heads inputs" by (simp add: heads_def List.map_filter_simps)
    moreover have "consume_slot P i = i" if "\<not> P x" using that Some by (simp add: consume_slot_def)
    ultimately show ?thesis
      using Cons consume_slot_present(1) [OF d, of c P] consume_slot_present(2) [OF d Some] Some
      by (cases "P x") (auto simp: present_Cons)
  qed
qed (simp add: present_def heads_def List.map_filter_simps)

lemma distinct_consume:
  "distinct (map fst (slot_rest s)) \<Longrightarrow> distinct (map fst (slot_rest (consume_slot P s)))"
  by (cases s rule: slot_head.cases) (auto simp: consume_slot_def)

lemma finished_rest: "slot_ok G i \<Longrightarrow> slot_finished i \<Longrightarrow> slot_rest i = []"
  by (cases i rule: slot_rest.cases) (auto simp: slot_ok_def slot_finished_def)

section \<open>The invariant\<close>

definition map_order :: "(('c \<times> nat) list \<Rightarrow> ('c \<times> nat) list) \<Rightarrow> bool" where
  "map_order ho \<longleftrightarrow> (\<forall>m. mset (ho m) = mset m)"

fun intersect_current_ok :: "('c \<Rightarrow> nat) \<Rightarrow> nat option \<Rightarrow> 'c set \<Rightarrow> ('c, 'e) slot list \<Rightarrow> bool" where
  "intersect_current_ok G None acc inputs \<longleftrightarrow> below G (fst ` rest inputs) acc"
| "intersect_current_ok G (Some g) acc inputs \<longleftrightarrow>
     (\<forall>x \<in> acc. G x = g) \<and> (\<exists>i \<in> set inputs. \<forall>x \<in> set (slot_rest i). snd x \<le> g)"

definition intersect_inv :: "('c \<Rightarrow> nat) \<Rightarrow> ('c, 'e) IntersectNodeStream \<Rightarrow> bool" where
  "intersect_inv G s \<longleftrightarrow> (\<forall>i \<in> set (i_inputs s). slot_ok G i \<and> distinct (map fst (slot_rest i))) \<and>
     distinct (map fst (i_accumulator s)) \<and> distinct (map fst (drained (i_drain s))) \<and>
     same_gen G (fst ` set (drained (i_drain s))) \<and>
     below G (fst ` set (i_accumulator s) \<union> fst ` rest (i_inputs s)) (fst ` set (drained (i_drain s))) \<and>
     same_gen G (fst ` set (i_accumulator s)) \<and>
     intersect_current_ok G (i_current_generation s) (fst ` set (i_accumulator s)) (i_inputs s)"

definition intersect_later :: "('c, 'e) IntersectNodeStream \<Rightarrow> 'c set" where
  "intersect_later s = {c \<in> fst ` set (i_accumulator s) \<union> fst ` rest (i_inputs s).
     node_count (i_accumulator s) c + present (i_inputs s) c = length (i_inputs s)}"

definition intersect_spec :: "('c \<Rightarrow> nat) \<Rightarrow> ('c, 'e) IntersectNodeStream \<Rightarrow> 'c list \<Rightarrow> bool" where
  "intersect_spec G s xs \<longleftrightarrow> distinct xs \<and> sorted_wrt (\<lambda>a b. G b \<le> G a) xs \<and>
     set xs = {c. (c, length (i_inputs s)) \<in> set (drained (i_drain s))} \<union> intersect_later s"

definition intersect_phase :: "('c, 'e) IntersectNodeStream \<Rightarrow> nat" where
  "intersect_phase s = phase (i_current_generation s) {g. \<exists>x \<in> set (heads (i_inputs s)). g \<le> snd x} (i_accumulator s = [])"

definition intersect_mu :: "('c, 'e) IntersectNodeStream \<Rightarrow> nat" where
  "intersect_mu s = 10 * weight (i_inputs s) + 2 * length (i_accumulator s) + length (drained (i_drain s)) + intersect_phase s"

section \<open>The loop body\<close>

definition i_polled :: "('c, 'e) IntersectNodeStream \<Rightarrow> ('c, 'e) IntersectNodeStream" where
  "i_polled s = s\<lparr>i_inputs := poll_all_inputs (i_inputs s)\<rparr>"

definition i_ready :: "('c, 'e) IntersectNodeStream \<Rightarrow> ('c, 'e) IntersectNodeStream" where
  "i_ready s = (i_polled s)\<lparr>i_drain := None\<rparr>"

definition i_advance :: "(('c \<times> nat) list \<Rightarrow> ('c \<times> nat) list) \<Rightarrow> ('c, 'e) IntersectNodeStream \<Rightarrow> ('c, 'e) IntersectNodeStream" where
  "i_advance ho s =
     (case i_current_generation s of
        None \<Rightarrow>
          if i_accumulator s = [] then intersect_update_current_generation s
          else s\<lparr>i_accumulator := [], i_drain := Some (ho (i_accumulator s))\<rparr>
      | Some _ \<Rightarrow> intersect_accumulate_nodes s)"

lemma length_poll_all [simp]: "length (poll_all_inputs inputs) = length inputs"
  by (simp add: poll_all_inputs_def)

lemma intersect_iter_unfold:
  assumes "intersect_inv G s"
  shows "intersect_iter ho s =
     (case drain_next (length (i_inputs s)) (drained (i_drain s)) of
        Some (x, d) \<Rightarrow> (Some (Ready (Some x)), (i_polled s)\<lparr>i_drain := Some d\<rparr>)
      | None \<Rightarrow>
          if \<not> all_inputs_ready (i_inputs (i_ready s)) then (Some NotReady, i_ready s)
          else let s' = i_advance ho (i_ready s)
               in if i_drain s' = None \<and> i_accumulator s' = [] \<and> any_input_finished (i_inputs s')
                  then (Some (Ready None), s') else (None, s'))"
proof -
  have "first_error (poll_all_inputs (i_inputs s)) = None"
    by (rule first_error_None [OF poll_all_ok, of _ G]) (use assms in \<open>simp add: intersect_inv_def\<close>)
  moreover have "(case i_drain s of None \<Rightarrow> None | Some d \<Rightarrow> drain_next n d) = drain_next n (drained (i_drain s))" for n
    by (cases "i_drain s") simp_all
  ultimately show ?thesis
    by (cases "drain_next (length (i_inputs s)) (drained (i_drain s))")
      (auto simp: intersect_iter_def Let_def i_polled_def i_ready_def i_advance_def)
qed

lemma drain_next_None: "drain_next n d = None \<longleftrightarrow> (\<forall>c. (c, n) \<notin> set d)"
  by (induction n d rule: drain_next.induct) auto

lemma drain_next_Some: "drain_next n d = Some (c, d') \<Longrightarrow> \<exists>pre. d = pre @ (c, n) # d' \<and> (\<forall>c. (c, n) \<notin> set pre)"
proof (induction n d rule: drain_next.induct)
  case (2 n csid count d)
  show ?case
  proof (cases "count = n")
    case True
    then show ?thesis using 2(2) by (intro exI [of _ "[]"]) simp
  next
    case False
    then obtain pre where "d = pre @ (c, n) # d'" "\<forall>c. (c, n) \<notin> set pre" using 2 by auto
    then show ?thesis using False by (intro exI [of _ "(csid, count) # pre"]) simp
  qed
qed simp

lemma i_polled:
  assumes "intersect_inv G s"
  shows "intersect_inv G (i_polled s)" "intersect_mu (i_polled s) \<le> intersect_mu s"
    "intersect_spec G (i_polled s) = intersect_spec G s"
    "\<not> all_inputs_ready (i_inputs (i_polled s)) \<Longrightarrow> intersect_mu (i_polled s) < intersect_mu s"
proof -
  have ok: "\<forall>i \<in> set (i_inputs s). slot_ok G i" using assms by (simp add: intersect_inv_def)
  have cur: "intersect_current_ok G c acc (poll_all_inputs inputs) = intersect_current_ok G c acc inputs"
    for c acc and inputs :: "('a, 'b) slot list"
    by (cases c) (simp_all add: poll_all_inputs_def rest_poll [unfolded poll_all_inputs_def])
  show "intersect_inv G (i_polled s)"
    using assms poll_all_ok [OF ok] unfolding intersect_inv_def
    by (simp add: i_polled_def cur) (simp add: poll_all_inputs_def)
  show "intersect_spec G (i_polled s) = intersect_spec G s"
    by (rule ext) (simp add: intersect_spec_def intersect_later_def i_polled_def)
  have ph: "intersect_phase (i_polled s) \<le> intersect_phase s"
    using heads_poll [of "i_inputs s"]
    by (cases "i_current_generation s") (auto simp: intersect_phase_def i_polled_def)
  then show "intersect_mu (i_polled s) \<le> intersect_mu s"
    using weight_poll [of "i_inputs s"] by (simp add: intersect_mu_def) (simp add: i_polled_def)
  assume "\<not> all_inputs_ready (i_inputs (i_polled s))"
  then show "intersect_mu (i_polled s) < intersect_mu s"
    using ph weight_poll_less [OF ok] by (simp add: intersect_mu_def) (simp add: i_polled_def)
qed


lemma i_ready:
  assumes "intersect_inv G s" "drain_next (length (i_inputs s)) (drained (i_drain s)) = None"
  shows "intersect_inv G (i_ready s)" "intersect_mu (i_ready s) \<le> intersect_mu s"
    "intersect_spec G (i_ready s) = intersect_spec G s"
    "\<not> all_inputs_ready (i_inputs (i_ready s)) \<Longrightarrow> intersect_mu (i_ready s) < intersect_mu s"
    "i_drain (i_ready s) = None"
proof -
  note p = i_polled [OF assms(1)]
  have "same_gen G {}" "below G A {}" for A by (simp_all add: same_gen_def below_def)
  then show "intersect_inv G (i_ready s)" using p(1) by (simp add: intersect_inv_def i_ready_def)
  have mu: "intersect_mu (i_ready s) \<le> intersect_mu (i_polled s)"
    by (simp add: intersect_mu_def intersect_phase_def i_ready_def)
  then show "intersect_mu (i_ready s) \<le> intersect_mu s" using p(2) by simp
  have "intersect_spec G (i_ready s) = intersect_spec G (i_polled s)"
    using assms(2) unfolding drain_next_None
    by (intro ext) (simp add: intersect_spec_def intersect_later_def i_ready_def i_polled_def)
  then show "intersect_spec G (i_ready s) = intersect_spec G s" using p(3) by simp
  show "intersect_mu (i_ready s) < intersect_mu s" if "\<not> all_inputs_ready (i_inputs (i_ready s))"
    using that p(4) mu by (simp add: i_ready_def)
  show "i_drain (i_ready s) = None" by (simp add: i_ready_def)
qed

definition intersect_goes_on ::
    "('c \<Rightarrow> nat) \<Rightarrow> ('c, 'e) IntersectNodeStream \<Rightarrow> ('c, 'e) IntersectNodeStream \<Rightarrow> bool" where
  "intersect_goes_on G s s' \<longleftrightarrow> intersect_inv G s' \<and> intersect_spec G s' = intersect_spec G s \<and>
     (\<not> (i_drain s' = None \<and> i_accumulator s' = [] \<and> any_input_finished (i_inputs s')) \<longrightarrow> intersect_mu s' < intersect_mu s)"

lemma intersect_drains:
  assumes "intersect_inv G s" "map_order ho" "i_drain s = None"
    and "i_current_generation s = None" "i_accumulator s \<noteq> []"
  shows "intersect_goes_on G s (s\<lparr>i_accumulator := [], i_drain := Some (ho (i_accumulator s))\<rparr>)"
proof -
  let ?acc = "i_accumulator s" and ?in = "i_inputs s"
  let ?t = "s\<lparr>i_accumulator := [], i_drain := Some (ho ?acc)\<rparr>"
  have inv: "\<forall>i \<in> set ?in. slot_ok G i \<and> distinct (map fst (slot_rest i))" "distinct (map fst ?acc)"
      "same_gen G (fst ` set ?acc)" "below G (fst ` rest ?in) (fst ` set ?acc)"
    using assms(1,4) by (simp_all add: intersect_inv_def)
  have m: "mset (ho ?acc) = mset ?acc" using assms(2) by (simp add: map_order_def)
  have "mset (map fst (ho ?acc)) = mset (map fst ?acc)" using m by simp
  then have "distinct (map fst (ho ?acc))" using inv(2) mset_eq_imp_distinct_iff by blast
  then have ho: "set (ho ?acc) = set ?acc" "length (ho ?acc) = length ?acc" "distinct (map fst (ho ?acc))"
    using mset_eq_setD [OF m] mset_eq_length [OF m] by simp_all
  have sets: "same_gen G {}" "below G {} A" "below G A {}" for A by (simp_all add: same_gen_def below_def)
  have "intersect_inv G ?t" using inv ho(1,3) assms(4) sets by (simp add: intersect_inv_def)
  moreover have "intersect_spec G ?t = intersect_spec G s"
  proof -
    have disj: "c \<notin> fst ` rest ?in" if "c \<in> fst ` set ?acc" for c
      using inv(4) that unfolding below_def by blast
    have pres: "present ?in c = 0" if "c \<in> fst ` set ?acc" for c
      using disj [OF that] present_pos [of ?in c] by simp
    have "{c. (c, length ?in) \<in> set ?acc} \<union> intersect_later ?t = intersect_later s"
    proof (rule set_eqI)
      fix c
      show "c \<in> {c. (c, length ?in) \<in> set ?acc} \<union> intersect_later ?t \<longleftrightarrow> c \<in> intersect_later s"
      proof (cases "c \<in> fst ` set ?acc")
        case True
        then have "(c, k) \<in> set ?acc \<longleftrightarrow> node_count ?acc c = k" for k
          by (rule node_count_iff [OF inv(2)])
        then show ?thesis using True disj [OF True] pres [OF True] by (simp add: intersect_later_def)
      next
        case False
        then have "node_count ?acc c = 0" by (rule node_count_0)
        moreover have "(c, k) \<notin> set ?acc" for k using False by force
        ultimately show ?thesis using False by (simp add: intersect_later_def)
      qed
    qed
    then show ?thesis using ho(1) assms(3) by (intro ext) (simp add: intersect_spec_def)
  qed
  moreover have "intersect_mu ?t < intersect_mu s"
    using ho(2) assms(3-5) by (cases ?acc) (simp_all add: intersect_mu_def intersect_phase_def)
  ultimately show ?thesis by (simp add: intersect_goes_on_def)
qed

lemma intersect_updates:
  assumes "intersect_inv G s" "all_inputs_ready (i_inputs s)"
    and "i_drain s = None" "i_current_generation s = None" "i_accumulator s = []"
  shows "intersect_goes_on G s (intersect_update_current_generation s)"
proof -
  have ok: "\<forall>i \<in> set (i_inputs s). slot_ok G i" using assms(1) by (simp add: intersect_inv_def)
  let ?m = "minimum (map snd (heads (i_inputs s)))"
  have upd: "intersect_update_current_generation s = s\<lparr>i_current_generation := ?m\<rparr>"
    using assms(2) by (simp add: intersect_update_current_generation_def heads_def)
  show ?thesis
  proof (cases ?m)
    case None
    then have h: "heads (i_inputs s) = []" by (simp add: minimum_def split: list.splits)
    have "any_input_finished (i_inputs s)"
    proof (rule ccontr)
      assume nf: "\<not> any_input_finished (i_inputs s)"
      then have "\<forall>i \<in> set (i_inputs s). \<not> slot_finished i" "i_inputs s \<noteq> []"
        by (auto simp: any_input_finished_def list_ex_iff split: if_splits)
      then show False using no_heads [OF assms(2) _ h] by blast
    qed
    moreover have "intersect_update_current_generation s = s" unfolding upd None using assms(4) by simp
    ultimately show ?thesis using assms(1,3,5) by (simp add: intersect_goes_on_def)
  next
    case (Some m)
    obtain x where x: "x \<in> set (heads (i_inputs s))" "snd x = m"
      using minimum_heads [OF Some] by auto
    then obtain i where i: "i \<in> set (i_inputs s)" "slot_head i = Some x" by (auto simp: set_heads)
    then obtain xs where "slot_rest i = x # xs" using slot_head_rest by blast
    moreover have "slot_ok G i" using ok i(1) by blast
    ultimately have "\<forall>y \<in> set (slot_rest i). snd y \<le> m" using x(2) by (auto simp: slot_ok_def)
    then have "intersect_inv G (intersect_update_current_generation s)"
      unfolding upd Some using assms(1,5) i(1) by (auto simp: intersect_inv_def)
    moreover have "intersect_spec G (intersect_update_current_generation s) = intersect_spec G s"
      unfolding upd by (simp add: intersect_spec_def fun_eq_iff intersect_later_def)
    moreover have "intersect_mu (intersect_update_current_generation s) < intersect_mu s"
      unfolding upd Some using assms(4,5) x by (auto simp: intersect_mu_def intersect_phase_def)
    ultimately show ?thesis by (simp add: intersect_goes_on_def)
  qed
qed


text \<open>Accumulating: heads of the current generation are counted, heads above it are dropped. A dropped
  changeset is missing from the input that has the lowest head.\<close>

lemma accumulate_later:
  assumes ok: "\<forall>i \<in> set inputs. slot_ok G i \<and> distinct (map fst (slot_rest i))"
    and acc: "\<forall>x \<in> fst ` set acc. G x = g" and low: "\<exists>i \<in> set inputs. \<forall>x \<in> set (slot_rest i). snd x \<le> g"
    and found: "found = filter (\<lambda>x. g \<le> snd x) (heads inputs)" and current: "current = filter (\<lambda>x. snd x = g) (heads inputs)"
    and inputs': "inputs' = map (consume_slot (\<lambda>x. g \<le> snd x)) inputs" and acc': "acc' = fold count_node (map fst current) acc"
  shows "c \<in> fst ` set acc' \<union> fst ` rest inputs' \<and> node_count acc' c + present inputs' c = length inputs \<longleftrightarrow>
     c \<in> fst ` set acc \<union> fst ` rest inputs \<and> node_count acc c + present inputs c = length inputs"
proof -
  have gen: "snd x = G (fst x)" if "x \<in> set (heads inputs)" for x
    using rest_gen [of inputs G x] heads_rest [OF that] ok by blast
  have cnt: "node_count acc' c = node_count acc c + count_list (map fst current) c"
    and pres: "present inputs' c + count_list (map fst found) c = present inputs c"
    using fold_count_node(1) [of "map fst current" acc c] present_consume [of inputs "\<lambda>x. g \<le> snd x" c] ok
    by (simp_all add: acc' inputs' found)
  have mem: "c \<in> fst ` set a \<union> fst ` rest i \<longleftrightarrow> c \<in> fst ` set a \<or> 0 < present i c" for a :: "('a \<times> nat) list" and i :: "('a, 'b) slot list"
    by (simp only: Un_iff present_pos)
  have keys: "fst ` set acc' = fst ` set acc \<union> fst ` set current" by (simp add: acc' fold_count_node(2))
  show ?thesis
  proof (cases "g < G c")
    case True
    then have na: "c \<notin> fst ` set acc" using acc by force
    then have "node_count acc c = 0" by (rule node_count_0)
    moreover have nc: "c \<notin> fst ` set current" using True gen current by force
    then have "count_list (map fst current) c = 0" by (simp add: count_list_0_iff)
    moreover have "present inputs c < length inputs"
    proof -
      obtain i where i: "i \<in> set inputs" "\<forall>x \<in> set (slot_rest i). snd x \<le> g" using low by blast
      have "c \<notin> fst ` set (slot_rest i)"
      proof
        assume "c \<in> fst ` set (slot_rest i)"
        then obtain x where x: "x \<in> set (slot_rest i)" "c = fst x" by blast
        then have "snd x = G c" using ok i(1) by (force simp: slot_ok_def)
        then show False using i(2) x(1) True by force
      qed
      then show ?thesis by (rule present_less [OF i(1)])
    qed
    ultimately show ?thesis using cnt pres by linarith
  next
    case False
    have "count_list (map fst found) c = count_list (map fst current) c"
    proof -
      have "filter (\<lambda>x. fst x = c) found = filter (\<lambda>x. fst x = c) current"
        unfolding found current filter_filter using gen False by (intro filter_cong refl) force
      then show ?thesis by (simp add: count_list_eq_length_filter filter_map comp_def eq_commute)
    qed
    moreover have "c \<in> fst ` set current \<longleftrightarrow> 0 < count_list (map fst current) c"
      using count_list_0_iff [of "map fst current" c] by auto
    ultimately show ?thesis using cnt pres keys unfolding mem by auto
  qed
qed

lemma intersect_accumulates:
  assumes "intersect_inv G s" "all_inputs_ready (i_inputs s)"
    and "i_drain s = None" "i_current_generation s = Some g"
  shows "intersect_goes_on G s (intersect_accumulate_nodes s)"
proof -
  let ?found = "filter (\<lambda>x. g \<le> snd x) (heads (i_inputs s))" and ?current = "filter (\<lambda>x. snd x = g) (heads (i_inputs s))"
  let ?in = "map (consume_slot (\<lambda>x. g \<le> snd x)) (i_inputs s)" and ?acc = "fold count_node (map fst ?current) (i_accumulator s)"
  let ?t = "s\<lparr>i_inputs := ?in, i_accumulator := ?acc, i_current_generation := if ?found = [] then None else Some g\<rparr>"
  have ok: "\<forall>i \<in> set (i_inputs s). slot_ok G i \<and> distinct (map fst (slot_rest i))"
    and dacc: "distinct (map fst (i_accumulator s))"
    and acc: "\<forall>x \<in> fst ` set (i_accumulator s). G x = g"
    and low: "\<exists>i \<in> set (i_inputs s). \<forall>x \<in> set (slot_rest i). snd x \<le> g"
    using assms(1,4) by (simp_all add: intersect_inv_def)
  have oks: "\<forall>i \<in> set (i_inputs s). slot_ok G i" using ok by blast
  have st: "intersect_accumulate_nodes s = ?t"
    using assms(4) by (simp add: intersect_accumulate_nodes_def heads_def Let_def case_prod_unfold)
  have rest: "rest (i_inputs s) = rest ?in \<union> set ?found" by (rule rest_consume)
  have gen: "snd x = G (fst x)" if "x \<in> set (heads (i_inputs s))" for x
    using rest_gen [OF oks heads_rest [OF that]] .
  have acc': "\<forall>x \<in> fst ` set ?acc. G x = g"
    unfolding fold_count_node(2) using acc gen by auto
  have low': "\<exists>i \<in> set ?in. \<forall>x \<in> set (slot_rest i). snd x \<le> g"
  proof -
    obtain i where i: "i \<in> set (i_inputs s)" "\<forall>x \<in> set (slot_rest i). snd x \<le> g" using low by blast
    have "set (slot_rest (consume_slot P i)) \<subseteq> set (slot_rest i)" for P using consume_slot_rest [of i P] by blast
    then show ?thesis using i by auto
  qed
  have below: "below G (fst ` rest ?in) (fst ` set ?acc)" if f: "?found = []"
    unfolding below_def
  proof (intro ballI)
    fix x y
    assume x: "x \<in> fst ` set ?acc" and "y \<in> fst ` rest ?in"
    then obtain z where z: "z \<in> rest (i_inputs s)" "y = fst z" using rest by blast
    then obtain i where i: "i \<in> set (i_inputs s)" "z \<in> set (slot_rest i)" by (auto simp: rest_def)
    have i': "slot_ok G i" "slot_ready i" "\<not> slot_finished i"
      using i assms(2) ok finished_rest [of G i] by (auto simp: all_inputs_ready_def list_all_iff)
    obtain h where h: "slot_head i = Some h" "snd z \<le> snd h" using ready_head [OF i' i(2)] by blast
    have "h \<in> set (heads (i_inputs s))" using i(1) h(1) by (auto simp: set_heads)
    then have "snd h < g" using f by (auto simp: filter_empty_conv not_le)
    moreover have "G x = g" using acc' x by (rule bspec)
    ultimately show "G y < G x" using h(2) rest_gen [OF oks z(1)] z(2) by simp
  qed
  have inv: "intersect_inv G ?t"
  proof -
    have "same_gen G (fst ` set ?acc)" using acc' by (simp only: same_gen_def) metis
    moreover have "same_gen G {}" "below G B {}" for B by (simp_all add: same_gen_def below_def)
    moreover have "\<forall>i \<in> set ?in. slot_ok G i \<and> distinct (map fst (slot_rest i))"
      using ok consume_slot_ok distinct_consume by fastforce
    moreover have "distinct (map fst ?acc)" using fold_count_node(3) [OF dacc] .
    ultimately show ?thesis
      using acc' low' below assms(3) by (cases "?found = []") (simp_all only: intersect_inv_def, simp_all)
  qed
  have "intersect_later ?t = intersect_later s"
    using accumulate_later [OF ok acc low refl refl refl refl] by (simp add: intersect_later_def)
  then have spec: "intersect_spec G ?t = intersect_spec G s" by (intro ext) (simp add: intersect_spec_def)
  have "length ?current \<le> length ?found"
  proof -
    have "?current = filter (\<lambda>x. snd x = g) ?found" by (simp add: filter_filter) (metis le_refl)
    then show ?thesis by (metis length_filter_le)
  qed
  moreover have "length ?acc \<le> length (i_accumulator s) + length ?current" using fold_count_node(4) [of "map fst ?current"] by simp
  moreover have "weight ?in + length ?found = weight (i_inputs s)" by (rule weight_consume)
  moreover have "intersect_phase ?t \<le> 3" by (simp add: intersect_phase_def phase_le)
  moreover have "intersect_phase s = 3 \<and> intersect_phase ?t \<le> 2" if "?found = []"
    using that assms(4) by (auto simp: intersect_phase_def filter_empty_conv)
  ultimately have "intersect_mu ?t < intersect_mu s"
    by (cases "?found = []") (auto simp: intersect_mu_def neq_Nil_conv)
  with inv spec show ?thesis unfolding st by (simp add: intersect_goes_on_def)
qed


section \<open>Correctness\<close>

lemma intersect_advances:
  assumes "intersect_inv G s" "map_order ho" "all_inputs_ready (i_inputs s)" "i_drain s = None"
  shows "intersect_goes_on G s (i_advance ho s)"
proof (cases "i_current_generation s")
  case None
  then show ?thesis
    using intersect_drains [OF assms(1,2,4) None] intersect_updates [OF assms(1,3,4) None]
    by (cases "i_accumulator s = []") (simp_all add: i_advance_def)
next
  case (Some g)
  then show ?thesis using intersect_accumulates [OF assms(1,3,4) Some] by (simp add: i_advance_def)
qed

lemma intersect_emits:
  assumes "intersect_inv G s" "drain_next (length (i_inputs s)) (drained (i_drain s)) = Some (x, d)"
  shows "stream_step_ok (intersect_inv G) (measure intersect_mu) (intersect_spec G) s (Some (Ready (Some x))) ((i_polled s)\<lparr>i_drain := Some d\<rparr>)"
proof -
  let ?s = "i_polled s" and ?t = "(i_polled s)\<lparr>i_drain := Some d\<rparr>" and ?n = "length (i_inputs s)"
  note p = i_polled [OF assms(1)]
  obtain pre where d: "drained (i_drain s) = pre @ (x, ?n) # d" "\<forall>c. (c, ?n) \<notin> set pre"
    using drain_next_Some [OF assms(2)] by blast
  have d': "drained (i_drain ?s) = pre @ (x, ?n) # d" "length (i_inputs ?s) = ?n" using d by (simp_all add: i_polled_def)
  let ?later = "fst ` set (i_accumulator ?s) \<union> fst ` rest (i_inputs ?s)" and ?D = "fst ` set (pre @ (x, ?n) # d)"
  have dist: "distinct (map fst (pre @ (x, ?n) # d))" and same: "same_gen G ?D" and bel: "below G ?later ?D"
    using p(1) unfolding intersect_inv_def d'(1) by simp_all
  have "same_gen G (fst ` set d)" using same by (rule same_gen_mono) auto
  moreover have "below G ?later (fst ` set d)" using bel by (rule below_mono) auto
  ultimately have inv: "intersect_inv G ?t" using p(1) dist by (simp add: intersect_inv_def)
  have "intersect_mu ?t < intersect_mu ?s" using d'(1) by (simp add: intersect_mu_def intersect_phase_def)
  then have mu: "intersect_mu ?t < intersect_mu s" using p(2) by simp
  have sub: "intersect_later ?s \<subseteq> ?later" by (auto simp: intersect_later_def)
  have "intersect_spec G ?s (x # xs)" if "intersect_spec G ?t xs" for xs
  proof -
    have xs: "distinct xs" "sorted_wrt (\<lambda>a b. G b \<le> G a) xs" "set xs = {c. (c, ?n) \<in> set d} \<union> intersect_later ?s"
      using that d'(2) by (simp_all add: intersect_spec_def intersect_later_def)
    have xD: "x \<in> ?D" by simp
    have le: "G y \<le> G x" if y: "y \<in> set xs" for y
    proof (cases "(y, ?n) \<in> set d")
      case True
      then have "y \<in> ?D" by force
      then show ?thesis using same [unfolded same_gen_def, rule_format, of y x] xD by simp
    next
      case False
      then have "y \<in> ?later" using y xs(3) sub by blast
      then show ?thesis using bel [unfolded below_def, rule_format, OF xD] by (simp add: less_imp_le)
    qed
    have "x \<notin> ?later" using bel [unfolded below_def, rule_format, OF xD, of x] by blast
    moreover have "(x, ?n) \<notin> set d" using dist by force
    ultimately have "x \<notin> set xs" using xs(3) sub by blast
    moreover have "{c. (c, ?n) \<in> set (pre @ (x, ?n) # d)} = insert x {c. (c, ?n) \<in> set d}" using d(2) by auto
    ultimately show ?thesis using xs le d' by (simp add: intersect_spec_def)
  qed
  then show ?thesis using inv mu p(3) by simp
qed

lemma intersect_finished:
  assumes "i_drain s = None" "i_accumulator s = []" "any_input_finished (i_inputs s)" "intersect_inv G s"
  shows "intersect_spec G s []"
proof -
  have "present (i_inputs s) c \<noteq> length (i_inputs s)" if "c \<in> fst ` rest (i_inputs s)" for c
  proof -
    have "i_inputs s \<noteq> []" using that by (auto simp: rest_def)
    then obtain i where i: "i \<in> set (i_inputs s)" "slot_finished i"
      using assms(3) by (auto simp: any_input_finished_def list_ex_iff)
    have "slot_rest i = []" using finished_rest [OF _ i(2), of G] assms(4) i(1) by (simp add: intersect_inv_def)
    then show ?thesis using present_less [OF i(1), of c] by simp
  qed
  then show ?thesis using assms(1,2) by (simp add: intersect_spec_def intersect_later_def)
qed

lemma intersect_step:
  assumes "map_order ho" "intersect_inv G s"
  shows "stream_step_ok (intersect_inv G) (measure intersect_mu) (intersect_spec G) s (fst (intersect_iter ho s)) (snd (intersect_iter ho s))"
proof (cases "drain_next (length (i_inputs s)) (drained (i_drain s))")
  case (Some xd)
  then show ?thesis
    using intersect_emits [OF assms(2), of "fst xd" "snd xd"] intersect_iter_unfold [OF assms(2), of ho]
    by (simp add: case_prod_unfold)
next
  case None
  note r = i_ready [OF assms(2) None]
  show ?thesis
  proof (cases "all_inputs_ready (i_inputs (i_ready s))")
    case False
    then show ?thesis using r None intersect_iter_unfold [OF assms(2), of ho] by simp
  next
    case True
    let ?t = "i_advance ho (i_ready s)"
    have go: "intersect_goes_on G (i_ready s) ?t" by (rule intersect_advances [OF r(1) assms(1) True r(5)])
    show ?thesis
    proof (cases "i_drain ?t = None \<and> i_accumulator ?t = [] \<and> any_input_finished (i_inputs ?t)")
      case fin: True
      have "intersect_inv G ?t" using go by (simp add: intersect_goes_on_def)
      then have "intersect_spec G ?t []" using fin intersect_finished [of ?t G] by blast
      then have "intersect_spec G s []" using go r(3) by (simp add: intersect_goes_on_def)
      then show ?thesis using True fin None intersect_iter_unfold [OF assms(2), of ho] by (simp add: Let_def)
    next
      case fin: False
      then show ?thesis using True go r None intersect_iter_unfold [OF assms(2), of ho]
        by (auto simp: Let_def intersect_goes_on_def)
    qed
  qed
qed

interpretation ins: stream_iteration "intersect_iter ho" "\<lambda>s. map_order ho \<and> intersect_inv G s" "measure intersect_mu" "intersect_spec G" for ho G
proof
  show "wf (measure intersect_mu)" by simp
  fix s :: "('a, 'b) IntersectNodeStream"
  assume inv: "map_order ho \<and> intersect_inv G s"
  then have "stream_step_ok (intersect_inv G) (measure intersect_mu) (intersect_spec G) s (fst (intersect_iter ho s)) (snd (intersect_iter ho s))"
    using intersect_step by blast
  with inv show "stream_step_ok (\<lambda>s. map_order ho \<and> intersect_inv G s) (measure intersect_mu) (intersect_spec G) s
      (fst (intersect_iter ho s)) (snd (intersect_iter ho s))"
    by (auto intro: stream_step_ok_weaken)
qed

lemma intersect_finish:
  assumes "map_order ho" "\<forall>i \<in> set inputs. node_stream_ok F i \<and> distinct (items i)"
  shows "\<exists>N xs. (\<forall>n \<ge> N. drive n (intersect_iter ho) (intersect_new F inputs) = Some (Inr xs)) \<and>
     distinct xs \<and> sorted_wrt (\<lambda>a b. fetched_gen F b \<le> fetched_gen F a) xs \<and>
     set xs = (if inputs = [] then {} else \<Inter>i \<in> set inputs. set (items i))"
proof -
  let ?s = "intersect_new F inputs" and ?add = "\<lambda>i. (add_generations_by_bonsai F i, NotReady)"
  have keys: "map fst (items (add_generations_by_bonsai F i)) = items i" if "i \<in> set inputs" for i
    using items_add_generations(1) [of F i] assms(2) that by (simp add: comp_def)
  have slots: "\<forall>i \<in> set inputs. slot_ok (fetched_gen F) (?add i) \<and> distinct (map fst (slot_rest (?add i)))"
    using assms(2) new_slot_ok [of F] keys by simp
  have "intersect_inv (fetched_gen F) ?s"
    using slots by (simp add: intersect_inv_def intersect_new_def same_gen_def below_def)
  with assms(1) have "map_order ho \<and> intersect_inv (fetched_gen F) ?s" by blast
  from ins.drive_finishes [OF this] obtain N xs where
    xs: "\<forall>n \<ge> N. drive n (intersect_iter ho) ?s = Some (Inr xs)" "intersect_spec (fetched_gen F) ?s xs" by blast
  have mem: "fst ` set (items (add_generations_by_bonsai F i)) = set (items i)" if "i \<in> set inputs" for i
    using keys [OF that] by (metis list.set_map)
  have "present (map ?add inputs) c = length (filter (\<lambda>i. c \<in> set (items i)) inputs)" for c
    using mem by (simp add: present_def filter_map comp_def cong: filter_cong)
  moreover have "fst ` rest (map ?add inputs) = (\<Union>i \<in> set inputs. set (items i))"
    using rest_new [of inputs F] assms(2) by blast
  moreover have "length (filter P inputs) = length inputs \<longleftrightarrow> (\<forall>i \<in> set inputs. P i)" for P
    by (metis filter_True length_filter_less less_irrefl)
  ultimately have "intersect_later ?s = (if inputs = [] then {} else \<Inter>i \<in> set inputs. set (items i))"
    by (auto simp: intersect_later_def intersect_new_def neq_Nil_conv)
  moreover have "i_drain ?s = None" by (simp add: intersect_new_def)
  ultimately have "distinct xs \<and> sorted_wrt (\<lambda>a b. fetched_gen F b \<le> fetched_gen F a) xs \<and>
     set xs = (if inputs = [] then {} else \<Inter>i \<in> set inputs. set (items i))"
    using xs(2) by (simp add: intersect_spec_def)
  with xs(1) show ?thesis by blast
qed

text \<open>C8: the intersection of node streams that do not repeat changesets. However the polls of the
  inputs interleave, and in whatever order the hash map is drained, it finishes without an error and
  returns every changeset that all inputs have exactly once, in an order in which generation numbers
  never increase; with no inputs it returns nothing.\<close>

theorem intersect_correct:
  assumes "map_order ho" "\<forall>i \<in> set inputs. node_stream_ok F i \<and> distinct (items i)"
  shows "\<exists>N xs. (\<forall>n \<ge> N. drive n (intersect_iter ho) (intersect_new F inputs) = Some (Inr xs)) \<and>
     distinct xs \<and> sorted_wrt (\<lambda>a b. fetched_gen F b \<le> fetched_gen F a) xs \<and>
     set xs = (if inputs = [] then {} else \<Inter>i \<in> set inputs. set (items i))"
  using intersect_finish [OF assms] .

theorem intersect_correct_witness:
  "\<exists>N xs. (\<forall>n \<ge> N. drive n (intersect_iter id)
       (intersect_new \<lparr>get_generation_number = Inr, get_parents = \<lambda>_. Inr []\<rparr>
          [[Item 3, Pending, Item 2, Item 1], [Pending, Item 3, Item (1 :: nat)]]) = Some (Inr xs)) \<and>
     distinct xs \<and> set xs = {1, 3}"
proof -
  let ?F = "\<lparr>get_generation_number = Inr, get_parents = \<lambda>_. Inr []\<rparr> :: nat ChangesetFetcher"
  let ?is = "[[Item 3, Pending, Item 2, Item 1], [Pending, Item 3, Item 1]] :: (nat, nat revset_error) input list"
  have ok: "\<forall>i \<in> set ?is. node_stream_ok ?F i \<and> distinct (items i)" by (simp add: node_stream_ok_def fetched_gen_def)
  have "map_order id" by (simp add: map_order_def)
  from intersect_correct [OF this ok] obtain N xs where
    "\<forall>n \<ge> N. drive n (intersect_iter id) (intersect_new ?F ?is) = Some (Inr xs)" "distinct xs"
    "set xs = (if ?is = [] then {} else \<Inter>i \<in> set ?is. set (items i))" by blast
  moreover have "(\<Inter>i \<in> set ?is. set (items i)) = {1, 3}" by auto
  ultimately show ?thesis by auto
qed

end
