(* ===== verification/Bookmarks.thy ===== *)
theory Bookmarks
  imports Bonsai "HOL-Library.Multiset" "HOL-Library.Countable"
begin

text \<open>
  Bookmarks: \<open>src/bookmarks/src/lib.rs\<close> and the SQL store \<open>src/bookmarks/dbbookmarks/src/lib.rs\<close>
  with its schema \<open>schemas/sqlite-bookmarks.sql\<close>.

  A connection is a database state. A SQL transaction works on a copy of the state that replaces it
  when it commits and is dropped when it does not. The JSON conversions of \<open>serde_json\<close> and the
  order in which a \<open>HashMap\<close> is traversed are arguments. The columns \<open>publishing\<close> and
  \<open>pull_default\<close>, which this code never reads or writes, are left out.
\<close>

section \<open>Bookmarks and reasons\<close>

datatype bookmarks_error =
    NonAsciiBookmark string
  | BookmarkAlreadyUsed string
  | ReplayDataNotAllowed
  | FromValueError string
  | JsonError
  | InconsistentReplayData
  | LogInsertFailed
  | LogCountFailed

definition Bookmark_new :: "string \<Rightarrow> bookmarks_error + string" where
  "Bookmark_new bookmark =
     (if list_all (\<lambda>c. of_char c < (128 :: nat)) bookmark then Inr bookmark else Inl (NonAsciiBookmark bookmark))"

type_synonym commit_timestamps = "(bytes \<times> Timestamp) list"

record BundleReplayData =
  bundle_handle :: string
  commit_timestamps :: commit_timestamps

definition BundleReplayData_new :: "string \<Rightarrow> BundleReplayData" where
  "BundleReplayData_new raw_bundle2_id_hex = \<lparr>bundle_handle = raw_bundle2_id_hex, commit_timestamps = []\<rparr>"

definition with_timestamps :: "BundleReplayData \<Rightarrow> commit_timestamps \<Rightarrow> BundleReplayData" where
  "with_timestamps d ts = d\<lparr>commit_timestamps := ts\<rparr>"

datatype BookmarkUpdateReason =
    Pushrebase "BundleReplayData option"
  | Push "BundleReplayData option"
  | Blobimport
  | ManualMove
  | TestMove "BundleReplayData option"

fun reason_to_value :: "BookmarkUpdateReason \<Rightarrow> string" where
  "reason_to_value (Pushrebase d) = ''pushrebase''"
| "reason_to_value (Push d) = ''push''"
| "reason_to_value Blobimport = ''blobimport''"
| "reason_to_value ManualMove = ''manualmove''"
| "reason_to_value (TestMove d) = ''testmove''"

definition reason_from_value :: "string \<Rightarrow> bookmarks_error + BookmarkUpdateReason" where
  "reason_from_value v =
     (if v = ''pushrebase'' then Inr (Pushrebase None)
      else if v = ''push'' then Inr (Push None)
      else if v = ''blobimport'' then Inr Blobimport
      else if v = ''manualmove'' then Inr ManualMove
      else if v = ''testmove'' then Inr (TestMove None)
      else Inl (FromValueError v))"

fun update_bundle_replay_data ::
    "BookmarkUpdateReason \<Rightarrow> BundleReplayData option \<Rightarrow> bookmarks_error + BookmarkUpdateReason" where
  "update_bundle_replay_data (Pushrebase _) d = Inr (Pushrebase d)"
| "update_bundle_replay_data (Push _) d = Inr (Push d)"
| "update_bundle_replay_data (TestMove _) d = Inr (TestMove d)"
| "update_bundle_replay_data Blobimport d = (case d of Some _ \<Rightarrow> Inl ReplayDataNotAllowed | None \<Rightarrow> Inr Blobimport)"
| "update_bundle_replay_data ManualMove d = (case d of Some _ \<Rightarrow> Inl ReplayDataNotAllowed | None \<Rightarrow> Inr ManualMove)"

record 'c BookmarkUpdateLogEntry =
  le_id :: nat
  le_repo_id :: int
  le_bookmark_name :: string
  le_to_changeset_id :: "'c option"
  le_from_changeset_id :: "'c option"
  le_reason :: BookmarkUpdateReason
  le_timestamp :: Timestamp

section \<open>The tables and the queries\<close>

record 'c bookmark_row =
  br_repo_id :: int
  br_name :: string
  br_changeset_id :: 'c

record 'c log_row =
  lr_id :: nat
  lr_repo_id :: int
  lr_name :: string
  lr_from_changeset_id :: "'c option"
  lr_to_changeset_id :: "'c option"
  lr_reason :: string
  lr_timestamp :: Timestamp

record replay_row =
  rr_log_id :: nat
  rr_bundle_handle :: string
  rr_commit_hashes_json :: string

record 'c bookmarks_db =
  t_bookmarks :: "'c bookmark_row list"
  t_update_log :: "'c log_row list"
  t_replay_data :: "replay_row list"
  next_log_id :: nat

definition empty_bookmarks_db :: "'c bookmarks_db" where
  "empty_bookmarks_db = \<lparr>t_bookmarks = [], t_update_log = [], t_replay_data = [], next_log_id = 1\<rparr>"

text \<open>The primary key of \<open>bookmarks\<close>.\<close>

definition row_key :: "'c bookmark_row \<Rightarrow> int \<times> string" where
  "row_key r = (br_repo_id r, br_name r)"

fun ReplaceBookmarks :: "'c bookmarks_db \<Rightarrow> 'c bookmark_row list \<Rightarrow> 'c bookmarks_db" where
  "ReplaceBookmarks db [] = db"
| "ReplaceBookmarks db (r # rs) =
     ReplaceBookmarks (db\<lparr>t_bookmarks := filter (\<lambda>q. row_key q \<noteq> row_key r) (t_bookmarks db) @ [r]\<rparr>) rs"

text \<open>\<open>INSERT OR IGNORE\<close>, with the number of affected rows.\<close>

fun InsertBookmarks :: "'c bookmarks_db \<Rightarrow> 'c bookmark_row list \<Rightarrow> 'c bookmarks_db \<times> nat" where
  "InsertBookmarks db [] = (db, 0)"
| "InsertBookmarks db (r # rs) =
     (if \<exists>q \<in> set (t_bookmarks db). row_key q = row_key r then InsertBookmarks db rs
      else case InsertBookmarks (db\<lparr>t_bookmarks := t_bookmarks db @ [r]\<rparr>) rs of (db', n) \<Rightarrow> (db', n + 1))"

definition UpdateBookmark ::
    "'c bookmarks_db \<Rightarrow> int \<Rightarrow> string \<Rightarrow> 'c \<Rightarrow> 'c \<Rightarrow> 'c bookmarks_db \<times> nat" where
  "UpdateBookmark db repo_id name old_id new_id =
     (let hit = (\<lambda>r. row_key r = (repo_id, name) \<and> br_changeset_id r = old_id)
      in (db\<lparr>t_bookmarks := map (\<lambda>r. if hit r then r\<lparr>br_changeset_id := new_id\<rparr> else r) (t_bookmarks db)\<rparr>,
          length (filter hit (t_bookmarks db))))"

definition DeleteBookmark :: "'c bookmarks_db \<Rightarrow> int \<Rightarrow> string \<Rightarrow> 'c bookmarks_db" where
  "DeleteBookmark db repo_id name =
     db\<lparr>t_bookmarks := filter (\<lambda>r. row_key r \<noteq> (repo_id, name)) (t_bookmarks db)\<rparr>"

definition DeleteBookmarkIf :: "'c bookmarks_db \<Rightarrow> int \<Rightarrow> string \<Rightarrow> 'c \<Rightarrow> 'c bookmarks_db \<times> nat" where
  "DeleteBookmarkIf db repo_id name changeset_id =
     (let hit = (\<lambda>r. row_key r = (repo_id, name) \<and> br_changeset_id r = changeset_id)
      in (db\<lparr>t_bookmarks := filter (\<lambda>r. \<not> hit r) (t_bookmarks db)\<rparr>, length (filter hit (t_bookmarks db))))"

definition AddBookmarkLog ::
    "'c bookmarks_db \<Rightarrow> int \<Rightarrow> string \<Rightarrow> 'c option \<Rightarrow> 'c option \<Rightarrow> BookmarkUpdateReason \<Rightarrow> Timestamp
      \<Rightarrow> 'c bookmarks_db \<times> nat option" where
  "AddBookmarkLog db repo_id name from_cs to_cs reason timestamp =
     (db\<lparr>t_update_log := t_update_log db @
            [\<lparr>lr_id = next_log_id db, lr_repo_id = repo_id, lr_name = name, lr_from_changeset_id = from_cs,
              lr_to_changeset_id = to_cs, lr_reason = reason_to_value reason, lr_timestamp = timestamp\<rparr>],
          next_log_id := next_log_id db + 1\<rparr>, Some (next_log_id db))"

definition AddBundleReplayData :: "'c bookmarks_db \<Rightarrow> nat \<Rightarrow> string \<Rightarrow> string \<Rightarrow> 'c bookmarks_db" where
  "AddBundleReplayData db log_id handle json =
     db\<lparr>t_replay_data := t_replay_data db @
          [\<lparr>rr_log_id = log_id, rr_bundle_handle = handle, rr_commit_hashes_json = json\<rparr>]\<rparr>"

definition SelectBookmark :: "'c bookmarks_db \<Rightarrow> int \<Rightarrow> string \<Rightarrow> 'c list" where
  "SelectBookmark db repo_id name =
     take 1 (map br_changeset_id (filter (\<lambda>r. row_key r = (repo_id, name)) (t_bookmarks db)))"

definition SelectAll :: "'c bookmarks_db \<Rightarrow> int \<Rightarrow> (string \<times> 'c) list" where
  "SelectAll db repo_id =
     map (\<lambda>r. (br_name r, br_changeset_id r)) (filter (\<lambda>r. br_repo_id r = repo_id) (t_bookmarks db))"

text \<open>The operator \<open>LIKE\<close>: \<open>%\<close> stands for any characters and \<open>_\<close> for one; whether two characters are
  equal is up to the collation \<open>ceq\<close>.\<close>

fun sql_like :: "(char \<Rightarrow> char \<Rightarrow> bool) \<Rightarrow> string \<Rightarrow> string \<Rightarrow> bool" where
  "sql_like ceq [] s \<longleftrightarrow> s = []"
| "sql_like ceq (p # ps) s \<longleftrightarrow>
     (if p = CHR ''%'' then (\<exists>k \<le> length s. sql_like ceq ps (drop k s))
      else case s of [] \<Rightarrow> False | c # cs \<Rightarrow> (p = CHR ''_'' \<or> ceq p c) \<and> sql_like ceq ps cs)"

definition SelectByPrefix ::
    "(char \<Rightarrow> char \<Rightarrow> bool) \<Rightarrow> 'c bookmarks_db \<Rightarrow> int \<Rightarrow> string \<Rightarrow> (string \<times> 'c) list" where
  "SelectByPrefix ceq db repo_id pre =
     map (\<lambda>r. (br_name r, br_changeset_id r))
       (filter (\<lambda>r. br_repo_id r = repo_id \<and> sql_like ceq (pre @ ''%'') (br_name r)) (t_bookmarks db))"

text \<open>The log rows above an id, in the order of their ids; the left join with the replay data.\<close>

definition log_rows_after :: "'c bookmarks_db \<Rightarrow> nat \<Rightarrow> int \<Rightarrow> 'c log_row list" where
  "log_rows_after db min_id repo_id =
     sort_key lr_id (filter (\<lambda>l. lr_id l > min_id \<and> lr_repo_id l = repo_id) (t_update_log db))"

definition ReadNextBookmarkLogEntry :: "'c bookmarks_db \<Rightarrow> nat \<Rightarrow> int \<Rightarrow> ('c log_row \<times> replay_row option) list" where
  "ReadNextBookmarkLogEntry db min_id repo_id =
     take 1 (concat (map (\<lambda>l.
        case filter (\<lambda>p. rr_log_id p = lr_id l) (t_replay_data db) of
          [] \<Rightarrow> [(l, None)]
        | ps \<Rightarrow> map (\<lambda>p. (l, Some p)) ps) (log_rows_after db min_id repo_id)))"

definition CountFurtherBookmarkLogEntries :: "'c bookmarks_db \<Rightarrow> nat \<Rightarrow> int \<Rightarrow> nat list" where
  "CountFurtherBookmarkLogEntries db min_id repo_id =
     [length (filter (\<lambda>l. lr_id l > min_id \<and> lr_repo_id l = repo_id) (t_update_log db))]"

section \<open>Reading\<close>

definition bookmarks_get :: "'c bookmarks_db \<Rightarrow> string \<Rightarrow> int \<Rightarrow> 'c option" where
  "bookmarks_get read_master name repo_id =
     (case SelectBookmark read_master repo_id name of [] \<Rightarrow> None | c # _ \<Rightarrow> Some c)"

definition list_by_prefix_impl ::
    "(char \<Rightarrow> char \<Rightarrow> bool) \<Rightarrow> string \<Rightarrow> int \<Rightarrow> 'c bookmarks_db \<Rightarrow> (string \<times> 'c) list" where
  "list_by_prefix_impl ceq pre repo_id conn =
     (if pre = [] then SelectAll conn repo_id else SelectByPrefix ceq conn repo_id pre)"

definition count_further_bookmark_log_entries :: "'c bookmarks_db \<Rightarrow> nat \<Rightarrow> int \<Rightarrow> bookmarks_error + nat" where
  "count_further_bookmark_log_entries conn log_id repo_id =
     (case CountFurtherBookmarkLogEntries conn log_id repo_id of
        n # _ \<Rightarrow> Inr n
      | [] \<Rightarrow> Inl LogCountFailed)"

fun get_bundle_replay_data ::
    "(string \<Rightarrow> commit_timestamps option) \<Rightarrow> string option \<Rightarrow> string option
      \<Rightarrow> bookmarks_error + BundleReplayData option" where
  "get_bundle_replay_data from_json (Some handle) (Some json) =
     (case from_json json of
        Some ts \<Rightarrow> Inr (Some \<lparr>bundle_handle = handle, commit_timestamps = ts\<rparr>)
      | None \<Rightarrow> Inl JsonError)"
| "get_bundle_replay_data from_json None None = Inr None"
| "get_bundle_replay_data from_json _ _ = Inl InconsistentReplayData"

definition log_entry ::
    "(string \<Rightarrow> commit_timestamps option) \<Rightarrow> 'c log_row \<times> replay_row option
      \<Rightarrow> bookmarks_error + 'c BookmarkUpdateLogEntry" where
  "log_entry from_json row =
     (case row of (l, p) \<Rightarrow>
        and_then (reason_from_value (lr_reason l)) (\<lambda>reason.
        and_then (get_bundle_replay_data from_json (map_option rr_bundle_handle p)
                    (map_option rr_commit_hashes_json p)) (\<lambda>replay.
        and_then (update_bundle_replay_data reason replay) (\<lambda>reason'.
        Inr \<lparr>le_id = lr_id l, le_repo_id = lr_repo_id l, le_bookmark_name = lr_name l,
             le_to_changeset_id = lr_to_changeset_id l, le_from_changeset_id = lr_from_changeset_id l,
             le_reason = reason', le_timestamp = lr_timestamp l\<rparr>))))"

definition read_next_bookmark_log_entry ::
    "(string \<Rightarrow> commit_timestamps option) \<Rightarrow> 'c bookmarks_db \<Rightarrow> nat \<Rightarrow> int
      \<Rightarrow> bookmarks_error + 'c BookmarkUpdateLogEntry option" where
  "read_next_bookmark_log_entry from_json conn log_id repo_id =
     (case ReadNextBookmarkLogEntry conn log_id repo_id of
        [] \<Rightarrow> Inr None
      | row # _ \<Rightarrow> map_ok Some (log_entry from_json row))"

section \<open>Transactions\<close>

record 'c BookmarkSetData =
  new_cs :: 'c
  old_cs :: 'c

text \<open>Each \<open>HashMap\<close> is an association list, in the order in which it is traversed.\<close>

record 'c SqlBookmarksTransaction =
  tx_repo_id :: int
  force_sets :: "(string \<times> 'c \<times> BookmarkUpdateReason) list"
  creates :: "(string \<times> 'c \<times> BookmarkUpdateReason) list"
  sets :: "(string \<times> 'c BookmarkSetData \<times> BookmarkUpdateReason) list"
  force_deletes :: "(string \<times> BookmarkUpdateReason) list"
  deletes :: "(string \<times> 'c \<times> BookmarkUpdateReason) list"

definition create_transaction :: "int \<Rightarrow> 'c SqlBookmarksTransaction" where
  "create_transaction repo_id =
     \<lparr>tx_repo_id = repo_id, force_sets = [], creates = [], sets = [], force_deletes = [], deletes = []\<rparr>"

definition check_if_bookmark_already_used :: "'c SqlBookmarksTransaction \<Rightarrow> string \<Rightarrow> bookmarks_error + unit" where
  "check_if_bookmark_already_used tx key =
     (if key \<in> fst ` set (creates tx) \<or> key \<in> fst ` set (force_sets tx) \<or> key \<in> fst ` set (sets tx) \<or>
         key \<in> fst ` set (force_deletes tx) \<or> key \<in> fst ` set (deletes tx)
      then Inl (BookmarkAlreadyUsed key) else Inr ())"

definition tx_update ::
    "'c SqlBookmarksTransaction \<Rightarrow> string \<Rightarrow> 'c \<Rightarrow> 'c \<Rightarrow> BookmarkUpdateReason
      \<Rightarrow> bookmarks_error + 'c SqlBookmarksTransaction" where
  "tx_update tx key new old reason =
     and_then (check_if_bookmark_already_used tx key)
       (\<lambda>_. Inr (tx\<lparr>sets := (key, \<lparr>new_cs = new, old_cs = old\<rparr>, reason) # sets tx\<rparr>))"

definition tx_create ::
    "'c SqlBookmarksTransaction \<Rightarrow> string \<Rightarrow> 'c \<Rightarrow> BookmarkUpdateReason
      \<Rightarrow> bookmarks_error + 'c SqlBookmarksTransaction" where
  "tx_create tx key new reason =
     and_then (check_if_bookmark_already_used tx key) (\<lambda>_. Inr (tx\<lparr>creates := (key, new, reason) # creates tx\<rparr>))"

definition tx_force_set ::
    "'c SqlBookmarksTransaction \<Rightarrow> string \<Rightarrow> 'c \<Rightarrow> BookmarkUpdateReason
      \<Rightarrow> bookmarks_error + 'c SqlBookmarksTransaction" where
  "tx_force_set tx key new reason =
     and_then (check_if_bookmark_already_used tx key) (\<lambda>_. Inr (tx\<lparr>force_sets := (key, new, reason) # force_sets tx\<rparr>))"

definition tx_delete ::
    "'c SqlBookmarksTransaction \<Rightarrow> string \<Rightarrow> 'c \<Rightarrow> BookmarkUpdateReason
      \<Rightarrow> bookmarks_error + 'c SqlBookmarksTransaction" where
  "tx_delete tx key old reason =
     and_then (check_if_bookmark_already_used tx key) (\<lambda>_. Inr (tx\<lparr>deletes := (key, old, reason) # deletes tx\<rparr>))"

definition tx_force_delete ::
    "'c SqlBookmarksTransaction \<Rightarrow> string \<Rightarrow> BookmarkUpdateReason
      \<Rightarrow> bookmarks_error + 'c SqlBookmarksTransaction" where
  "tx_force_delete tx key reason =
     and_then (check_if_bookmark_already_used tx key) (\<lambda>_. Inr (tx\<lparr>force_deletes := (key, reason) # force_deletes tx\<rparr>))"

section \<open>Committing\<close>

text \<open>The combinator \<open>loop_fn\<close> over an iterator.\<close>

fun loop_rows :: "('d \<Rightarrow> 'x \<Rightarrow> 'e + 'd) \<Rightarrow> 'd \<Rightarrow> 'x list \<Rightarrow> 'e + 'd" where
  "loop_rows step d [] = Inr d"
| "loop_rows step d (x # xs) = and_then (step d x) (\<lambda>d'. loop_rows step d' xs)"

text \<open>\<open>Err(None)\<close> is a logical failure, \<open>Err(Some(e))\<close> an error.\<close>

type_synonym 'c commit_step = "bookmarks_error option + 'c bookmarks_db"

definition commit_creates :: "int \<Rightarrow> (string \<times> 'c \<times> BookmarkUpdateReason) list \<Rightarrow> 'c bookmarks_db \<Rightarrow> 'c commit_step" where
  "commit_creates repo_id creates_vec db =
     (case InsertBookmarks db (map (\<lambda>(name, cs, reason). \<lparr>br_repo_id = repo_id, br_name = name, br_changeset_id = cs\<rparr>) creates_vec) of
        (db', affected_rows) \<Rightarrow> if affected_rows = length creates_vec then Inr db' else Inl None)"

fun commit_set :: "int \<Rightarrow> 'c bookmarks_db \<Rightarrow> string \<times> 'c BookmarkSetData \<times> BookmarkUpdateReason \<Rightarrow> 'c commit_step" where
  "commit_set repo_id db (name, data, reason) =
     (if new_cs data = old_cs data
      then (case SelectBookmark db repo_id name of
              cs # _ \<Rightarrow> if cs = new_cs data then Inr db else Inl None
            | [] \<Rightarrow> Inl None)
      else (case UpdateBookmark db repo_id name (old_cs data) (new_cs data) of
              (db', affected_rows) \<Rightarrow> if affected_rows = 1 then Inr db' else Inl None))"

fun commit_force_delete :: "int \<Rightarrow> 'c bookmarks_db \<Rightarrow> string \<times> BookmarkUpdateReason \<Rightarrow> 'c commit_step" where
  "commit_force_delete repo_id db (name, reason) = Inr (DeleteBookmark db repo_id name)"

fun commit_delete :: "int \<Rightarrow> 'c bookmarks_db \<Rightarrow> string \<times> 'c \<times> BookmarkUpdateReason \<Rightarrow> 'c commit_step" where
  "commit_delete repo_id db (name, old, reason) =
     (case DeleteBookmarkIf db repo_id name old of
        (db', affected_rows) \<Rightarrow> if affected_rows = 1 then Inr db' else Inl None)"

fun replay_of :: "BookmarkUpdateReason \<Rightarrow> BundleReplayData option" where
  "replay_of (Pushrebase d) = d"
| "replay_of (Push d) = d"
| "replay_of (TestMove d) = d"
| "replay_of Blobimport = None"
| "replay_of ManualMove = None"

definition log_bundle_replay_data ::
    "(commit_timestamps \<Rightarrow> string option) \<Rightarrow> nat \<Rightarrow> BookmarkUpdateReason \<Rightarrow> 'c bookmarks_db \<Rightarrow> 'c commit_step" where
  "log_bundle_replay_data to_json log_id reason db =
     (case replay_of reason of
        Some d \<Rightarrow>
          (case to_json (commit_timestamps d) of
             Some json \<Rightarrow> Inr (AddBundleReplayData db log_id (bundle_handle d) json)
           | None \<Rightarrow> Inl (Some JsonError))
      | None \<Rightarrow> Inr db)"

type_synonym 'c move = "string \<times> 'c option \<times> 'c option \<times> BookmarkUpdateReason"

fun log_bookmark_move ::
    "(commit_timestamps \<Rightarrow> string option) \<Rightarrow> int \<Rightarrow> Timestamp \<Rightarrow> 'c bookmarks_db \<Rightarrow> 'c move \<Rightarrow> 'c commit_step" where
  "log_bookmark_move to_json repo_id timestamp db (bookmark, from_cs, to_cs, reason) =
     (case AddBookmarkLog db repo_id bookmark from_cs to_cs reason timestamp of
        (db', Some log_id) \<Rightarrow> log_bundle_replay_data to_json log_id reason db'
      | (db', None) \<Rightarrow> Inl (Some LogInsertFailed))"

definition hm_insert :: "'k \<Rightarrow> 'v \<Rightarrow> ('k \<times> 'v) list \<Rightarrow> ('k \<times> 'v) list" where
  "hm_insert k v m = (k, v) # filter (\<lambda>e. fst e \<noteq> k) m"

text \<open>The five loops that fill \<open>log_rows\<close>, in order.\<close>

definition tx_moves :: "'c SqlBookmarksTransaction \<Rightarrow> 'c move list" where
  "tx_moves tx =
     map (\<lambda>(b, t, r). (b, None, Some t, r)) (force_sets tx) @ map (\<lambda>(b, t, r). (b, None, Some t, r)) (creates tx) @
     map (\<lambda>(b, d, r). (b, Some (old_cs d), Some (new_cs d), r)) (sets tx) @
     map (\<lambda>(b, r). (b, None, None, r)) (force_deletes tx) @ map (\<lambda>(b, f, r). (b, Some f, None, r)) (deletes tx)"

definition log_rows :: "'c SqlBookmarksTransaction \<Rightarrow> 'c move list" where
  "log_rows tx = fold (\<lambda>(bookmark, row). hm_insert bookmark row) (tx_moves tx) []"

definition commit ::
    "(commit_timestamps \<Rightarrow> string option) \<Rightarrow> ('c move list \<Rightarrow> 'c move list) \<Rightarrow> Timestamp
      \<Rightarrow> 'c SqlBookmarksTransaction \<Rightarrow> 'c bookmarks_db \<Rightarrow> (bookmarks_error + bool) \<times> 'c bookmarks_db" where
  "commit to_json ho now tx db =
     (let repo_id = tx_repo_id tx;
          forced = ReplaceBookmarks db
            (map (\<lambda>(name, cs, reason). \<lparr>br_repo_id = repo_id, br_name = name, br_changeset_id = cs\<rparr>) (force_sets tx))
      in case
           and_then (commit_creates repo_id (creates tx) forced) (\<lambda>db.
           and_then (loop_rows (commit_set repo_id) db (sets tx)) (\<lambda>db.
           and_then (loop_rows (commit_force_delete repo_id) db (force_deletes tx)) (\<lambda>db.
           and_then (loop_rows (commit_delete repo_id) db (deletes tx)) (\<lambda>db.
           loop_rows (log_bookmark_move to_json repo_id now) db (ho (log_rows tx))))))
         of
           Inr db' \<Rightarrow> (Inr True, db')
         | Inl None \<Rightarrow> (Inr False, db)
         | Inl (Some e) \<Rightarrow> (Inl e, db))"


section \<open>What the bookmarks are\<close>

definition bview :: "'c bookmarks_db \<Rightarrow> int \<times> string \<rightharpoonup> 'c" where
  "bview db = map_of (map (\<lambda>r. (row_key r, br_changeset_id r)) (t_bookmarks db))"

definition bkeys_ok :: "'c bookmarks_db \<Rightarrow> bool" where
  "bkeys_ok db \<longleftrightarrow> distinct (map row_key (t_bookmarks db))"

definition moved :: "int \<Rightarrow> (string \<times> 'c option) list \<Rightarrow> (int \<times> string \<rightharpoonup> 'c) \<Rightarrow> (int \<times> string \<rightharpoonup> 'c)" where
  "moved repo ts m = fold (\<lambda>(n, t) m. m((repo, n) := t)) ts m"

lemma moved_simps [simp]: "moved repo [] m = m" "moved repo ((n, t) # ts) m = moved repo ts (m((repo, n) := t))"
  by (simp_all add: moved_def)

lemma moved_append: "moved repo (ts @ us) m = moved repo us (moved repo ts m)"
  by (simp add: moved_def)

lemma moved_other: "k \<notin> Pair repo ` fst ` set ts \<Longrightarrow> moved repo ts m k = m k"
  by (induction ts arbitrary: m) auto

lemma moved_at:
  "distinct (map fst ts) \<Longrightarrow> moved repo ts m (repo, n) = (case map_of ts n of Some t \<Rightarrow> t | None \<Rightarrow> m (repo, n))"
proof (induction ts arbitrary: m)
  case (Cons nt ts)
  obtain a t where nt: "nt = (a, t)" by fastforce
  then have "map_of ts a = None" using Cons.prems by (simp add: map_of_eq_None_iff)
  then show ?case using Cons nt by (simp cong: option.case_cong)
qed simp

lemma bview_rows:
  "bview (db\<lparr>t_bookmarks := rows\<rparr>) = map_of (map (\<lambda>r. (row_key r, br_changeset_id r)) rows)"
  by (simp add: bview_def)

lemma bview_None: "bview db k = None \<longleftrightarrow> k \<notin> row_key ` set (t_bookmarks db)"
  by (simp add: bview_def map_of_eq_None_iff image_image)

lemma bview_Some:
  assumes "bkeys_ok db"
  shows "bview db k = Some c \<longleftrightarrow> (\<exists>r \<in> set (t_bookmarks db). row_key r = k \<and> br_changeset_id r = c)"
proof -
  have "distinct (map fst (map (\<lambda>r. (row_key r, br_changeset_id r)) (t_bookmarks db)))"
    using assms by (simp add: bkeys_ok_def comp_def)
  from map_of_eq_Some_iff [OF this] show ?thesis by (auto simp: bview_def)
qed

lemma row_value: "bkeys_ok db \<Longrightarrow> r \<in> set (t_bookmarks db) \<Longrightarrow> bview db (row_key r) = Some (br_changeset_id r)"
  using bview_Some [of db "row_key r" "br_changeset_id r"] by blast

lemma hits:
  assumes "bkeys_ok db"
  shows "length (filter (\<lambda>r. row_key r = k \<and> br_changeset_id r = c) (t_bookmarks db)) = (if bview db k = Some c then 1 else 0)"
proof -
  have one: "length (filter (\<lambda>r. row_key r = k) rs) \<le> 1" if "distinct (map row_key rs)" for rs :: "'a bookmark_row list"
    using that
  proof (induction rs)
    case (Cons r rs)
    then have "filter (\<lambda>r. row_key r = k) rs = []" if "row_key r = k"
      using that by (intro filter_False) (auto simp: image_iff)
    then show ?case using Cons by auto
  qed simp
  have two: "length (filter (\<lambda>r. row_key r = k \<and> br_changeset_id r = c) rs) \<le> length (filter (\<lambda>r. row_key r = k) rs)"
    for rs :: "'a bookmark_row list"
    by (induction rs) auto
  have "length (filter (\<lambda>r. row_key r = k \<and> br_changeset_id r = c) (t_bookmarks db)) \<le> 1"
    using le_trans [OF two one] assms unfolding bkeys_ok_def by blast
  moreover have "filter (\<lambda>r. row_key r = k \<and> br_changeset_id r = c) (t_bookmarks db) = [] \<longleftrightarrow> bview db k \<noteq> Some c"
    unfolding bview_Some [OF assms] by (auto simp: filter_empty_conv)
  ultimately show ?thesis by (auto simp: le_Suc_eq)
qed

lemma SelectBookmark_view:
  "SelectBookmark db repo name = (case bview db (repo, name) of None \<Rightarrow> [] | Some c \<Rightarrow> [c])"
proof -
  have "take 1 (map br_changeset_id (filter (\<lambda>r. row_key r = k) rs)) =
      (case map_of (map (\<lambda>r. (row_key r, br_changeset_id r)) rs) k of None \<Rightarrow> [] | Some c \<Rightarrow> [c])"
    for k and rs :: "'a bookmark_row list"
    by (induction rs) auto
  then show ?thesis by (simp add: SelectBookmark_def bview_def)
qed

text \<open>\<open>rows_moved repo ts db db'\<close>: only the rows changed, and the bookmarks moved to the targets \<open>ts\<close>.\<close>

definition rows_moved :: "int \<Rightarrow> (string \<times> 'c option) list \<Rightarrow> 'c bookmarks_db \<Rightarrow> 'c bookmarks_db \<Rightarrow> bool" where
  "rows_moved repo ts db db' \<longleftrightarrow> db' = db\<lparr>t_bookmarks := t_bookmarks db'\<rparr> \<and> bkeys_ok db' \<and> bview db' = moved repo ts (bview db)"

lemma rows_moved_refl: "bkeys_ok db \<Longrightarrow> rows_moved repo [] db db"
  by (simp add: rows_moved_def)

lemma rows_moved_trans:
  assumes "rows_moved repo ts db d" "rows_moved repo us d db'"
  shows "rows_moved repo (ts @ us) db db'"
proof -
  have "d\<lparr>t_bookmarks := r\<rparr> = db\<lparr>t_bookmarks := r\<rparr>" for r
    using assms(1) unfolding rows_moved_def by (metis bookmarks_db.fold_congs(1) bookmarks_db.update_convs(1) bookmarks_db.surjective)
  then show ?thesis using assms by (simp add: rows_moved_def moved_append)
qed

lemma rows_moved_same:
  assumes "rows_moved repo ts db d"
  shows "t_update_log d = t_update_log db" "t_replay_data d = t_replay_data db" "next_log_id d = next_log_id db"
proof -
  have d: "d = db\<lparr>t_bookmarks := t_bookmarks d\<rparr>" using assms by (simp add: rows_moved_def)
  show "t_update_log d = t_update_log db" by (subst d) simp
  show "t_replay_data d = t_replay_data db" by (subst d) simp
  show "next_log_id d = next_log_id db" by (subst d) simp
qed

lemma rows_moved_keys: "rows_moved repo ts db d \<Longrightarrow> bkeys_ok d"
  by (simp add: rows_moved_def)

lemma rows_moved_other: "rows_moved repo ts db d \<Longrightarrow> n \<notin> fst ` set ts \<Longrightarrow> bview d (repo, n) = bview db (repo, n)"
  by (auto simp: rows_moved_def intro: moved_other)


text \<open>Earlier stages do not touch the bookmarks of later ones.\<close>

lemma guard_after:
  assumes "rows_moved repo ts db d" "fst ` set ts \<inter> fst ` set xs = {}"
  shows "(\<forall>(n, x) \<in> set xs. P x (bview d (repo, n))) \<longleftrightarrow> (\<forall>(n, x) \<in> set xs. P x (bview db (repo, n)))"
proof -
  have "bview d (repo, n) = bview db (repo, n)" if "(n, x) \<in> set xs" for n x
    using rows_moved_other [OF assms(1), of n] assms(2) that by force
  then show ?thesis by auto
qed

section \<open>Stages of a commit\<close>

text \<open>
  A stage runs one statement per bookmark. What a commit needs of a statement: it changes the rows
  of the bookmark only, to the target, when the guard holds of the bookmark's value, and it reports a
  logical failure otherwise. Then a stage over different bookmarks moves all of them or fails.
\<close>

locale bookmark_stage =
  fixes step :: "int \<Rightarrow> 'c bookmarks_db \<Rightarrow> string \<times> 'x \<Rightarrow> 'c commit_step"
    and guard :: "'x \<Rightarrow> 'c option \<Rightarrow> bool" and target :: "'x \<Rightarrow> 'c option"
  assumes accepts: "bkeys_ok db \<Longrightarrow> guard x (bview db (repo, name)) \<Longrightarrow>
      \<exists>d. step repo db (name, x) = Inr d \<and> rows_moved repo [(name, target x)] db d"
    and rejects: "bkeys_ok db \<Longrightarrow> \<not> guard x (bview db (repo, name)) \<Longrightarrow> step repo db (name, x) = Inl None"
begin

lemma loop_accepts:
  assumes "bkeys_ok db" "distinct (map fst xs)" "\<forall>(n, x) \<in> set xs. guard x (bview db (repo, n))"
  shows "\<exists>d. loop_rows (step repo) db xs = Inr d \<and> rows_moved repo (map (\<lambda>(n, x). (n, target x)) xs) db d"
  using assms
proof (induction xs arbitrary: db)
  case Nil
  then show ?case by (simp add: rows_moved_refl)
next
  case (Cons nx xs)
  obtain n x where nx: "nx = (n, x)" by fastforce
  have "guard x (bview db (repo, n))" using Cons.prems(3) nx by simp
  from accepts [OF Cons.prems(1) this] obtain d where d: "step repo db (n, x) = Inr d"
    "rows_moved repo [(n, target x)] db d" by blast
  have "\<forall>(m, y) \<in> set xs. guard y (bview d (repo, m))"
  proof (intro ballI, clarify)
    fix m y
    assume my: "(m, y) \<in> set xs"
    then have "m \<noteq> n" using Cons.prems(2) nx by force
    then show "guard y (bview d (repo, m))" using Cons.prems(3) my rows_moved_other [OF d(2), of m] by auto
  qed
  from Cons.IH [OF rows_moved_keys [OF d(2)] _ this] Cons.prems(2) obtain d' where
    "loop_rows (step repo) d xs = Inr d'" "rows_moved repo (map (\<lambda>(n, x). (n, target x)) xs) d d'" by auto
  then show ?case using rows_moved_trans [OF d(2)] d(1) nx by auto
qed

lemma loop_rejects:
  assumes "bkeys_ok db" "distinct (map fst xs)" "\<not> (\<forall>(n, x) \<in> set xs. guard x (bview db (repo, n)))"
  shows "loop_rows (step repo) db xs = Inl None"
  using assms
proof (induction xs arbitrary: db)
  case (Cons nx xs)
  obtain n x where nx: "nx = (n, x)" by fastforce
  show ?case
  proof (cases "guard x (bview db (repo, n))")
    case False
    then show ?thesis using rejects [OF Cons.prems(1) False] nx by simp
  next
    case True
    from accepts [OF Cons.prems(1) this] obtain d where d: "step repo db (n, x) = Inr d"
      "rows_moved repo [(n, target x)] db d" by blast
    obtain m y where my: "(m, y) \<in> set xs" "\<not> guard y (bview db (repo, m))" using Cons.prems(3) True nx by auto
    then have "m \<noteq> n" using Cons.prems(2) nx by force
    then have "\<not> guard y (bview d (repo, m))" using my(2) rows_moved_other [OF d(2), of m] by simp
    then have "\<not> (\<forall>(m, y) \<in> set xs. guard y (bview d (repo, m)))" using my(1) by blast
    from Cons.IH [OF rows_moved_keys [OF d(2)] _ this] Cons.prems(2) show ?thesis using d(1) nx by simp
  qed
qed simp

lemma loop_after:
  assumes m: "rows_moved repo ts db d" and "distinct (map fst xs)" "fst ` set ts \<inter> fst ` set xs = {}"
  shows "\<forall>(n, x) \<in> set xs. guard x (bview db (repo, n)) \<Longrightarrow>
      \<exists>d'. loop_rows (step repo) d xs = Inr d' \<and> rows_moved repo (ts @ map (\<lambda>(n, x). (n, target x)) xs) db d'"
    and "\<not> (\<forall>(n, x) \<in> set xs. guard x (bview db (repo, n))) \<Longrightarrow> loop_rows (step repo) d xs = Inl None"
proof -
  note g = guard_after [OF m assms(3), of guard]
  show "\<exists>d'. loop_rows (step repo) d xs = Inr d' \<and> rows_moved repo (ts @ map (\<lambda>(n, x). (n, target x)) xs) db d'"
    if "\<forall>(n, x) \<in> set xs. guard x (bview db (repo, n))"
    using loop_accepts [OF rows_moved_keys [OF m] assms(2) g [THEN iffD2, OF that]] rows_moved_trans [OF m] by blast
  show "loop_rows (step repo) d xs = Inl None" if "\<not> (\<forall>(n, x) \<in> set xs. guard x (bview db (repo, n)))"
    by (rule loop_rejects [OF rows_moved_keys [OF m] assms(2)]) (use that g in blast)
qed

end

lemma rows_moved_one:
  "db' = db\<lparr>t_bookmarks := rows\<rparr> \<Longrightarrow> bkeys_ok db' \<Longrightarrow> bview db' = (bview db)((repo, n) := t) \<Longrightarrow> rows_moved repo [(n, t)] db db'"
  by (simp add: rows_moved_def)

lemma map_of_updated:
  assumes "\<forall>r \<in> set rs. row_key r = k \<longrightarrow> br_changeset_id r = old" "k \<in> row_key ` set rs" "distinct (map row_key rs)"
  shows "map_of (map (\<lambda>r. (row_key r, br_changeset_id r))
       (map (\<lambda>r. if row_key r = k \<and> br_changeset_id r = old then r\<lparr>br_changeset_id := new\<rparr> else r) rs)) =
     (map_of (map (\<lambda>r. (row_key r, br_changeset_id r)) rs))(k \<mapsto> new)"
  using assms
proof (induction rs)
  case (Cons r rs)
  show ?case
  proof (cases "row_key r = k")
    case True
    then have "k \<notin> row_key ` set rs" using Cons.prems(3) by simp
    then have "map (\<lambda>r. if row_key r = k \<and> br_changeset_id r = old then r\<lparr>br_changeset_id := new\<rparr> else r) rs = rs"
      by (intro map_idI) (auto simp: image_iff)
    then show ?thesis using True Cons.prems(1) by (simp add: row_key_def fun_eq_iff)
  next
    case False
    then show ?thesis using Cons by (auto simp: row_key_def fun_eq_iff)
  qed
qed simp

lemma update_view:
  assumes "bkeys_ok db" "bview db (repo, name) = Some old"
  shows "\<exists>d. UpdateBookmark db repo name old new = (d, 1) \<and> rows_moved repo [(name, Some new)] db d"
proof -
  let ?k = "(repo, name)"
  let ?f = "\<lambda>r. if row_key r = ?k \<and> br_changeset_id r = old then r\<lparr>br_changeset_id := new\<rparr> else r"
  let ?d = "db\<lparr>t_bookmarks := map ?f (t_bookmarks db)\<rparr>"
  have key: "row_key (?f r) = row_key r" for r by (simp add: row_key_def)
  have only: "\<forall>r \<in> set (t_bookmarks db). row_key r = ?k \<longrightarrow> br_changeset_id r = old"
    using row_value [OF assms(1)] assms(2) by fastforce
  have "?k \<in> row_key ` set (t_bookmarks db)" using assms(2) bview_None [of db ?k] by simp
  then have "bview ?d = (bview db)(?k \<mapsto> new)"
    using map_of_updated [OF only] assms(1) unfolding bview_rows by (simp add: bview_def bkeys_ok_def)
  moreover have "bkeys_ok ?d" using assms(1) key by (simp add: bkeys_ok_def comp_def)
  ultimately have "rows_moved repo [(name, Some new)] db ?d" by (intro rows_moved_one) auto
  then show ?thesis
    using hits [OF assms(1), of ?k old] assms(2) by (auto simp: UpdateBookmark_def Let_def)
qed

lemma delete_view:
  assumes "bkeys_ok db"
  shows "rows_moved repo [(n, None)] db (db\<lparr>t_bookmarks := filter (\<lambda>r. row_key r \<noteq> (repo, n)) (t_bookmarks db)\<rparr>)"
proof (rule rows_moved_one [OF refl])
  have "map_of (map (\<lambda>r. (row_key r, br_changeset_id r)) (filter (\<lambda>r. row_key r \<noteq> k) rs)) =
      (map_of (map (\<lambda>r. (row_key r, br_changeset_id r)) rs))(k := None)" for k and rs :: "'a bookmark_row list"
    by (induction rs) (auto simp: fun_eq_iff)
  then show "bview (db\<lparr>t_bookmarks := filter (\<lambda>r. row_key r \<noteq> (repo, n)) (t_bookmarks db)\<rparr>) = (bview db)((repo, n) := None)"
    by (simp add: bview_def)
  show "bkeys_ok (db\<lparr>t_bookmarks := filter (\<lambda>r. row_key r \<noteq> (repo, n)) (t_bookmarks db)\<rparr>)"
    using assms by (simp add: bkeys_ok_def distinct_map_filter)
qed

definition create_guard :: "'c \<times> BookmarkUpdateReason \<Rightarrow> 'c option \<Rightarrow> bool" where
  "create_guard x v \<longleftrightarrow> v = None"

definition set_guard :: "'c BookmarkSetData \<times> BookmarkUpdateReason \<Rightarrow> 'c option \<Rightarrow> bool" where
  "set_guard x v \<longleftrightarrow> v = Some (old_cs (fst x))"

definition delete_guard :: "'c \<times> BookmarkUpdateReason \<Rightarrow> 'c option \<Rightarrow> bool" where
  "delete_guard x v \<longleftrightarrow> v = Some (fst x)"

interpretation set_stage: bookmark_stage commit_set set_guard "\<lambda>x. Some (new_cs (fst x))"
proof
  fix db :: "'a bookmarks_db" and x :: "'a BookmarkSetData \<times> BookmarkUpdateReason" and repo name
  assume ok: "bkeys_ok db"
  show "\<exists>d. commit_set repo db (name, x) = Inr d \<and> rows_moved repo [(name, Some (new_cs (fst x)))] db d"
    if g: "set_guard x (bview db (repo, name))"
  proof (cases "new_cs (fst x) = old_cs (fst x)")
    case True
    then have "rows_moved repo [(name, Some (new_cs (fst x)))] db db"
      using g ok by (intro rows_moved_one [where rows = "t_bookmarks db"]) (auto simp: set_guard_def fun_eq_iff)
    then show ?thesis using True g by (cases x) (simp add: SelectBookmark_view set_guard_def)
  next
    case False
    then show ?thesis using g update_view [OF ok, of repo name "old_cs (fst x)" "new_cs (fst x)"]
      by (cases x) (auto simp: set_guard_def)
  qed
  show "commit_set repo db (name, x) = Inl None" if "\<not> set_guard x (bview db (repo, name))"
    using that hits [OF ok, of "(repo, name)" "old_cs (fst x)"]
    by (cases x) (auto simp: set_guard_def SelectBookmark_view UpdateBookmark_def Let_def split: option.splits)
qed

interpretation force_delete_stage: bookmark_stage commit_force_delete "\<lambda>x v. True" "\<lambda>x. None"
  by unfold_locales (simp_all add: DeleteBookmark_def delete_view)

interpretation delete_stage: bookmark_stage commit_delete delete_guard "\<lambda>x. None"
proof
  fix db :: "'a bookmarks_db" and x :: "'a \<times> BookmarkUpdateReason" and repo name
  assume ok: "bkeys_ok db"
  show "\<exists>d. commit_delete repo db (name, x) = Inr d \<and> rows_moved repo [(name, None)] db d"
    if g: "delete_guard x (bview db (repo, name))"
  proof -
    have "filter (\<lambda>r. \<not> (row_key r = (repo, name) \<and> br_changeset_id r = fst x)) (t_bookmarks db) =
        filter (\<lambda>r. row_key r \<noteq> (repo, name)) (t_bookmarks db)"
      using g row_value [OF ok] by (intro filter_cong refl) (fastforce simp: delete_guard_def)
    then show ?thesis
      using g delete_view [OF ok, of repo name] hits [OF ok, of "(repo, name)" "fst x"]
      by (cases x) (simp add: DeleteBookmarkIf_def Let_def delete_guard_def)
  qed
  show "commit_delete repo db (name, x) = Inl None" if "\<not> delete_guard x (bview db (repo, name))"
    using that hits [OF ok, of "(repo, name)" "fst x"] by (cases x) (auto simp: DeleteBookmarkIf_def Let_def delete_guard_def)
qed


section \<open>The statements over several rows\<close>

abbreviation row_of :: "int \<Rightarrow> string \<times> 'c \<times> BookmarkUpdateReason \<Rightarrow> 'c bookmark_row" where
  "row_of repo \<equiv> \<lambda>(name, cs, reason). \<lparr>br_repo_id = repo, br_name = name, br_changeset_id = cs\<rparr>"

abbreviation new_values :: "(string \<times> 'c \<times> BookmarkUpdateReason) list \<Rightarrow> (string \<times> 'c option) list" where
  "new_values xs \<equiv> map (\<lambda>(n, c, r). (n, Some c)) xs"

lemma append_row_moved:
  assumes "bkeys_ok db" "bview db (repo, n) = None"
  shows "rows_moved repo [(n, Some c)] db (db\<lparr>t_bookmarks := t_bookmarks db @ [\<lparr>br_repo_id = repo, br_name = n, br_changeset_id = c\<rparr>]\<rparr>)"
proof (rule rows_moved_one [OF refl])
  have "(repo, n) \<notin> row_key ` set (t_bookmarks db)" using assms(2) by (simp add: bview_None)
  then show "bkeys_ok (db\<lparr>t_bookmarks := t_bookmarks db @ [\<lparr>br_repo_id = repo, br_name = n, br_changeset_id = c\<rparr>]\<rparr>)"
    using assms(1) by (simp add: bkeys_ok_def row_key_def)
  show "bview (db\<lparr>t_bookmarks := t_bookmarks db @ [\<lparr>br_repo_id = repo, br_name = n, br_changeset_id = c\<rparr>]\<rparr>) = (bview db)((repo, n) := Some c)"
    using assms(2) by (auto simp: bview_def map_add_def row_key_def fun_eq_iff split: option.splits)
qed

lemma replace_row_moved:
  assumes "bkeys_ok db"
  shows "rows_moved repo [(n, Some c)] db (db\<lparr>t_bookmarks :=
     filter (\<lambda>q. row_key q \<noteq> (repo, n)) (t_bookmarks db) @ [\<lparr>br_repo_id = repo, br_name = n, br_changeset_id = c\<rparr>]\<rparr>)"
proof -
  let ?mid = "db\<lparr>t_bookmarks := filter (\<lambda>q. row_key q \<noteq> (repo, n)) (t_bookmarks db)\<rparr>"
  note mid = delete_view [OF assms, of repo n]
  have "bview ?mid (repo, n) = None" using mid by (simp add: rows_moved_def)
  from append_row_moved [OF rows_moved_keys [OF mid] this, of c] show ?thesis
    using mid by (simp add: rows_moved_def)
qed

lemma replace_moves:
  "bkeys_ok db \<Longrightarrow> rows_moved repo (new_values xs) db (ReplaceBookmarks db (map (row_of repo) xs))"
proof (induction xs arbitrary: db)
  case (Cons x xs)
  obtain n c r where x: "x = (n, c, r)" by (cases x) auto
  note first = replace_row_moved [OF Cons.prems, of repo n c]
  from rows_moved_trans [OF first Cons.IH [OF rows_moved_keys [OF first]]] show ?case
    using x by (simp add: row_key_def)
qed (simp add: rows_moved_refl)

lemma insert_count: "snd (InsertBookmarks db rs) \<le> length rs"
proof (induction rs arbitrary: db)
  case (Cons r rs)
  then show ?case using le_SucI [OF Cons.IH] by (simp add: case_prod_unfold)
qed simp

lemma has_row: "(\<exists>q \<in> set (t_bookmarks db). row_key q = k) \<longleftrightarrow> bview db k \<noteq> None"
  unfolding bview_None by auto

lemma insert_row:
  "InsertBookmarks db (\<lparr>br_repo_id = repo, br_name = n, br_changeset_id = c\<rparr> # rs) =
     (if bview db (repo, n) \<noteq> None then InsertBookmarks db rs
      else case InsertBookmarks (db\<lparr>t_bookmarks := t_bookmarks db @ [\<lparr>br_repo_id = repo, br_name = n, br_changeset_id = c\<rparr>]\<rparr>) rs
           of (d, k) \<Rightarrow> (d, k + 1))"
  unfolding InsertBookmarks.simps(2) has_row by (simp add: row_key_def)

lemma creates_accepts:
  assumes "bkeys_ok db" "distinct (map fst xs)" "\<forall>(n, x) \<in> set xs. create_guard x (bview db (repo, n))"
  shows "\<exists>d. commit_creates repo xs db = Inr d \<and> rows_moved repo (new_values xs) db d"
proof -
  have "\<forall>n \<in> fst ` set xs. bview db (repo, n) = None" using assms(3) by (auto simp: create_guard_def)
  with assms(1,2) have "\<exists>d. InsertBookmarks db (map (row_of repo) xs) = (d, length xs) \<and> rows_moved repo (new_values xs) db d"
  proof (induction xs arbitrary: db)
    case (Cons x xs)
    obtain n c r where x: "x = (n, c, r)" by (cases x) auto
    let ?row = "\<lparr>br_repo_id = repo, br_name = n, br_changeset_id = c\<rparr>"
    have free: "bview db (repo, n) = None" using Cons.prems(3) x by simp
    note first = append_row_moved [OF Cons.prems(1) free, of c]
    have "\<forall>m \<in> fst ` set xs. bview (db\<lparr>t_bookmarks := t_bookmarks db @ [?row]\<rparr>) (repo, m) = None"
    proof
      fix m
      assume m: "m \<in> fst ` set xs"
      then have "m \<noteq> n" using Cons.prems(2) x by auto
      then show "bview (db\<lparr>t_bookmarks := t_bookmarks db @ [?row]\<rparr>) (repo, m) = None"
        using rows_moved_other [OF first, of m] Cons.prems(3) m by simp
    qed
    from Cons.IH [OF rows_moved_keys [OF first] _ this] Cons.prems(2) obtain d where
      "InsertBookmarks (db\<lparr>t_bookmarks := t_bookmarks db @ [?row]\<rparr>) (map (row_of repo) xs) = (d, length xs)"
      "rows_moved repo (new_values xs) (db\<lparr>t_bookmarks := t_bookmarks db @ [?row]\<rparr>) d" by auto
    then show ?case using rows_moved_trans [OF first, of "new_values xs" d] x free
      by (simp add: insert_row del: InsertBookmarks.simps(2))
  qed (simp add: rows_moved_refl)
  then show ?thesis by (auto simp: commit_creates_def)
qed

lemma creates_rejects:
  assumes "bkeys_ok db" "distinct (map fst xs)" "\<not> (\<forall>(n, x) \<in> set xs. create_guard x (bview db (repo, n)))"
  shows "commit_creates repo xs db = Inl None"
proof -
  have "\<not> (\<forall>n \<in> fst ` set xs. bview db (repo, n) = None)" using assms(3) by (force simp: create_guard_def)
  with assms(1,2) have "snd (InsertBookmarks db (map (row_of repo) xs)) < length xs"
  proof (induction xs arbitrary: db)
    case (Cons x xs)
    obtain n c r where x: "x = (n, c, r)" by (cases x) auto
    let ?row = "\<lparr>br_repo_id = repo, br_name = n, br_changeset_id = c\<rparr>"
    show ?case
    proof (cases "bview db (repo, n) = None")
      case False
      then show ?thesis
        using x insert_count [of db "map (row_of repo) xs"] by (simp add: insert_row del: InsertBookmarks.simps(2))
    next
      case True
      note first = append_row_moved [OF Cons.prems(1) True, of c]
      obtain m where m: "m \<in> fst ` set xs" "bview db (repo, m) \<noteq> None" using Cons.prems(3) x True by auto
      then have "m \<noteq> n" using Cons.prems(2) x by auto
      then have "bview (db\<lparr>t_bookmarks := t_bookmarks db @ [?row]\<rparr>) (repo, m) \<noteq> None"
        using rows_moved_other [OF first, of m] m(2) by simp
      then have "snd (InsertBookmarks (db\<lparr>t_bookmarks := t_bookmarks db @ [?row]\<rparr>) (map (row_of repo) xs)) < length xs"
        using Cons.IH [OF rows_moved_keys [OF first]] Cons.prems(2) m(1) by auto
      then show ?thesis using x True by (simp add: case_prod_unfold insert_row del: InsertBookmarks.simps(2))
    qed
  qed simp
  then show ?thesis by (auto simp: commit_creates_def split: prod.splits)
qed

section \<open>The update log\<close>

definition log_row_of :: "int \<Rightarrow> Timestamp \<Rightarrow> nat \<Rightarrow> 'c move \<Rightarrow> 'c log_row" where
  "log_row_of repo now i m = (case m of (name, from_cs, to_cs, reason) \<Rightarrow>
     \<lparr>lr_id = i, lr_repo_id = repo, lr_name = name, lr_from_changeset_id = from_cs,
      lr_to_changeset_id = to_cs, lr_reason = reason_to_value reason, lr_timestamp = now\<rparr>)"

definition replay_rows_of :: "(commit_timestamps \<Rightarrow> string option) \<Rightarrow> nat \<Rightarrow> 'c move \<Rightarrow> replay_row list" where
  "replay_rows_of to_json i m = (case m of (name, from_cs, to_cs, reason) \<Rightarrow>
     (case replay_of reason of
        Some d \<Rightarrow> [\<lparr>rr_log_id = i, rr_bundle_handle = bundle_handle d,
                    rr_commit_hashes_json = the (to_json (commit_timestamps d))\<rparr>]
      | None \<Rightarrow> []))"

fun logged :: "(commit_timestamps \<Rightarrow> string option) \<Rightarrow> int \<Rightarrow> Timestamp \<Rightarrow> 'c move list \<Rightarrow> 'c bookmarks_db \<Rightarrow> 'c bookmarks_db" where
  "logged to_json repo now [] db = db"
| "logged to_json repo now (m # ms) db =
     logged to_json repo now ms
       (db\<lparr>t_update_log := t_update_log db @ [log_row_of repo now (next_log_id db) m],
           t_replay_data := t_replay_data db @ replay_rows_of to_json (next_log_id db) m,
           next_log_id := next_log_id db + 1\<rparr>)"

lemma log_bookmark_move_ok:
  assumes "\<forall>ts. to_json ts \<noteq> None"
  shows "log_bookmark_move to_json repo now db m =
     Inr (db\<lparr>t_update_log := t_update_log db @ [log_row_of repo now (next_log_id db) m],
           t_replay_data := t_replay_data db @ replay_rows_of to_json (next_log_id db) m,
           next_log_id := next_log_id db + 1\<rparr>)"
proof -
  obtain n f t r where m: "m = (n, f, t, r)" by (cases m) auto
  have "\<exists>j. to_json ts = Some j" for ts using assms by blast
  then show ?thesis
    unfolding m by (cases "replay_of r")
      (auto simp: AddBookmarkLog_def log_bundle_replay_data_def AddBundleReplayData_def log_row_of_def replay_rows_of_def
        split: option.splits)
qed

lemma log_bookmark_moves_ok:
  "\<forall>ts. to_json ts \<noteq> None \<Longrightarrow> loop_rows (log_bookmark_move to_json repo now) db ms = Inr (logged to_json repo now ms db)"
  by (induction ms arbitrary: db) (simp_all add: log_bookmark_move_ok)


lemma logged_facts:
  "t_bookmarks (logged to_json repo now ms db) = t_bookmarks db"
  "t_update_log (logged to_json repo now ms db) =
     t_update_log db @ map2 (log_row_of repo now) [next_log_id db ..< next_log_id db + length ms] ms"
  "t_replay_data (logged to_json repo now ms db) =
     t_replay_data db @ concat (map2 (replay_rows_of to_json) [next_log_id db ..< next_log_id db + length ms] ms)"
  "next_log_id (logged to_json repo now ms db) = next_log_id db + length ms"
  by (induction ms arbitrary: db) (simp_all add: upt_conv_Cons del: upt_Suc)

section \<open>What a transaction promises\<close>

definition tx_keys :: "'c SqlBookmarksTransaction \<Rightarrow> string list" where
  "tx_keys tx = map fst (force_sets tx) @ map fst (creates tx) @ map fst (sets tx) @ map fst (force_deletes tx) @ map fst (deletes tx)"

definition txn_ok :: "'c SqlBookmarksTransaction \<Rightarrow> bool" where
  "txn_ok tx \<longleftrightarrow> distinct (tx_keys tx)"

definition tx_targets :: "'c SqlBookmarksTransaction \<Rightarrow> (string \<times> 'c option) list" where
  "tx_targets tx = map (\<lambda>(b, f, t, r). (b, t)) (tx_moves tx)"

text \<open>Bookmarks to create must not exist, bookmarks to update or delete must point to the changeset the
  client saw.\<close>

definition tx_guard :: "'c SqlBookmarksTransaction \<Rightarrow> (int \<times> string \<rightharpoonup> 'c) \<Rightarrow> bool" where
  "tx_guard tx m \<longleftrightarrow>
     (\<forall>(n, x) \<in> set (creates tx). create_guard x (m (tx_repo_id tx, n))) \<and>
     (\<forall>(n, x) \<in> set (sets tx). set_guard x (m (tx_repo_id tx, n))) \<and>
     (\<forall>(n, x) \<in> set (deletes tx). delete_guard x (m (tx_repo_id tx, n)))"

lemma targets_eq:
  "tx_targets tx = new_values (force_sets tx) @ new_values (creates tx) @ map (\<lambda>(n, x). (n, Some (new_cs (fst x)))) (sets tx) @
     map (\<lambda>(n, x). (n, None)) (force_deletes tx) @ map (\<lambda>(n, x). (n, None)) (deletes tx)"
  by (simp add: tx_targets_def tx_moves_def comp_def case_prod_unfold)

lemma targets_keys: "map fst (tx_targets tx) = tx_keys tx"
  by (simp add: targets_eq tx_keys_def comp_def case_prod_unfold)

lemma fold_hm_insert:
  assumes "distinct (map fst xs)" "fst ` set xs \<inter> fst ` set m = {}"
  shows "fold (\<lambda>(k, v). hm_insert k v) xs m = rev xs @ m"
  using assms
proof (induction xs arbitrary: m)
  case (Cons x xs)
  obtain k v where x: "x = (k, v)" by fastforce
  have "filter (\<lambda>e. fst e \<noteq> k) m = m" using Cons.prems(2) x by (intro filter_True) (auto simp: image_iff)
  then have "hm_insert k v m = (k, v) # m" by (simp add: hm_insert_def)
  moreover have "fst ` set xs \<inter> fst ` set ((k, v) # m) = {}" using Cons.prems x by auto
  ultimately show ?case using Cons.IH [of "(k, v) # m"] Cons.prems(1) x by simp
qed simp

lemma moves_keys: "map fst (tx_moves tx) = tx_keys tx"
  by (simp add: tx_moves_def tx_keys_def comp_def case_prod_unfold)

lemma log_rows_eq: "txn_ok tx \<Longrightarrow> log_rows tx = rev (tx_moves tx)"
  using fold_hm_insert [of "tx_moves tx" "[]"] by (simp add: log_rows_def txn_ok_def moves_keys)

lemma keys_of: "fst ` set (map (\<lambda>(n, x). (n, g x)) xs) = fst ` set xs" "fst ` set (new_values ys) = fst ` set ys"
  by force+

lemma creates_after:
  assumes m: "rows_moved repo ts db d" and "distinct (map fst xs)" "fst ` set ts \<inter> fst ` set xs = {}"
  shows "\<forall>(n, x) \<in> set xs. create_guard x (bview db (repo, n)) \<Longrightarrow>
      \<exists>d'. commit_creates repo xs d = Inr d' \<and> rows_moved repo (ts @ new_values xs) db d'"
    and "\<not> (\<forall>(n, x) \<in> set xs. create_guard x (bview db (repo, n))) \<Longrightarrow> commit_creates repo xs d = Inl None"
proof -
  note g = guard_after [OF m assms(3), of create_guard]
  show "\<exists>d'. commit_creates repo xs d = Inr d' \<and> rows_moved repo (ts @ new_values xs) db d'"
    if "\<forall>(n, x) \<in> set xs. create_guard x (bview db (repo, n))"
    using creates_accepts [OF rows_moved_keys [OF m] assms(2) g [THEN iffD2, OF that]] rows_moved_trans [OF m] by blast
  show "commit_creates repo xs d = Inl None" if "\<not> (\<forall>(n, x) \<in> set xs. create_guard x (bview db (repo, n)))"
    by (rule creates_rejects [OF rows_moved_keys [OF m] assms(2)]) (use that g in blast)
qed

text \<open>The four stages that may fail, after the unconditional one: they carry out all moves, or fail.\<close>

definition commit_stages :: "'c SqlBookmarksTransaction \<Rightarrow> 'c bookmarks_db \<Rightarrow> 'c commit_step" where
  "commit_stages tx d0 = and_then (commit_creates (tx_repo_id tx) (creates tx) d0) (\<lambda>db.
      and_then (loop_rows (commit_set (tx_repo_id tx)) db (sets tx)) (\<lambda>db.
      and_then (loop_rows (commit_force_delete (tx_repo_id tx)) db (force_deletes tx)) (\<lambda>db.
      loop_rows (commit_delete (tx_repo_id tx)) db (deletes tx))))"

lemma commit_stages_ok:
  assumes ok: "txn_ok tx" and m0: "rows_moved (tx_repo_id tx) (new_values (force_sets tx)) db d0"
  shows "if tx_guard tx (bview db)
     then \<exists>d. commit_stages tx d0 = Inr d \<and> rows_moved (tx_repo_id tx) (tx_targets tx) db d
     else commit_stages tx d0 = Inl None"
proof -
  let ?r = "tx_repo_id tx" and ?v = "bview db"
  have dist: "distinct (map fst (creates tx))" "distinct (map fst (sets tx))" "distinct (map fst (force_deletes tx))"
    "distinct (map fst (deletes tx))"
    and disj: "fst ` set (force_sets tx) \<inter> fst ` set (creates tx) = {}"
    "fst ` set (force_sets tx) \<inter> fst ` set (sets tx) = {}" "fst ` set (creates tx) \<inter> fst ` set (sets tx) = {}"
    "fst ` set (force_sets tx) \<inter> fst ` set (force_deletes tx) = {}" "fst ` set (creates tx) \<inter> fst ` set (force_deletes tx) = {}"
    "fst ` set (sets tx) \<inter> fst ` set (force_deletes tx) = {}"
    "fst ` set (force_sets tx) \<inter> fst ` set (deletes tx) = {}" "fst ` set (creates tx) \<inter> fst ` set (deletes tx) = {}"
    "fst ` set (sets tx) \<inter> fst ` set (deletes tx) = {}" "fst ` set (force_deletes tx) \<inter> fst ` set (deletes tx) = {}"
    using ok by (simp_all add: txn_ok_def tx_keys_def Int_Un_distrib)
  let ?k1 = "new_values (force_sets tx)" and ?k2 = "new_values (creates tx)"
    and ?k3 = "map (\<lambda>(n, x). (n, Some (new_cs (fst x)))) (sets tx)" and ?k4 = "map (\<lambda>(n, x). (n, None)) (force_deletes tx)"
  note keys = set_append image_Un keys_of Int_Un_distrib2 disj Un_empty_left Un_empty_right
  note c = creates_after [OF m0 dist(1)]
  show ?thesis
  proof (cases "\<forall>(n, x) \<in> set (creates tx). create_guard x (?v (?r, n))")
    case False
    moreover have "commit_creates ?r (creates tx) d0 = Inl None" by (rule c(2) [OF _ False]) (simp only: keys)
    ultimately show ?thesis by (auto simp: tx_guard_def commit_stages_def)
  next
    case True
    have "\<exists>d'. commit_creates ?r (creates tx) d0 = Inr d' \<and> rows_moved ?r (?k1 @ ?k2) db d'"
      by (rule c(1) [OF _ True]) (simp only: keys)
    then obtain d1 where d1: "commit_creates ?r (creates tx) d0 = Inr d1" and m1: "rows_moved ?r (?k1 @ ?k2) db d1" by blast
    note st = set_stage.loop_after [OF m1 dist(2)]
    show ?thesis
    proof (cases "\<forall>(n, x) \<in> set (sets tx). set_guard x (?v (?r, n))")
      case False
      moreover have "loop_rows (commit_set ?r) d1 (sets tx) = Inl None" by (rule st(2) [OF _ False]) (simp only: keys)
      ultimately show ?thesis using d1 by (auto simp: tx_guard_def commit_stages_def)
    next
      case s: True
      have "\<exists>d'. loop_rows (commit_set ?r) d1 (sets tx) = Inr d' \<and> rows_moved ?r ((?k1 @ ?k2) @ ?k3) db d'"
        by (rule st(1) [OF _ s]) (simp only: keys)
      then obtain d2 where d2: "loop_rows (commit_set ?r) d1 (sets tx) = Inr d2" and m2: "rows_moved ?r ((?k1 @ ?k2) @ ?k3) db d2" by blast
      have "\<exists>d'. loop_rows (commit_force_delete ?r) d2 (force_deletes tx) = Inr d' \<and> rows_moved ?r (((?k1 @ ?k2) @ ?k3) @ ?k4) db d'"
        by (rule force_delete_stage.loop_after(1) [OF m2 dist(3)]) (simp_all only: keys, simp)
      then obtain d3 where d3: "loop_rows (commit_force_delete ?r) d2 (force_deletes tx) = Inr d3"
        and m3: "rows_moved ?r (((?k1 @ ?k2) @ ?k3) @ ?k4) db d3" by blast
      have free: "fst ` set (((?k1 @ ?k2) @ ?k3) @ ?k4) \<inter> fst ` set (deletes tx) = {}" by (simp only: keys)
      note dt = delete_stage.loop_after [OF m3 dist(4) free]
      show ?thesis
        using True s d1 d2 d3 dt by (auto simp: tx_guard_def commit_stages_def targets_eq simp del: map_append)
    qed
  qed
qed


lemma and_then_assoc: "and_then (and_then r f) g = and_then r (\<lambda>x. and_then (f x) g)"
  by (cases r) simp_all

lemma commit_unfold:
  "commit to_json ho now tx db =
     (case and_then (commit_stages tx (ReplaceBookmarks db (map (row_of (tx_repo_id tx)) (force_sets tx))))
             (\<lambda>d. loop_rows (log_bookmark_move to_json (tx_repo_id tx) now) d (ho (log_rows tx))) of
        Inr db' \<Rightarrow> (Inr True, db')
      | Inl None \<Rightarrow> (Inr False, db)
      | Inl (Some e) \<Rightarrow> (Inl e, db))"
  by (simp add: commit_def commit_stages_def Let_def and_then_assoc)

lemma commit_result:
  assumes "txn_ok tx" "bkeys_ok db" "\<forall>ts. to_json ts \<noteq> None"
  shows "if tx_guard tx (bview db)
     then \<exists>d. rows_moved (tx_repo_id tx) (tx_targets tx) db d \<and>
        commit to_json ho now tx db = (Inr True, logged to_json (tx_repo_id tx) now (ho (log_rows tx)) d)
     else commit to_json ho now tx db = (Inr False, db)"
  using commit_stages_ok [OF assms(1) replace_moves [OF assms(2), of "tx_repo_id tx" "force_sets tx"]]
  by (auto simp: commit_unfold log_bookmark_moves_ok [OF assms(3)] split: if_splits)

text \<open>C11: committing a transaction. If every bookmark to create is absent and every bookmark to update or
  delete points to the expected changeset, the commit succeeds: exactly the bookmarks of the
  transaction move, each to its target, and the update log gains one row per bookmark, with the move
  and the reason. Otherwise the commit returns false and the database is unchanged.\<close>

theorem commit_correct:
  assumes "txn_ok tx" "bkeys_ok db" "\<forall>ts. to_json ts \<noteq> None" "\<forall>ms. mset (ho ms) = mset ms"
  shows "if tx_guard tx (bview db)
     then \<exists>db' ms. commit to_json ho now tx db = (Inr True, db') \<and> bkeys_ok db' \<and>
        (\<forall>repo n. bview db' (repo, n) =
           (case map_of (tx_targets tx) n of
              Some t \<Rightarrow> if repo = tx_repo_id tx then t else bview db (repo, n)
            | None \<Rightarrow> bview db (repo, n))) \<and>
        mset ms = mset (tx_moves tx) \<and>
        t_update_log db' = t_update_log db @
          map2 (log_row_of (tx_repo_id tx) now) [next_log_id db ..< next_log_id db + length ms] ms
     else commit to_json ho now tx db = (Inr False, db)"
proof (cases "tx_guard tx (bview db)")
  case True
  obtain d where d: "rows_moved (tx_repo_id tx) (tx_targets tx) db d"
    "commit to_json ho now tx db = (Inr True, logged to_json (tx_repo_id tx) now (ho (log_rows tx)) d)"
    using commit_result [OF assms(1-3), of ho now] True by auto
  let ?db' = "logged to_json (tx_repo_id tx) now (ho (log_rows tx)) d"
  note same = rows_moved_same [OF d(1)]
  have view: "bview ?db' = moved (tx_repo_id tx) (tx_targets tx) (bview db)" "bkeys_ok ?db'"
    using d(1) by (simp_all add: rows_moved_def bview_def bkeys_ok_def logged_facts)
  have "bview ?db' (repo, n) = (case map_of (tx_targets tx) n of
      Some t \<Rightarrow> if repo = tx_repo_id tx then t else bview db (repo, n) | None \<Rightarrow> bview db (repo, n))" for repo n
  proof (cases "repo = tx_repo_id tx")
    case True
    then show ?thesis using assms(1) view(1) moved_at [of "tx_targets tx" repo "bview db" n]
      by (simp add: txn_ok_def targets_keys cong: option.case_cong)
  next
    case False
    then show ?thesis using view(1) moved_other [of "(repo, n)" "tx_repo_id tx" "tx_targets tx" "bview db"]
      by (auto split: option.splits)
  qed
  moreover have "mset (ho (log_rows tx)) = mset (tx_moves tx)" using assms(4) log_rows_eq [OF assms(1)] by simp
  ultimately show ?thesis using True d(2) view(2) same by (auto simp: logged_facts)
next
  case False
  then show ?thesis using commit_result [OF assms(1-3), of ho now] by simp
qed


theorem commit_correct_witness:
  "let old = \<lparr>br_repo_id = 0, br_name = ''master'', br_changeset_id = 1 :: nat\<rparr>;
       db = empty_bookmarks_db\<lparr>t_bookmarks := [old]\<rparr>;
       tx = \<lparr>tx_repo_id = 0, force_sets = [], creates = [(''new'', 5, ManualMove)],
             sets = [(''master'', \<lparr>new_cs = 2, old_cs = 1\<rparr>, Push None)], force_deletes = [], deletes = []\<rparr>
   in \<exists>db'. commit (\<lambda>_. Some []) id (Timestamp 7) tx db = (Inr True, db') \<and> bview db' (0, ''master'') = Some 2 \<and>
        bview db' (0, ''new'') = Some 5 \<and> length (t_update_log db') = 2"
proof -
  let ?old = "\<lparr>br_repo_id = 0, br_name = ''master'', br_changeset_id = 1 :: nat\<rparr>"
  let ?db = "empty_bookmarks_db\<lparr>t_bookmarks := [?old]\<rparr>"
  let ?tx = "\<lparr>tx_repo_id = 0, force_sets = [], creates = [(''new'', 5, ManualMove)],
             sets = [(''master'', \<lparr>new_cs = 2, old_cs = 1\<rparr>, Push None)], force_deletes = [], deletes = []\<rparr> :: nat SqlBookmarksTransaction"
  have ok: "txn_ok ?tx" by (simp add: txn_ok_def tx_keys_def)
  have keys: "bkeys_ok ?db" by (simp add: bkeys_ok_def)
  have "tx_guard ?tx (bview ?db)"
    by (simp add: tx_guard_def bview_def row_key_def create_guard_def set_guard_def)
  with commit_correct [OF ok keys, of "\<lambda>_. Some []" id "Timestamp 7"] obtain db' ms where
    c: "commit (\<lambda>_. Some []) id (Timestamp 7) ?tx ?db = (Inr True, db')"
      "\<forall>repo n. bview db' (repo, n) = (case map_of (tx_targets ?tx) n of
          Some t \<Rightarrow> if repo = tx_repo_id ?tx then t else bview ?db (repo, n) | None \<Rightarrow> bview ?db (repo, n))"
      "mset ms = mset (tx_moves ?tx)" "t_update_log db' = t_update_log ?db @
          map2 (log_row_of (tx_repo_id ?tx) (Timestamp 7)) [next_log_id ?db ..< next_log_id ?db + length ms] ms"
    by (auto simp del: map_of.simps)
  have "length ms = 2" using mset_eq_length [OF c(3)] by (simp add: tx_moves_def)
  then have "length (t_update_log db') = 2" using c(4) by (simp add: empty_bookmarks_db_def)
  moreover have "bview db' (0, ''master'') = Some 2" "bview db' (0, ''new'') = Some 5"
    using c(2) by (simp_all add: targets_eq)
  ultimately show ?thesis using c(1) by (simp add: Let_def)
qed

text \<open>C12: a bookmark moves by compare and swap. Of two transactions that expect the same changeset, the
  one that is committed first, if it moves the bookmark away, wins: the bookmark points where it says, and
  the other one, whatever else it does, is refused and changes nothing.\<close>

theorem bookmark_cas_exclusive:
  assumes "txn_ok t1" "txn_ok t2" "tx_repo_id t1 = tx_repo_id t2" "bkeys_ok db" "\<forall>ts. to_json ts \<noteq> None"
    and "\<forall>ms. mset (ho ms) = mset ms"
    and "(name, \<lparr>new_cs = new1, old_cs = old\<rparr>, r1) \<in> set (sets t1)" "(name, \<lparr>new_cs = new2, old_cs = old\<rparr>, r2) \<in> set (sets t2)"
    and "new1 \<noteq> old" and "commit to_json ho now t1 db = (Inr True, db1)"
  shows "bview db1 (tx_repo_id t1, name) = Some new1 \<and> commit to_json ho later t2 db1 = (Inr False, db1)"
proof -
  obtain d where d: "rows_moved (tx_repo_id t1) (tx_targets t1) db d"
    "db1 = logged to_json (tx_repo_id t1) now (ho (log_rows t1)) d"
    using commit_result [OF assms(1,4,5), of ho now] assms(10) by (auto split: if_splits)
  have keys: "bkeys_ok db1" and view: "bview db1 = moved (tx_repo_id t1) (tx_targets t1) (bview db)"
    using d by (simp_all add: rows_moved_def bview_def bkeys_ok_def logged_facts)
  have dist: "distinct (map fst (tx_targets t1))" using assms(1) by (simp add: txn_ok_def targets_keys)
  have "(name, Some new1) \<in> set (tx_targets t1)" using assms(7) by (force simp: targets_eq)
  then have new: "bview db1 (tx_repo_id t1, name) = Some new1"
    using view moved_at [OF dist, of "tx_repo_id t1" "bview db" name] map_of_is_SomeI [OF dist] by simp
  then have "\<not> tx_guard t2 (bview db1)"
    using assms(3,8,9) by (force simp: tx_guard_def set_guard_def)
  then show ?thesis using new commit_result [OF assms(2) keys assms(5), of ho later] by simp
qed


theorem bookmark_cas_exclusive_witness:
  "let db = empty_bookmarks_db\<lparr>t_bookmarks := [\<lparr>br_repo_id = 0, br_name = ''master'', br_changeset_id = 1 :: nat\<rparr>]\<rparr>;
       t1 = (create_transaction 0)\<lparr>sets := [(''master'', \<lparr>new_cs = 2, old_cs = 1\<rparr>, Push None)]\<rparr>;
       t2 = (create_transaction 0)\<lparr>sets := [(''master'', \<lparr>new_cs = 3, old_cs = 1\<rparr>, Push None)]\<rparr>
   in \<exists>db1. commit (\<lambda>_. Some []) id (Timestamp 7) t1 db = (Inr True, db1) \<and>
        commit (\<lambda>_. Some []) id (Timestamp 8) t2 db1 = (Inr False, db1)"
proof -
  let ?db = "empty_bookmarks_db\<lparr>t_bookmarks := [\<lparr>br_repo_id = 0, br_name = ''master'', br_changeset_id = 1 :: nat\<rparr>]\<rparr>"
  let ?t1 = "(create_transaction 0)\<lparr>sets := [(''master'', \<lparr>new_cs = 2, old_cs = 1 :: nat\<rparr>, Push None)]\<rparr>"
  let ?t2 = "(create_transaction 0)\<lparr>sets := [(''master'', \<lparr>new_cs = 3, old_cs = 1 :: nat\<rparr>, Push None)]\<rparr>"
  have "fst (commit (\<lambda>_. Some []) id (Timestamp 7) ?t1 ?db) = Inr True"
    by (simp add: commit_def create_transaction_def empty_bookmarks_db_def commit_creates_def UpdateBookmark_def row_key_def
        log_rows_def tx_moves_def hm_insert_def AddBookmarkLog_def log_bundle_replay_data_def)
  then obtain db1 where c: "commit (\<lambda>_. Some []) id (Timestamp 7) ?t1 ?db = (Inr True, db1)" by (metis prod.collapse)
  have ok: "txn_ok ?t1" "txn_ok ?t2" by (simp_all add: txn_ok_def tx_keys_def create_transaction_def)
  have "bkeys_ok ?db" by (simp add: bkeys_ok_def)
  from bookmark_cas_exclusive [OF ok _ this _ _ _ _ _ c, of "''master''" 2 1 "Push None" 3 "Push None" "Timestamp 8"]
  have "commit (\<lambda>_. Some []) id (Timestamp 8) ?t2 db1 = (Inr False, db1)" by (simp add: create_transaction_def)
  with c show ?thesis by (auto simp: Let_def)
qed

section \<open>The log is the history of the bookmarks\<close>

inductive bookmarks_reachable :: "(commit_timestamps \<Rightarrow> string option) \<Rightarrow> 'c bookmarks_db \<Rightarrow> bool" for to_json where
  start: "bookmarks_reachable to_json empty_bookmarks_db"
| committed: "bookmarks_reachable to_json db \<Longrightarrow> txn_ok tx \<Longrightarrow> (\<forall>ms. mset (ho ms) = mset ms) \<Longrightarrow>
    bookmarks_reachable to_json (snd (commit to_json ho now tx db))"

definition log_key :: "'c log_row \<Rightarrow> int \<times> string" where
  "log_key l = (lr_repo_id l, lr_name l)"

text \<open>Where the last row of the log for a bookmark says it went.\<close>

definition last_target :: "'c log_row list \<Rightarrow> int \<times> string \<Rightarrow> 'c option" where
  "last_target log k = (case filter (\<lambda>l. log_key l = k) (rev log) of [] \<Rightarrow> None | l # _ \<Rightarrow> lr_to_changeset_id l)"

lemma last_target_snoc: "last_target (log @ [l]) k = (if log_key l = k then lr_to_changeset_id l else last_target log k)"
  by (simp add: last_target_def)

abbreviation move_targets :: "'c move list \<Rightarrow> (string \<times> 'c option) list" where
  "move_targets ms \<equiv> map (\<lambda>(b, f, t, r). (b, t)) ms"

lemma last_target_rows:
  assumes "distinct (map fst ms)" "length is = length ms"
  shows "last_target (log @ map2 (log_row_of repo now) is ms) = moved repo (move_targets ms) (last_target log)"
  using assms
proof (induction ms arbitrary: "is" log)
  case (Cons m ms)
  obtain i is' where i: "is = i # is'" "length is' = length ms" using Cons.prems(2) by (cases "is") auto
  obtain b f t r where m: "m = (b, f, t, r)" by (cases m) auto
  have "last_target (log @ [log_row_of repo now i m]) = (last_target log)((repo, b) := t)"
    by (rule ext) (simp add: last_target_snoc m log_row_of_def log_key_def)
  then show ?case using Cons.IH [of is' "log @ [log_row_of repo now i m]"] Cons.prems(1) i m by (simp add: fun_upd_def)
qed simp

lemma log_row_ids: "length is = length ms \<Longrightarrow> map lr_id (map2 (log_row_of repo now) is ms) = is"
  by (induction "is" ms rule: list_induct2) (auto simp: log_row_of_def case_prod_unfold)

lemma moved_perm:
  assumes "distinct (map fst ts)" "mset us = mset ts"
  shows "moved repo us m = moved repo ts m"
proof
  fix k :: "int \<times> string"
  have us: "distinct (map fst us)" using assms by (metis mset_map mset_eq_imp_distinct_iff)
  have "map_of us = map_of ts" using map_of_inject_set [OF us assms(1)] mset_eq_setD [OF assms(2)] by simp
  then have at: "moved repo us m (repo, n) = moved repo ts m (repo, n)" for n
    using moved_at [OF us, of repo m n] moved_at [OF assms(1), of repo m n] by simp
  have "k \<notin> Pair repo ` A" if "fst k \<noteq> repo" for A using that by auto
  then show "moved repo us m k = moved repo ts m k"
    using at [of "snd k"] moved_other [of k repo us m] moved_other [of k repo ts m] by (cases "fst k = repo") auto
qed

lemma reachable_facts:
  assumes "bookmarks_reachable to_json db" "\<forall>ts. to_json ts \<noteq> None"
  shows "bkeys_ok db \<and> bview db = last_target (t_update_log db) \<and> map lr_id (t_update_log db) = [1 ..< next_log_id db] \<and> 1 \<le> next_log_id db"
  using assms
proof (induction rule: bookmarks_reachable.induct)
  case start
  show ?case by (simp add: empty_bookmarks_db_def bkeys_ok_def bview_def last_target_def fun_eq_iff)
next
  case (committed db tx ho now)
  then have IH: "bkeys_ok db" "bview db = last_target (t_update_log db)" "map lr_id (t_update_log db) = [1 ..< next_log_id db]"
    "1 \<le> next_log_id db" by simp_all
  note r = commit_result [OF committed.hyps(2) IH(1) committed.prems, of ho now]
  show ?case
  proof (cases "tx_guard tx (bview db)")
    case False
    then show ?thesis using r IH by simp
  next
    case True
    then obtain d where d: "rows_moved (tx_repo_id tx) (tx_targets tx) db d"
      "commit to_json ho now tx db = (Inr True, logged to_json (tx_repo_id tx) now (ho (log_rows tx)) d)" using r by auto
    let ?ms = "ho (log_rows tx)" and ?db = "logged to_json (tx_repo_id tx) now (ho (log_rows tx)) d"
    note same = rows_moved_same [OF d(1)]
    have ms: "mset ?ms = mset (tx_moves tx)" using committed.hyps(3) log_rows_eq [OF committed.hyps(2)] by simp
    have "mset (map fst ?ms) = mset (tx_keys tx)" using ms by (simp add: moves_keys [symmetric])
    from mset_eq_imp_distinct_iff [OF this] have dist: "distinct (map fst ?ms)" using committed.hyps(2) by (simp add: txn_ok_def)
    have "mset (move_targets ?ms) = mset (tx_targets tx)" using ms by (simp add: tx_targets_def)
    then have "moved (tx_repo_id tx) (move_targets ?ms) m = moved (tx_repo_id tx) (tx_targets tx) m" for m :: "int \<times> string \<rightharpoonup> 'a"
      using committed.hyps(2) by (intro moved_perm) (simp_all add: txn_ok_def targets_keys)
    then have "last_target (t_update_log ?db) = moved (tx_repo_id tx) (tx_targets tx) (bview db)"
      using last_target_rows [OF dist, of "[next_log_id db ..< next_log_id db + length ?ms]" "t_update_log db" "tx_repo_id tx" now]
      by (simp add: logged_facts same IH(2))
    moreover have "bview ?db = moved (tx_repo_id tx) (tx_targets tx) (bview db)" "bkeys_ok ?db"
      using d(1) by (simp_all add: rows_moved_def bview_def bkeys_ok_def logged_facts)
    moreover have "map lr_id (t_update_log ?db) = [1 ..< next_log_id ?db]"
    proof -
      have "map lr_id (map2 (log_row_of (tx_repo_id tx) now) [next_log_id db ..< next_log_id db + length ?ms] ?ms) =
          [next_log_id db ..< next_log_id db + length ?ms]" by (rule log_row_ids) simp
      then show ?thesis unfolding logged_facts same map_append IH(3) by (simp only: upt_add_eq_append [OF IH(4)])
    qed
    ultimately show ?thesis using d(2) IH(4) same by (simp add: logged_facts)
  qed
qed

text \<open>C13: the update log is a complete history of the bookmarks. In every state that commits lead to, the
  rows of the log are numbered 1, 2, ... in the order they were written, bookmarks are unique, and
  every bookmark is where its last log row says, or absent when it has none.\<close>

theorem bookmark_log_complete:
  assumes "bookmarks_reachable to_json db" "\<forall>ts. to_json ts \<noteq> None"
  shows "bkeys_ok db \<and> bview db = last_target (t_update_log db) \<and> map lr_id (t_update_log db) = [1 ..< next_log_id db]"
  using reachable_facts [OF assms] by blast

theorem bookmark_log_complete_witness:
  "let tx = (create_transaction 0)\<lparr>creates := [(''new'', 5 :: nat, ManualMove)]\<rparr>;
       db = snd (commit (\<lambda>_. Some []) id (Timestamp 7) tx empty_bookmarks_db)
   in bview db = last_target (t_update_log db)"
proof -
  let ?tx = "(create_transaction 0)\<lparr>creates := [(''new'', 5 :: nat, ManualMove)]\<rparr>"
  have "bookmarks_reachable (\<lambda>_. Some []) (snd (commit (\<lambda>_. Some []) id (Timestamp 7) ?tx empty_bookmarks_db))"
    by (rule committed [OF start]) (simp_all add: txn_ok_def tx_keys_def create_transaction_def)
  from bookmark_log_complete [OF this] show ?thesis by (simp add: Let_def)
qed

section \<open>Reading the log\<close>

definition replay_for :: "'c bookmarks_db \<Rightarrow> 'c log_row \<Rightarrow> replay_row option" where
  "replay_for db l = (case filter (\<lambda>p. rr_log_id p = lr_id l) (t_replay_data db) of [] \<Rightarrow> None | p # _ \<Rightarrow> Some p)"

definition entry_of_move :: "int \<Rightarrow> Timestamp \<Rightarrow> nat \<Rightarrow> 'c move \<Rightarrow> 'c BookmarkUpdateLogEntry" where
  "entry_of_move repo now i m = (case m of (name, from_cs, to_cs, reason) \<Rightarrow>
     \<lparr>le_id = i, le_repo_id = repo, le_bookmark_name = name, le_to_changeset_id = to_cs, le_from_changeset_id = from_cs,
      le_reason = reason, le_timestamp = now\<rparr>)"

text \<open>The log as entries, and that every row can be read.\<close>

definition log_readable ::
    "(string \<Rightarrow> commit_timestamps option) \<Rightarrow> 'c bookmarks_db \<Rightarrow> 'c BookmarkUpdateLogEntry list \<Rightarrow> bool" where
  "log_readable from_json db es \<longleftrightarrow>
     list_all2 (\<lambda>l e. log_entry from_json (l, replay_for db l) = Inr e \<and> le_id e = lr_id l \<and> le_repo_id e = lr_repo_id l)
       (t_update_log db) es \<and>
     distinct (map rr_log_id (t_replay_data db)) \<and> (\<forall>p \<in> set (t_replay_data db). rr_log_id p < next_log_id db)"

lemma log_entry_of_move:
  assumes "\<forall>ts. \<exists>j. to_json ts = Some j \<and> from_json j = Some ts"
  shows "log_entry from_json (log_row_of repo now i m, case replay_rows_of to_json i m of [] \<Rightarrow> None | p # _ \<Rightarrow> Some p)
     = Inr (entry_of_move repo now i m)"
proof -
  obtain n f t r where m: "m = (n, f, t, r)" by (cases m) auto
  have json: "from_json (the (to_json ts)) = Some ts" for ts using assms by (metis option.sel)
  show ?thesis
    unfolding m using json
    by (cases r; cases "replay_of r") (auto simp: log_entry_def log_row_of_def replay_rows_of_def entry_of_move_def reason_from_value_def)
qed


lemma log_readable_step:
  assumes json: "\<forall>ts. \<exists>j. to_json ts = Some j \<and> from_json j = Some ts"
    and r: "log_readable from_json db es" and ids: "\<forall>l \<in> set (t_update_log db). lr_id l < next_log_id db"
  shows "log_readable from_json (db\<lparr>t_update_log := t_update_log db @ [log_row_of repo now (next_log_id db) m],
       t_replay_data := t_replay_data db @ replay_rows_of to_json (next_log_id db) m, next_log_id := next_log_id db + 1\<rparr>)
     (es @ [entry_of_move repo now (next_log_id db) m])" (is "log_readable from_json ?db ?es")
proof -
  let ?i = "next_log_id db"
  have new: "\<forall>p \<in> set (replay_rows_of to_json ?i m). rr_log_id p = ?i" "length (replay_rows_of to_json ?i m) \<le> 1"
    by (auto simp: replay_rows_of_def split: prod.splits option.splits)
  have old: "\<forall>p \<in> set (t_replay_data db). rr_log_id p < ?i" "distinct (map rr_log_id (t_replay_data db))"
    using r by (simp_all add: log_readable_def)
  have dist: "distinct (map rr_log_id (replay_rows_of to_json ?i m))" using new(2) by (cases "replay_rows_of to_json ?i m") auto
  have keep: "replay_for ?db l = replay_for db l" if "l \<in> set (t_update_log db)" for l
  proof -
    have "filter (\<lambda>p. rr_log_id p = lr_id l) (replay_rows_of to_json ?i m) = []"
      using new(1) ids that by (auto simp: filter_empty_conv)
    then show ?thesis by (simp add: replay_for_def)
  qed
  have "filter (\<lambda>p. rr_log_id p = ?i) (t_replay_data db) = []" using old(1) by (auto simp: filter_empty_conv)
  moreover have "filter (\<lambda>p. rr_log_id p = ?i) (replay_rows_of to_json ?i m) = replay_rows_of to_json ?i m" using new(1) by simp
  moreover have "lr_id (log_row_of repo now ?i m) = ?i" by (simp add: log_row_of_def case_prod_unfold)
  ultimately have "replay_for ?db (log_row_of repo now ?i m) = (case replay_rows_of to_json ?i m of [] \<Rightarrow> None | p # _ \<Rightarrow> Some p)"
    by (simp add: replay_for_def)
  then have fresh: "log_entry from_json (log_row_of repo now ?i m, replay_for ?db (log_row_of repo now ?i m)) = Inr (entry_of_move repo now ?i m)"
    using log_entry_of_move [OF json, of repo now ?i m] by simp
  have "list_all2 (\<lambda>l e. log_entry from_json (l, replay_for ?db l) = Inr e \<and> le_id e = lr_id l \<and> le_repo_id e = lr_repo_id l)
      (t_update_log db) es"
    using r keep by (auto simp: log_readable_def list_all2_conv_all_nth)
  moreover have "le_id (entry_of_move repo now ?i m) = lr_id (log_row_of repo now ?i m) \<and>
      le_repo_id (entry_of_move repo now ?i m) = lr_repo_id (log_row_of repo now ?i m)"
    by (simp add: log_row_of_def entry_of_move_def case_prod_unfold)
  ultimately have "list_all2 (\<lambda>l e. log_entry from_json (l, replay_for ?db l) = Inr e \<and> le_id e = lr_id l \<and> le_repo_id e = lr_repo_id l)
      (t_update_log db @ [log_row_of repo now ?i m]) ?es"
    using fresh by (intro list_all2_appendI) simp_all
  moreover have "distinct (map rr_log_id (t_replay_data ?db))" using old new(1) dist by fastforce
  moreover have "\<forall>p \<in> set (t_replay_data ?db). rr_log_id p < next_log_id ?db" using old(1) new(1) by fastforce
  ultimately show ?thesis by (simp add: log_readable_def)
qed

lemma log_readable_logged:
  assumes json: "\<forall>ts. \<exists>j. to_json ts = Some j \<and> from_json j = Some ts"
    and "log_readable from_json db es" "\<forall>l \<in> set (t_update_log db). lr_id l < next_log_id db"
  shows "log_readable from_json (logged to_json repo now ms db)
     (es @ map2 (entry_of_move repo now) [next_log_id db ..< next_log_id db + length ms] ms)"
  using assms(2,3)
proof (induction ms arbitrary: db es)
  case (Cons m ms)
  let ?db = "db\<lparr>t_update_log := t_update_log db @ [log_row_of repo now (next_log_id db) m],
       t_replay_data := t_replay_data db @ replay_rows_of to_json (next_log_id db) m, next_log_id := next_log_id db + 1\<rparr>"
  have "\<forall>l \<in> set (t_update_log ?db). lr_id l < next_log_id ?db"
    using Cons.prems(2) by (auto simp: log_row_of_def case_prod_unfold)
  from Cons.IH [OF log_readable_step [OF json Cons.prems] this] show ?case
    by (simp add: upt_conv_Cons del: upt_Suc)
qed simp

lemma sort_key_sorted: "sorted (map f xs) \<Longrightarrow> sort_key f xs = xs"
  by (induction xs) (auto simp: insort_is_Cons)

text \<open>\<open>log_reads from_json db es\<close>: to its readers, the log of \<open>db\<close> is the list \<open>es\<close>.\<close>

definition log_reads ::
    "(string \<Rightarrow> commit_timestamps option) \<Rightarrow> 'c bookmarks_db \<Rightarrow> 'c BookmarkUpdateLogEntry list \<Rightarrow> bool" where
  "log_reads from_json db es \<longleftrightarrow> sorted_wrt (<) (map le_id es) \<and>
     (\<forall>i repo. read_next_bookmark_log_entry from_json db i repo = Inr (find (\<lambda>e. i < le_id e \<and> le_repo_id e = repo) es)) \<and>
     (\<forall>i repo. count_further_bookmark_log_entries db i repo = Inr (length (filter (\<lambda>e. i < le_id e \<and> le_repo_id e = repo) es)))"

lemma log_readable_reads:
  assumes "log_readable from_json db es" "sorted_wrt (<) (map lr_id (t_update_log db))"
  shows "log_reads from_json db es"
proof -
  let ?P = "\<lambda>i repo l. i < lr_id l \<and> lr_repo_id l = repo" and ?Q = "\<lambda>i repo e. i < le_id e \<and> le_repo_id e = repo"
  have all: "list_all2 (\<lambda>l e. log_entry from_json (l, replay_for db l) = Inr e \<and> le_id e = lr_id l \<and> le_repo_id e = lr_repo_id l)
      (t_update_log db) es" using assms(1) by (simp add: log_readable_def)
  then have ids: "map le_id es = map lr_id (t_update_log db)"
    by (auto simp: list_all2_conv_all_nth intro!: nth_equalityI)
  have cnt: "length (filter (?P i repo) (t_update_log db)) = length (filter (?Q i repo) es)" for i repo
    using all by (induction rule: list_all2_induct) auto
  have nxt: "(case filter (?P i repo) (t_update_log db) of [] \<Rightarrow> Inr None | l # _ \<Rightarrow> map_ok Some (log_entry from_json (l, replay_for db l)))
      = Inr (find (?Q i repo) es)" for i repo
    using all by (induction rule: list_all2_induct) auto
  have "sorted (map lr_id (filter (?P i repo) (t_update_log db)))" for i repo
    using assms(2) by (auto simp: sorted_wrt_map intro!: sorted_wrt_filter elim!: sorted_wrt_mono_rel [rotated])
  then have after: "log_rows_after db i repo = filter (?P i repo) (t_update_log db)" for i repo
    unfolding log_rows_after_def by (rule sort_key_sorted)
  have "take 1 (concat (map (\<lambda>l. case filter (\<lambda>p. rr_log_id p = lr_id l) (t_replay_data db) of
        [] \<Rightarrow> [(l, None)] | ps \<Rightarrow> map (\<lambda>p. (l, Some p)) ps) ls)) = (case ls of [] \<Rightarrow> [] | l # _ \<Rightarrow> [(l, replay_for db l)])" for ls
    by (cases ls) (auto simp: replay_for_def split: list.splits)
  then have "read_next_bookmark_log_entry from_json db i repo = Inr (find (?Q i repo) es)" for i repo
    using nxt [of i repo] by (auto simp: read_next_bookmark_log_entry_def ReadNextBookmarkLogEntry_def after split: list.splits)
  moreover have "count_further_bookmark_log_entries db i repo = Inr (length (filter (?Q i repo) es))" for i repo
    using cnt [of i repo] by (simp add: count_further_bookmark_log_entries_def CountFurtherBookmarkLogEntries_def)
  ultimately show ?thesis using assms(2) ids by (simp add: log_reads_def)
qed


lemma reachable_readable:
  assumes "bookmarks_reachable to_json db" and json: "\<forall>ts. \<exists>j. to_json ts = Some j \<and> from_json j = Some ts"
  shows "\<exists>es. log_readable from_json db es"
  using assms(1)
proof (induction rule: bookmarks_reachable.induct)
  case start
  have "log_readable from_json empty_bookmarks_db []" by (simp add: log_readable_def empty_bookmarks_db_def)
  then show ?case by blast
next
  case (committed db tx ho now)
  then obtain es where es: "log_readable from_json db es" by blast
  have total: "\<forall>ts. to_json ts \<noteq> None" using json by (metis option.distinct(1))
  note f = reachable_facts [OF committed.hyps(1) total]
  have keys: "bkeys_ok db" using f by simp
  have "\<forall>l \<in> set (t_update_log db). lr_id l \<in> set (map lr_id (t_update_log db))" by simp
  then have ids: "\<forall>l \<in> set (t_update_log db). lr_id l < next_log_id db" using f by (metis atLeastLessThan_iff set_upt)
  note r = commit_result [OF committed.hyps(2) keys total, of ho now]
  show ?case
  proof (cases "tx_guard tx (bview db)")
    case False
    then show ?thesis using r es by auto
  next
    case True
    then obtain d where d: "rows_moved (tx_repo_id tx) (tx_targets tx) db d"
      "commit to_json ho now tx db = (Inr True, logged to_json (tx_repo_id tx) now (ho (log_rows tx)) d)" using r by auto
    note same = rows_moved_same [OF d(1)]
    have "log_readable from_json d es" using es by (simp add: log_readable_def same replay_for_def)
    from log_readable_logged [OF json this, of "tx_repo_id tx" now "ho (log_rows tx)"] ids
    have "\<exists>es. log_readable from_json (logged to_json (tx_repo_id tx) now (ho (log_rows tx)) d) es" by (auto simp: same)
    then show ?thesis using d(2) by simp
  qed
qed

text \<open>C14: reading the log. In every state that commits lead to, the log reads as a list of entries with
  growing ids: \<open>read_next_bookmark_log_entry\<close> returns the first entry of the repository above the given id,
  \<open>count_further_bookmark_log_entries\<close> counts them, and neither fails. A commit appends exactly its
  moves, with the reasons and the replay data that the transaction was given.\<close>

theorem bookmark_log_roundtrip:
  assumes "bookmarks_reachable to_json db" "\<forall>ts. \<exists>j. to_json ts = Some j \<and> from_json j = Some ts"
    and "txn_ok tx" "\<forall>ms. mset (ho ms) = mset ms" "commit to_json ho now tx db = (Inr True, db')"
  shows "\<exists>es ms. mset ms = mset (tx_moves tx) \<and> log_reads from_json db es \<and>
     log_reads from_json db' (es @ map2 (entry_of_move (tx_repo_id tx) now) [next_log_id db ..< next_log_id db + length ms] ms)"
proof -
  have total: "\<forall>ts. to_json ts \<noteq> None" using assms(2) by (metis option.distinct(1))
  note f = reachable_facts [OF assms(1) total]
  have "bookmarks_reachable to_json db'" using committed [OF assms(1,3,4), of now] assms(5) by simp
  note f' = reachable_facts [OF this total]
  have sorted: "sorted_wrt (<) (map lr_id (t_update_log db))" "sorted_wrt (<) (map lr_id (t_update_log db'))"
    using f f' by (simp_all add: strict_sorted_iff)
  obtain es where es: "log_readable from_json db es" using reachable_readable [OF assms(1,2)] by blast
  have "\<forall>l \<in> set (t_update_log db). lr_id l \<in> set (map lr_id (t_update_log db))" by simp
  then have ids: "\<forall>l \<in> set (t_update_log db). lr_id l < next_log_id db" using f by (metis atLeastLessThan_iff set_upt)
  obtain d where d: "rows_moved (tx_repo_id tx) (tx_targets tx) db d"
    "db' = logged to_json (tx_repo_id tx) now (ho (log_rows tx)) d"
    using commit_result [OF assms(3) _ total, of db ho now] f assms(5) by (auto split: if_splits)
  note same = rows_moved_same [OF d(1)]
  have "log_readable from_json d es" using es by (simp add: log_readable_def same replay_for_def)
  from log_readable_logged [OF assms(2) this, of "tx_repo_id tx" now "ho (log_rows tx)"] ids
  have "log_readable from_json db' (es @ map2 (entry_of_move (tx_repo_id tx) now)
      [next_log_id db ..< next_log_id db + length (ho (log_rows tx))] (ho (log_rows tx)))" by (simp add: same d(2))
  moreover have "mset (ho (log_rows tx)) = mset (tx_moves tx)" using assms(4) log_rows_eq [OF assms(3)] by simp
  ultimately show ?thesis using log_readable_reads es sorted by blast
qed

lemma find_append: "find P (xs @ ys) = (case find P xs of None \<Rightarrow> find P ys | Some x \<Rightarrow> Some x)"
  by (induction xs) auto

text \<open>A conversion to strings and back, to run the theorem with.\<close>

instance Timestamp :: countable
  by countable_datatype

theorem bookmark_log_roundtrip_witness:
  "let to_json = (\<lambda>ts. Some (replicate (to_nat ts) CHR ''1'')); from_json = (\<lambda>s. Some (from_nat (length s)));
       reason = Push (Some \<lparr>bundle_handle = ''h'', commit_timestamps = [([1], Timestamp 3)]\<rparr>);
       tx = (create_transaction 0)\<lparr>creates := [(''new'', 5 :: nat, reason)]\<rparr>
   in \<exists>db'. commit to_json id (Timestamp 7) tx empty_bookmarks_db = (Inr True, db') \<and>
        read_next_bookmark_log_entry from_json db' 0 0 =
          Inr (Some \<lparr>le_id = 1, le_repo_id = 0, le_bookmark_name = ''new'', le_to_changeset_id = Some 5,
                     le_from_changeset_id = None, le_reason = reason, le_timestamp = Timestamp 7\<rparr>)"
proof -
  let ?to = "\<lambda>ts :: commit_timestamps. Some (replicate (to_nat ts) CHR ''1'')"
  let ?from = "\<lambda>s :: string. Some (from_nat (length s) :: commit_timestamps)"
  let ?r = "Push (Some \<lparr>bundle_handle = ''h'', commit_timestamps = [([1], Timestamp 3)]\<rparr>)"
  let ?tx = "(create_transaction 0)\<lparr>creates := [(''new'', 5 :: nat, ?r)]\<rparr>"
  have "fst (commit ?to id (Timestamp 7) ?tx empty_bookmarks_db) = Inr True"
    by (simp add: commit_def create_transaction_def empty_bookmarks_db_def commit_creates_def
        log_rows_def tx_moves_def hm_insert_def AddBookmarkLog_def log_bundle_replay_data_def)
  then obtain db' where c: "commit ?to id (Timestamp 7) ?tx empty_bookmarks_db = (Inr True, db')" by (metis prod.collapse)
  have ok: "txn_ok ?tx" by (simp add: txn_ok_def tx_keys_def create_transaction_def)
  have moves: "tx_moves ?tx = [(''new'', None, Some 5, ?r)]" by (simp add: tx_moves_def create_transaction_def)
  from bookmark_log_roundtrip [OF start _ ok _ c, of ?from] obtain es ms where
    r: "mset ms = {# (''new'', None, Some 5, ?r) #}" "log_reads ?from (empty_bookmarks_db :: nat bookmarks_db) es"
      "log_reads ?from db' (es @ map2 (entry_of_move (tx_repo_id ?tx) (Timestamp 7)) [1 ..< 1 + length ms] ms)"
    by (auto simp: moves empty_bookmarks_db_def)
  have "find (\<lambda>e. 0 < le_id e \<and> le_repo_id e = 0) es = None"
    using r(2) by (simp add: log_reads_def read_next_bookmark_log_entry_def ReadNextBookmarkLogEntry_def log_rows_after_def empty_bookmarks_db_def)
  moreover have "ms = [(''new'', None, Some 5, ?r)]" using r(1) by (metis mset_single_iff)
  ultimately have "read_next_bookmark_log_entry ?from db' 0 0 = Inr (Some (entry_of_move 0 (Timestamp 7) 1 (''new'', None, Some 5, ?r)))"
    using r(3) by (simp add: log_reads_def find_append create_transaction_def entry_of_move_def)
  with c show ?thesis by (simp add: Let_def entry_of_move_def)
qed

text \<open>C15: building a transaction. Each of the five operations refuses a bookmark that the transaction
  already uses and otherwise adds exactly its move, so that a transaction never uses a bookmark twice.\<close>

theorem transaction_builder:
  assumes "txn_ok tx"
    and "(r = tx_update tx key new old reason \<and> m = (key, Some old, Some new, reason)) \<or>
         (r = tx_create tx key new reason \<and> m = (key, None, Some new, reason)) \<or>
         (r = tx_force_set tx key new reason \<and> m = (key, None, Some new, reason)) \<or>
         (r = tx_delete tx key old reason \<and> m = (key, Some old, None, reason)) \<or>
         (r = tx_force_delete tx key reason \<and> m = (key, None, None, reason))"
  shows "if key \<in> set (tx_keys tx) then r = Inl (BookmarkAlreadyUsed key)
     else \<exists>tx'. r = Inr tx' \<and> txn_ok tx' \<and> mset (tx_moves tx') = add_mset m (mset (tx_moves tx)) \<and> tx_repo_id tx' = tx_repo_id tx"
proof -
  have used: "check_if_bookmark_already_used tx key = (if key \<in> set (tx_keys tx) then Inl (BookmarkAlreadyUsed key) else Inr ())"
    by (auto simp: check_if_bookmark_already_used_def tx_keys_def)
  show ?thesis
    using assms by (auto simp: tx_update_def tx_create_def tx_force_set_def tx_delete_def tx_force_delete_def used)
      (auto simp: txn_ok_def tx_keys_def tx_moves_def)
qed

theorem transaction_builder_witness:
  "\<exists>tx. tx_update (create_transaction 0) ''master'' (2 :: nat) 1 ManualMove = Inr tx \<and> txn_ok tx"
  using transaction_builder [of "create_transaction 0" "tx_update (create_transaction 0) ''master'' (2 :: nat) 1 ManualMove" "''master''" 2 1 ManualMove "(''master'', Some 1, Some 2, ManualMove)"]
  by (auto simp: txn_ok_def tx_keys_def create_transaction_def)


section \<open>Listing\<close>

lemma like_prefix:
  assumes "CHR ''%'' \<notin> set p" "CHR ''_'' \<notin> set p"
  shows "sql_like (=) (p @ ''%'') s \<longleftrightarrow> prefix p s"
  using assms by (induction p arbitrary: s) (auto split: list.splits)



end
