(* ===== verification/Commit_Graph.thy ===== *)
theory Commit_Graph
  imports Node_Streams Intersection
begin

text \<open>
  The commit graph that a changeset fetcher shows, and the stream of the ancestors of a changeset:
  \<open>src/revset/src/ancestors.rs\<close>, on \<open>src/common/uniqueheap/src/lib.rs\<close>.

  What the streams need of the graph is the locale \<open>commit_graph\<close>; the SQL store of changesets provides
  it.  The delays of the fetches are an argument \<open>io\<close> that may add \<open>Pending\<close> outcomes anywhere.
\<close>

section \<open>The graph\<close>

definition fetched_parents :: "'c ChangesetFetcher \<Rightarrow> 'c \<Rightarrow> 'c list" where
  "fetched_parents F c = (case get_parents F c of Inr ps \<Rightarrow> ps | Inl _ \<Rightarrow> [])"

definition parent_edges :: "'c ChangesetFetcher \<Rightarrow> ('c \<times> 'c) set" where
  "parent_edges F = {(c, p). p \<in> set (fetched_parents F c)}"

definition ancestors :: "'c ChangesetFetcher \<Rightarrow> 'c \<Rightarrow> 'c set" where
  "ancestors F c = {a. (c, a) \<in> (parent_edges F)\<^sup>*}"

locale commit_graph =
  fixes F :: "'c ChangesetFetcher" and K :: "'c set"
  assumes gen_known: "c \<in> K \<Longrightarrow> get_generation_number F c = Inr (fetched_gen F c)"
    and parents_known: "c \<in> K \<Longrightarrow> get_parents F c = Inr (fetched_parents F c)"
    and parents_closed: "c \<in> K \<Longrightarrow> p \<in> set (fetched_parents F c) \<Longrightarrow> p \<in> K"
    and gen_parent: "c \<in> K \<Longrightarrow> p \<in> set (fetched_parents F c) \<Longrightarrow> fetched_gen F p < fetched_gen F c"
    and gen_root: "c \<in> K \<Longrightarrow> fetched_parents F c = [] \<Longrightarrow> fetched_gen F c = 1"
    and gen_pos: "c \<in> K \<Longrightarrow> 1 \<le> fetched_gen F c"
begin

lemma ancestor_step: "c \<in> ancestors F c" "p \<in> set (fetched_parents F c) \<Longrightarrow> a \<in> ancestors F p \<Longrightarrow> a \<in> ancestors F c"
  by (auto simp: ancestors_def parent_edges_def intro: converse_rtrancl_into_rtrancl)

lemma ancestors_unfold: "ancestors F c = insert c (\<Union>p \<in> set (fetched_parents F c). ancestors F p)"
  by (auto simp: ancestors_def parent_edges_def elim: converse_rtranclE intro: converse_rtrancl_into_rtrancl)

lemma ancestor_facts:
  assumes "c \<in> K" "a \<in> ancestors F c"
  shows "a \<in> K" "a = c \<or> fetched_gen F a < fetched_gen F c"
proof -
  have "(c, a) \<in> (parent_edges F)\<^sup>*" using assms(2) by (simp add: ancestors_def)
  then have "a \<in> K \<and> (a = c \<or> fetched_gen F a < fetched_gen F c)"
  proof (induction rule: rtrancl_induct)
    case base
    then show ?case using assms(1) by simp
  next
    case (step b d)
    then have "d \<in> set (fetched_parents F b)" by (simp add: parent_edges_def)
    then show ?case using step.IH parents_closed [of b d] gen_parent [of b d] by auto
  qed
  then show "a \<in> K" "a = c \<or> fetched_gen F a < fetched_gen F c" by auto
qed

lemma ancestor_le: "c \<in> K \<Longrightarrow> a \<in> ancestors F c \<Longrightarrow> fetched_gen F a \<le> fetched_gen F c"
  using ancestor_facts(2) by fastforce

lemma ancestors_trans: "b \<in> ancestors F c \<Longrightarrow> a \<in> ancestors F b \<Longrightarrow> a \<in> ancestors F c"
  by (auto simp: ancestors_def)

lemma ancestors_antisym: "b \<in> K \<Longrightarrow> c \<in> K \<Longrightarrow> b \<in> ancestors F c \<Longrightarrow> c \<in> ancestors F b \<Longrightarrow> b = c"
  using ancestor_facts(2) [of c b] ancestor_facts(2) [of b c] by auto

end

text \<open>The store of changesets provides a commit graph.\<close>

definition known_in :: "'c changesets_db \<Rightarrow> int \<Rightarrow> 'c set" where
  "known_in db repo = {c. db_ok db \<and> view db repo c \<noteq> None}"

abbreviation sql_fetcher :: "'c changesets_db \<Rightarrow> int \<Rightarrow> 'c ChangesetFetcher" where
  "sql_fetcher db repo \<equiv> simple_fetcher (changesets_get db db) repo"

lemma sql_fetched:
  assumes "c \<in> known_in db repo"
  obtains ps g where "view db repo c = Some (ps, g)" "get_generation_number (sql_fetcher db repo) c = Inr g"
    "get_parents (sql_fetcher db repo) c = Inr ps" "fetched_gen (sql_fetcher db repo) c = g"
    "fetched_parents (sql_fetcher db repo) c = ps" "g = Suc (Max (insert 0 (store_gen (view db) repo ` set ps)))"
    "\<forall>p \<in> set ps. p \<in> known_in db repo"
proof -
  have ok: "db_ok db" using assms by (simp add: known_in_def)
  obtain ps g where v: "view db repo c = Some (ps, g)" using assms by (auto simp: known_in_def)
  have get: "changesets_get db db repo c = Some (entry_of repo c (ps, g))"
    using ok v by (simp add: changesets_get_def select_changeset_entry db_ok_def)
  have "store_ok (view db)" using ok by (simp add: db_ok_def)
  then have facts: "\<forall>p \<in> set ps. view db repo p \<noteq> None" "g = Suc (Max (insert 0 (store_gen (view db) repo ` set ps)))"
    using v unfolding store_ok_def by blast+
  show thesis
    by (rule that [of ps g])
      (use v get facts ok in \<open>simp_all add: simple_fetcher_def entry_of_def fetched_gen_def fetched_parents_def known_in_def\<close>)
qed

interpretation sqlg: commit_graph "sql_fetcher db repo" "known_in db repo" for db repo
proof
  fix c p
  assume c: "c \<in> known_in db repo"
  note f = sql_fetched [OF c]
  show "get_generation_number (sql_fetcher db repo) c = Inr (fetched_gen (sql_fetcher db repo) c)"
    "get_parents (sql_fetcher db repo) c = Inr (fetched_parents (sql_fetcher db repo) c)"
    "1 \<le> fetched_gen (sql_fetcher db repo) c"
    by (rule f, simp)+
  show "fetched_parents (sql_fetcher db repo) c = [] \<Longrightarrow> fetched_gen (sql_fetcher db repo) c = 1" by (rule f, simp)
  assume p: "p \<in> set (fetched_parents (sql_fetcher db repo) c)"
  show pk: "p \<in> known_in db repo" by (rule f) (use p in simp)
  show "fetched_gen (sql_fetcher db repo) p < fetched_gen (sql_fetcher db repo) c"
  proof (rule f)
    fix ps g
    assume v: "fetched_gen (sql_fetcher db repo) c = g" "fetched_parents (sql_fetcher db repo) c = ps"
      "g = Suc (Max (insert 0 (store_gen (view db) repo ` set ps)))"
    have "store_gen (view db) repo p = fetched_gen (sql_fetcher db repo) p"
      by (rule sql_fetched [OF pk]) (simp add: store_gen_def)
    moreover have "store_gen (view db) repo p \<le> Max (insert 0 (store_gen (view db) repo ` set ps))" using p v(2) by simp
    ultimately show ?thesis using v by simp
  qed
qed

section \<open>The heap of unique generations\<close>

record UniqueHeap =
  sorted_vals :: "nat list"
  unique_vals :: "nat set"

definition heap_new :: UniqueHeap where
  "heap_new = \<lparr>sorted_vals = [], unique_vals = {}\<rparr>"

definition heap_push :: "UniqueHeap \<Rightarrow> nat \<Rightarrow> UniqueHeap" where
  "heap_push h v =
     (if v \<notin> unique_vals h then h\<lparr>unique_vals := insert v (unique_vals h), sorted_vals := v # sorted_vals h\<rparr> else h)"

text \<open>\<open>BinaryHeap::pop\<close> removes a greatest element.\<close>

definition heap_pop :: "UniqueHeap \<Rightarrow> (nat \<times> UniqueHeap) option" where
  "heap_pop h =
     (case maximum (sorted_vals h) of
        Some v \<Rightarrow> Some (v, h\<lparr>sorted_vals := remove1 v (sorted_vals h), unique_vals := unique_vals h - {v}\<rparr>)
      | None \<Rightarrow> None)"

definition heap_peek :: "UniqueHeap \<Rightarrow> nat option" where
  "heap_peek h = maximum (sorted_vals h)"

definition heap_ok :: "UniqueHeap \<Rightarrow> bool" where
  "heap_ok h \<longleftrightarrow> distinct (sorted_vals h) \<and> unique_vals h = set (sorted_vals h)"

lemma heap_push_ok: "heap_ok h \<Longrightarrow> heap_ok (heap_push h v)" "heap_ok h \<Longrightarrow> unique_vals (heap_push h v) = insert v (unique_vals h)"
  by (auto simp: heap_ok_def heap_push_def)

lemma heap_peek_pop: "heap_peek h = map_option fst (heap_pop h)"
  by (simp add: heap_peek_def heap_pop_def split: option.split)

lemma heap_pop_ok:
  assumes "heap_ok h" "unique_vals h \<noteq> {}"
  obtains v h' where "heap_pop h = Some (v, h')" "heap_ok h'" "unique_vals h' = unique_vals h - {v}" "v \<in> unique_vals h"
    "\<forall>w \<in> unique_vals h. w \<le> v"
proof -
  obtain v where v: "maximum (sorted_vals h) = Some v"
    using assms by (cases "sorted_vals h") (auto simp: heap_ok_def maximum_def)
  show thesis
    by (rule that [of v "h\<lparr>sorted_vals := remove1 v (sorted_vals h), unique_vals := unique_vals h - {v}\<rparr>"])
      (use assms v maximum_heads [OF v] in \<open>auto simp: heap_pop_def heap_ok_def set_remove1_eq\<close>)
qed


section \<open>The stream of ancestors\<close>

definition make_pending ::
    "'c ChangesetFetcher \<Rightarrow> (('c \<times> nat, 'c revset_error) input \<Rightarrow> ('c \<times> nat, 'c revset_error) input) \<Rightarrow> 'c list
      \<Rightarrow> ('c \<times> nat, 'c revset_error) input" where
  "make_pending changeset_fetcher io hashes =
     io (concat (map (\<lambda>hash.
       case get_parents changeset_fetcher hash of
         Inl e \<Rightarrow> [Fail (ParentsFetchFailed e)]
       | Inr parents \<Rightarrow>
           map (\<lambda>node_cs. case get_generation_number changeset_fetcher node_cs of
                    Inr gen_id \<Rightarrow> Item (node_cs, gen_id)
                  | Inl e \<Rightarrow> Fail (GenerationFetchFailed e)) parents) hashes))"

record 'c AncestorsNodeStream =
  a_next_generation :: "(nat, 'c set) btree_map"
  a_pending_changesets :: "('c \<times> nat, 'c revset_error) input"
  a_drain :: "'c list"
  a_sorted_unique_generations :: UniqueHeap

definition ancestors_new ::
    "'c ChangesetFetcher \<Rightarrow> (('c \<times> nat, 'c revset_error) input \<Rightarrow> ('c \<times> nat, 'c revset_error) input) \<Rightarrow> 'c
      \<Rightarrow> 'c AncestorsNodeStream" where
  "ancestors_new changeset_fetcher io hash =
     \<lparr>a_next_generation = [], a_pending_changesets = make_pending changeset_fetcher io [hash], a_drain = [hash],
      a_sorted_unique_generations = heap_new\<rparr>"

text \<open>\<open>entry(gen).or_insert_with(HashSet::new).insert(hash)\<close>.\<close>

definition generation_insert :: "nat \<Rightarrow> 'c \<Rightarrow> (nat, 'c set) btree_map \<Rightarrow> (nat, 'c set) btree_map" where
  "generation_insert g c m = btm_insert g (insert c (case map_of m g of Some S \<Rightarrow> S | None \<Rightarrow> {})) m"

text \<open>One round of the loop of \<open>poll\<close>. A panic of \<open>expect\<close> is the error \<open>AssertionFailed\<close>.\<close>

definition ancestors_iter ::
    "'c ChangesetFetcher \<Rightarrow> (('c \<times> nat, 'c revset_error) input \<Rightarrow> ('c \<times> nat, 'c revset_error) input) \<Rightarrow> ('c set \<Rightarrow> 'c list)
      \<Rightarrow> 'c AncestorsNodeStream \<Rightarrow> ('c, 'c revset_error) poll option \<times> 'c AncestorsNodeStream" where
  "ancestors_iter changeset_fetcher io ho s =
     (case a_drain s of
        x # d \<Rightarrow> (Some (Ready (Some x)), s\<lparr>a_drain := d\<rparr>)
      | [] \<Rightarrow>
          (case poll_input (a_pending_changesets s) of
             (Failed e, p) \<Rightarrow> (Some (Failed e), s\<lparr>a_pending_changesets := p\<rparr>)
           | (NotReady, p) \<Rightarrow> (Some NotReady, s\<lparr>a_pending_changesets := p\<rparr>)
           | (Ready (Some (hash, generation)), p) \<Rightarrow>
               (None, s\<lparr>a_pending_changesets := p,
                        a_next_generation := generation_insert generation hash (a_next_generation s),
                        a_sorted_unique_generations := heap_push (a_sorted_unique_generations s) generation\<rparr>)
           | (Ready None, p) \<Rightarrow>
               if a_next_generation s = [] then (Some (Ready None), s\<lparr>a_pending_changesets := p\<rparr>)
               else case heap_pop (a_sorted_unique_generations s) of
                 None \<Rightarrow> (Some (Failed (AssertionFailed ''Expected a non empty heap of generations'')), s)
               | Some (highest_generation, heap) \<Rightarrow>
                   (case map_of (a_next_generation s) highest_generation of
                      None \<Rightarrow> (Some (Failed (AssertionFailed ''Highest generation doesn't exist'')), s)
                    | Some current_generation \<Rightarrow>
                        (case ho current_generation of
                           [] \<Rightarrow> (Some (Failed (AssertionFailed ''Cannot create a generation without at least one node hash'')), s)
                         | x # d \<Rightarrow>
                             (Some (Ready (Some x)),
                              s\<lparr>a_sorted_unique_generations := heap,
                                a_next_generation := btm_remove highest_generation (a_next_generation s),
                                a_pending_changesets := make_pending changeset_fetcher io (ho current_generation),
                                a_drain := d\<rparr>)))))"

section \<open>Ancestors are correct\<close>

definition only_delays :: "(('a, 'e) input \<Rightarrow> ('a, 'e) input) \<Rightarrow> bool" where
  "only_delays io \<longleftrightarrow> (\<forall>s. filter (\<lambda>ev. ev \<noteq> Pending) (io s) = filter (\<lambda>ev. ev \<noteq> Pending) s)"

lemma items_filter: "items (filter (\<lambda>ev. ev \<noteq> Pending) s) = items s"
  by (induction s) (auto simp: items_def List.map_filter_simps split: option.splits elim!: event_item.elims)

lemma only_delays:
  assumes "only_delays io"
  shows "items (io s) = items s" "Fail e \<in> set (io s) \<longleftrightarrow> Fail e \<in> set s"
proof -
  have eq: "filter (\<lambda>ev. ev \<noteq> Pending) (io s) = filter (\<lambda>ev. ev \<noteq> Pending) s" using assms by (simp add: only_delays_def)
  show "items (io s) = items s" using arg_cong [OF eq, of items] by (simp add: items_filter)
  have "Fail e \<in> set (filter (\<lambda>ev. ev \<noteq> Pending) t) \<longleftrightarrow> Fail e \<in> set t" for t :: "('a, 'b) input" by simp
  then show "Fail e \<in> set (io s) \<longleftrightarrow> Fail e \<in> set s" using eq by metis
qed

definition nodes_of :: "(nat, 'c set) btree_map \<Rightarrow> 'c set" where
  "nodes_of m = {c. \<exists>g S. map_of m g = Some S \<and> c \<in> S}"

definition a_todo :: "'c AncestorsNodeStream \<Rightarrow> 'c set" where
  "a_todo s = fst ` set (items (a_pending_changesets s)) \<union> nodes_of (a_next_generation s)"

definition generations_ok :: "('c \<Rightarrow> nat) \<Rightarrow> (nat, 'c set) btree_map \<Rightarrow> bool" where
  "generations_ok G m \<longleftrightarrow> btm_ok m \<and> (\<forall>g S. map_of m g = Some S \<longrightarrow> S \<noteq> {} \<and> finite S \<and> (\<forall>c \<in> S. G c = g))"

definition ancestors_inv :: "'c ChangesetFetcher \<Rightarrow> 'c set \<Rightarrow> 'c AncestorsNodeStream \<Rightarrow> bool" where
  "ancestors_inv F K s \<longleftrightarrow> (\<forall>e. Fail e \<notin> set (a_pending_changesets s)) \<and>
     (\<forall>x \<in> set (items (a_pending_changesets s)). snd x = fetched_gen F (fst x)) \<and>
     a_todo s \<subseteq> K \<and> generations_ok (fetched_gen F) (a_next_generation s) \<and>
     heap_ok (a_sorted_unique_generations s) \<and>
     unique_vals (a_sorted_unique_generations s) = dom (map_of (a_next_generation s)) \<and>
     distinct (a_drain s) \<and> same_gen (fetched_gen F) (set (a_drain s)) \<and> below (fetched_gen F) (a_todo s) (set (a_drain s))"

definition ancestors_spec :: "'c ChangesetFetcher \<Rightarrow> 'c AncestorsNodeStream \<Rightarrow> 'c list \<Rightarrow> bool" where
  "ancestors_spec F s xs \<longleftrightarrow> distinct xs \<and> sorted_wrt (\<lambda>a b. fetched_gen F b \<le> fetched_gen F a) xs \<and>
     set xs = set (a_drain s) \<union> (\<Union>c \<in> a_todo s. ancestors F c)"

text \<open>The highest generation to come, then what is left to fetch, then what is left to drain.\<close>

definition a_level :: "'c ChangesetFetcher \<Rightarrow> 'c AncestorsNodeStream \<Rightarrow> nat" where
  "a_level F s = Max (insert 0 (Suc ` fetched_gen F ` a_todo s))"

definition ancestors_rel :: "'c ChangesetFetcher \<Rightarrow> ('c AncestorsNodeStream \<times> 'c AncestorsNodeStream) set" where
  "ancestors_rel F = inv_image (less_than <*lex*> less_than <*lex*> less_than)
     (\<lambda>s. (a_level F s, length (a_pending_changesets s), length (a_drain s)))"

lemma generation_insert_ok:
  assumes "generations_ok G m" "G c = g"
  shows "generations_ok G (generation_insert g c m)" "nodes_of (generation_insert g c m) = insert c (nodes_of m)"
    "dom (map_of (generation_insert g c m)) = insert g (dom (map_of m))"
proof -
  let ?S = "insert c (case map_of m g of Some S \<Rightarrow> S | None \<Rightarrow> {})"
  have ok: "btm_ok m" "\<And>g S. map_of m g = Some S \<Longrightarrow> S \<noteq> {} \<and> finite S \<and> (\<forall>c \<in> S. G c = g)"
    using assms(1) by (simp_all add: generations_ok_def)
  have new: "map_of (generation_insert g c m) = (map_of m)(g \<mapsto> ?S)" "btm_ok (generation_insert g c m)"
    using ok(1) by (simp_all add: generation_insert_def btree_simps)
  have S: "?S \<noteq> {} \<and> finite ?S \<and> (\<forall>c \<in> ?S. G c = g)"
    using assms(2) ok(2) [of g] by (auto split: option.splits)
  show "generations_ok G (generation_insert g c m)"
    unfolding generations_ok_def new(1) using new(2) S ok(2) by (simp split: if_splits)
  show "dom (map_of (generation_insert g c m)) = insert g (dom (map_of m))" unfolding new(1) by simp
  have upd: "(\<exists>h S. ((map_of m)(g \<mapsto> T)) h = Some S \<and> d \<in> S) \<longleftrightarrow> d \<in> T \<or> (\<exists>h S. h \<noteq> g \<and> map_of m h = Some S \<and> d \<in> S)" for T d
    by (auto split: if_splits)
  have "(\<exists>h S. map_of m h = Some S \<and> d \<in> S) \<longleftrightarrow> (\<exists>S. map_of m g = Some S \<and> d \<in> S) \<or> (\<exists>h S. h \<noteq> g \<and> map_of m h = Some S \<and> d \<in> S)" for d
    by metis
  then show "nodes_of (generation_insert g c m) = insert c (nodes_of m)"
    unfolding nodes_of_def new(1) upd by (cases "map_of m g") auto
qed

lemma generation_remove_ok:
  assumes "generations_ok G m" "map_of m g = Some S"
  shows "generations_ok G (btm_remove g m)" "dom (map_of (btm_remove g m)) = dom (map_of m) - {g}"
    "nodes_of m = S \<union> nodes_of (btm_remove g m)" "c \<in> nodes_of (btm_remove g m) \<Longrightarrow> G c \<in> dom (map_of m) - {g}"
proof -
  have ok: "btm_ok m" "\<And>g S. map_of m g = Some S \<Longrightarrow> S \<noteq> {} \<and> finite S \<and> (\<forall>c \<in> S. G c = g)"
    using assms(1) by (simp_all add: generations_ok_def)
  have new: "map_of (btm_remove g m) = (map_of m)(g := None)" "btm_ok (btm_remove g m)"
    using ok(1) by (simp_all add: btree_simps)
  show "generations_ok G (btm_remove g m)" unfolding generations_ok_def new(1) using new(2) ok(2) by (simp split: if_splits)
  show "dom (map_of (btm_remove g m)) = dom (map_of m) - {g}" unfolding new(1) by auto
  have del: "(\<exists>h T. ((map_of m)(g := None)) h = Some T \<and> d \<in> T) \<longleftrightarrow> (\<exists>h T. h \<noteq> g \<and> map_of m h = Some T \<and> d \<in> T)" for d
    by (auto split: if_splits)
  have "(\<exists>h T. map_of m h = Some T \<and> d \<in> T) \<longleftrightarrow> d \<in> S \<or> (\<exists>h T. h \<noteq> g \<and> map_of m h = Some T \<and> d \<in> T)" for d
    using assms(2) by (metis option.inject)
  then show "nodes_of m = S \<union> nodes_of (btm_remove g m)" unfolding nodes_of_def new(1) del by blast
  show "c \<in> nodes_of (btm_remove g m) \<Longrightarrow> G c \<in> dom (map_of m) - {g}" unfolding nodes_of_def new(1) del using ok(2) by auto
qed

lemma nodes_gen: "generations_ok G m \<Longrightarrow> c \<in> nodes_of m \<Longrightarrow> G c \<in> dom (map_of m)"
  by (auto simp: generations_ok_def nodes_of_def)

lemma nodes_empty: "generations_ok G m \<Longrightarrow> nodes_of m = {} \<longleftrightarrow> m = []"
proof
  assume ok: "generations_ok G m" and none: "nodes_of m = {}"
  show "m = []"
  proof (rule ccontr)
    assume "m \<noteq> []"
    then have "map_of m (fst (hd m)) \<noteq> None" by (cases m) auto
    then obtain S where "map_of m (fst (hd m)) = Some S" by blast
    then show False using ok none by (fastforce simp: generations_ok_def nodes_of_def)
  qed
qed (simp add: nodes_of_def)

lemma finite_nodes: "generations_ok G m \<Longrightarrow> finite (nodes_of m)"
proof -
  assume ok: "generations_ok G m"
  have "nodes_of m = (\<Union>g \<in> dom (map_of m). the (map_of m g))" by (force simp: nodes_of_def dom_def)
  moreover have "finite (the (map_of m g))" if "g \<in> dom (map_of m)" for g using that ok by (auto simp: generations_ok_def)
  ultimately show ?thesis using finite_dom_map_of [of m] by simp
qed


lemma items_map_Item: "items (map (\<lambda>x. Item (f x)) xs) = map f xs"
  by (induction xs) simp_all

context commit_graph
begin

lemma make_pending_ok:
  assumes "only_delays io" "set hashes \<subseteq> K"
  shows "items (make_pending F io hashes) = map (\<lambda>p. (p, fetched_gen F p)) (concat (map (fetched_parents F) hashes))"
    and "Fail e \<notin> set (make_pending F io hashes)"
proof -
  let ?ev = "\<lambda>hash. case get_parents F hash of Inl e \<Rightarrow> [Fail (ParentsFetchFailed e)]
       | Inr parents \<Rightarrow> map (\<lambda>node_cs. case get_generation_number F node_cs of
            Inr gen_id \<Rightarrow> Item (node_cs, gen_id) | Inl e \<Rightarrow> Fail (GenerationFetchFailed e)) parents"
  have ev: "?ev h = map (\<lambda>p. Item (p, fetched_gen F p)) (fetched_parents F h)" if "h \<in> K" for h
    using parents_known [OF that] parents_closed [OF that] gen_known by simp
  have evs: "concat (map ?ev hashes) = map (\<lambda>p. Item (p, fetched_gen F p)) (concat (map (fetched_parents F) hashes))"
    using assms(2) ev by (induction hashes) auto
  show "items (make_pending F io hashes) = map (\<lambda>p. (p, fetched_gen F p)) (concat (map (fetched_parents F) hashes))"
    unfolding make_pending_def only_delays(1) [OF assms(1)] evs by (rule items_map_Item)
  show "Fail e \<notin> set (make_pending F io hashes)"
    unfolding make_pending_def only_delays(2) [OF assms(1)] evs by auto
qed

lemma ancestors_emit:
  assumes "ancestors_inv F K s" "a_drain s = x # d"
  shows "stream_step_ok (ancestors_inv F K) (ancestors_rel F) (ancestors_spec F) s (Some (Ready (Some x))) (s\<lparr>a_drain := d\<rparr>)"
proof -
  let ?t = "s\<lparr>a_drain := d\<rparr>" and ?G = "fetched_gen F"
  have todo: "a_todo ?t = a_todo s" by (simp add: a_todo_def)
  have inv: "distinct (x # d)" "same_gen ?G (insert x (set d))" "below ?G (a_todo s) (insert x (set d))" "a_todo s \<subseteq> K"
    using assms by (simp_all add: ancestors_inv_def)
  have "same_gen ?G (set d)" using inv(2) by (rule same_gen_mono) blast
  moreover have "below ?G (a_todo s) (set d)" using inv(3) by (rule below_mono) blast+
  ultimately have "ancestors_inv F K ?t" using assms by (simp add: ancestors_inv_def todo)
  moreover have "(?t, s) \<in> ancestors_rel F" using assms(2) by (simp add: ancestors_rel_def a_level_def todo)
  moreover have "ancestors_spec F s (x # xs)" if "ancestors_spec F ?t xs" for xs
  proof -
    have xs: "distinct xs" "sorted_wrt (\<lambda>a b. ?G b \<le> ?G a) xs" "set xs = set d \<union> (\<Union>c \<in> a_todo s. ancestors F c)"
      using that by (simp_all add: ancestors_spec_def todo)
    have later: "?G y < ?G x" if "y \<in> ancestors F c" "c \<in> a_todo s" for y c
    proof -
      have "?G y \<le> ?G c" using ancestor_le that inv(4) by blast
      also have "?G c < ?G x" using inv(3) that(2) by (simp add: below_def)
      finally show ?thesis .
    qed
    have "?G y \<le> ?G x" if y: "y \<in> set xs" for y
    proof (cases "y \<in> set d")
      case True
      then show ?thesis using inv(2) [unfolded same_gen_def, rule_format, of y x] by simp
    next
      case False
      then show ?thesis using y xs(3) later by fastforce
    qed
    moreover have "x \<notin> set xs" using inv(1) xs(3) later by fastforce
    ultimately show ?thesis using xs assms(2) by (simp add: ancestors_spec_def)
  qed
  ultimately show ?thesis by simp
qed

lemma ancestors_fetch:
  assumes "ancestors_inv F K s" "a_drain s = []" "a_pending_changesets s = Item (c, g) # p"
  defines "t \<equiv> s\<lparr>a_pending_changesets := p, a_next_generation := generation_insert g c (a_next_generation s),
                   a_sorted_unique_generations := heap_push (a_sorted_unique_generations s) g\<rparr>"
  shows "stream_step_ok (ancestors_inv F K) (ancestors_rel F) (ancestors_spec F) s None t"
proof -
  have g: "fetched_gen F c = g" and ok: "generations_ok (fetched_gen F) (a_next_generation s)"
    and heap: "heap_ok (a_sorted_unique_generations s)" "unique_vals (a_sorted_unique_generations s) = dom (map_of (a_next_generation s))"
    using assms(1,3) by (auto simp: ancestors_inv_def)
  note ins = generation_insert_ok [OF ok g]
  have todo: "a_todo t = a_todo s" using assms(3) by (auto simp: a_todo_def t_def ins(2))
  have "ancestors_inv F K t"
    using assms(1-3) heap_push_ok [OF heap(1), of g] heap(2) ins todo
    by (simp add: ancestors_inv_def) (simp add: t_def)
  moreover have "(t, s) \<in> ancestors_rel F" using assms(3) todo by (simp add: ancestors_rel_def a_level_def) (simp add: t_def)
  moreover have "ancestors_spec F t xs \<longleftrightarrow> ancestors_spec F s xs" for xs
    using todo by (simp add: ancestors_spec_def) (simp add: t_def)
  ultimately show ?thesis by simp
qed

lemma ancestors_pop:
  assumes inv: "ancestors_inv F K s" and delays: "only_delays io" and hash: "hash_order ho"
    and s: "a_drain s = []" "a_pending_changesets s = []" "a_next_generation s \<noteq> []"
  shows "stream_step_ok (ancestors_inv F K) (ancestors_rel F) (ancestors_spec F) s
     (fst (ancestors_iter F io ho s)) (snd (ancestors_iter F io ho s))"
proof -
  let ?G = "fetched_gen F" and ?m = "a_next_generation s"
  have ok: "generations_ok ?G ?m" and heap: "heap_ok (a_sorted_unique_generations s)"
    "unique_vals (a_sorted_unique_generations s) = dom (map_of ?m)" and known: "a_todo s \<subseteq> K"
    using inv by (simp_all add: ancestors_inv_def)
  have "map_of ?m (fst (hd ?m)) \<noteq> None" using s(3) by (cases ?m) auto
  then have "unique_vals (a_sorted_unique_generations s) \<noteq> {}" unfolding heap(2) by blast
  from heap_pop_ok [OF heap(1) this] obtain v h where v: "heap_pop (a_sorted_unique_generations s) = Some (v, h)" "heap_ok h"
    "unique_vals h = dom (map_of ?m) - {v}" "v \<in> dom (map_of ?m)" "\<forall>w \<in> dom (map_of ?m). w \<le> v" unfolding heap(2) by metis
  then obtain S where S: "map_of ?m v = Some S" by blast
  have Sok: "S \<noteq> {}" "finite S" "\<forall>c \<in> S. ?G c = v" using ok S by (auto simp: generations_ok_def)
  have ho: "set (ho S) = S" "distinct (ho S)" using hash Sok(2) by (auto simp: hash_order_def)
  then obtain x d where xd: "ho S = x # d" using Sok(1) by (cases "ho S") auto
  note rem = generation_remove_ok [OF ok S]
  let ?N = "nodes_of (btm_remove v ?m)"
  let ?t = "s\<lparr>a_sorted_unique_generations := h, a_next_generation := btm_remove v ?m,
       a_pending_changesets := make_pending F io (ho S), a_drain := d\<rparr>"
  have iter: "ancestors_iter F io ho s = (Some (Ready (Some x)), ?t)" using s v(1) S xd by (simp add: ancestors_iter_def)
  have todo: "a_todo s = S \<union> ?N" using s(2) rem(3) by (simp add: a_todo_def)
  have SK: "set (ho S) \<subseteq> K" using known todo ho(1) by blast
  note pend = make_pending_ok [OF delays SK]
  have todo': "a_todo ?t = (\<Union>c \<in> S. set (fetched_parents F c)) \<union> ?N" by (simp add: a_todo_def pend(1) ho(1) image_image)
  have low: "?G c < v" if c: "c \<in> a_todo ?t" for c
  proof -
    have "(\<exists>h \<in> S. c \<in> set (fetched_parents F h)) \<or> c \<in> ?N" using c unfolding todo' by blast
    then show ?thesis
    proof (elim disjE bexE)
      fix h assume h: "h \<in> S" "c \<in> set (fetched_parents F h)"
      then have "h \<in> K" "?G h = v" using SK ho(1) Sok(3) by blast+
      then show ?thesis using gen_parent [of h c] h(2) by simp
    next
      assume "c \<in> ?N"
      then have "?G c \<in> dom (map_of ?m) - {v}" by (rule rem(4))
      then show ?thesis using bspec [OF v(5), of "?G c"] by simp
    qed
  qed
  have S_eq: "insert x (set d) = S" using ho(1) xd by simp
  have "a_todo ?t \<subseteq> K" unfolding todo' using parents_closed SK ho(1) known todo by blast
  moreover have "same_gen ?G (set d)" using Sok(3) S_eq by (auto simp: same_gen_def)
  moreover have "below ?G (a_todo ?t) (set d)" using low Sok(3) S_eq by (auto simp: below_def)
  moreover have "\<forall>x \<in> set (items (make_pending F io (ho S))). snd x = ?G (fst x)" unfolding pend(1) by auto
  moreover have "distinct d" using ho(2) xd by simp
  ultimately have inv': "ancestors_inv F K ?t"
    using pend(2) rem(1,2) v(2,3) by (simp add: ancestors_inv_def)
  have fin: "finite (a_todo s)" "finite (a_todo ?t)"
    using finite_nodes [OF ok] finite_nodes [OF rem(1)] s(2) by (simp_all add: a_todo_def)
  have "a_level F ?t \<le> v" using low fin(2) by (auto simp: a_level_def Suc_le_eq)
  moreover have "Suc v \<le> a_level F s"
  proof -
    obtain c where "c \<in> S" using Sok(1) by blast
    then have "Suc v \<in> insert 0 (Suc ` ?G ` a_todo s)" using Sok(3) todo by force
    then show ?thesis unfolding a_level_def using fin(1) by (intro Max_ge) auto
  qed
  ultimately have rel: "(?t, s) \<in> ancestors_rel F" by (simp add: ancestors_rel_def)
  have "ancestors_spec F s (x # xs)" if "ancestors_spec F ?t xs" for xs
  proof -
    have xs: "distinct xs" "sorted_wrt (\<lambda>a b. ?G b \<le> ?G a) xs" "set xs = set d \<union> (\<Union>c \<in> a_todo ?t. ancestors F c)"
      using that by (simp_all add: ancestors_spec_def)
    have later: "?G y < v" if "y \<in> ancestors F c" "c \<in> a_todo ?t" for y c
      using ancestor_le [of c y] that low [OF that(2)] \<open>a_todo ?t \<subseteq> K\<close> by force
    have gx: "?G x = v" "\<forall>y \<in> set d. ?G y = v" using Sok(3) S_eq by auto
    have "x \<notin> set xs" using ho(2) xd xs(3) later gx by fastforce
    moreover have "\<forall>y \<in> set xs. ?G y \<le> ?G x" using xs(3) later gx by (fastforce simp: less_imp_le)
    moreover have "insert x (set xs) = (\<Union>c \<in> a_todo s. ancestors F c)"
    proof -
      have "(\<Union>c \<in> S. ancestors F c) = S \<union> (\<Union>c \<in> S. \<Union>p \<in> set (fetched_parents F c). ancestors F p)"
        by (subst ancestors_unfold) blast
      then have S': "(\<Union>c \<in> S. ancestors F c) = S \<union> (\<Union>a \<in> (\<Union>c \<in> S. set (fetched_parents F c)). ancestors F a)"
        by (simp only: UN_UN_flatten)
      have "insert x (set xs) = insert x (set d) \<union> (\<Union>c \<in> a_todo ?t. ancestors F c)" unfolding xs(3) by (simp only: Un_insert_left)
      also have "\<dots> = (\<Union>c \<in> a_todo s. ancestors F c)" unfolding todo todo' S_eq UN_Un S' by (simp only: Un_assoc)
      finally show ?thesis .
    qed
    ultimately show ?thesis using xs s(1) by (simp add: ancestors_spec_def)
  qed
  then show ?thesis using iter inv' rel by simp
qed

lemma ancestors_step:
  assumes "ancestors_inv F K s" "only_delays io" "hash_order ho"
  shows "stream_step_ok (ancestors_inv F K) (ancestors_rel F) (ancestors_spec F) s
     (fst (ancestors_iter F io ho s)) (snd (ancestors_iter F io ho s))"
proof (cases "a_drain s")
  case (Cons x d)
  then show ?thesis using ancestors_emit [OF assms(1) Cons] by (simp add: ancestors_iter_def)
next
  case drain: Nil
  show ?thesis
  proof (cases "a_pending_changesets s")
    case Nil
    show ?thesis
    proof (cases "a_next_generation s = []")
      case True
      then show ?thesis using drain Nil by (simp add: ancestors_iter_def ancestors_spec_def a_todo_def nodes_of_def)
    qed (rule ancestors_pop [OF assms drain Nil])
  next
    case (Cons ev p)
    show ?thesis
    proof (cases ev)
      case Pending
      then have "a_todo (s\<lparr>a_pending_changesets := p\<rparr>) = a_todo s" using Cons by (simp add: a_todo_def)
      then show ?thesis
        using drain Cons Pending assms(1)
        by (simp add: ancestors_iter_def ancestors_inv_def ancestors_rel_def a_level_def ancestors_spec_def)
    next
      case (Item x)
      then show ?thesis
        using ancestors_fetch [OF assms(1) drain, of "fst x" "snd x" p] drain Cons by (simp add: ancestors_iter_def case_prod_unfold)
    next
      case (Fail e)
      then show ?thesis using assms(1) Cons by (force simp: ancestors_inv_def)
    qed
  qed
qed

lemma ancestors_new_inv:
  assumes "c \<in> K" "only_delays io"
  shows "ancestors_inv F K (ancestors_new F io c)"
    and "set (a_drain (ancestors_new F io c)) \<union> (\<Union>a \<in> a_todo (ancestors_new F io c). ancestors F a) = ancestors F c"
proof -
  have ck: "set [c] \<subseteq> K" using assms(1) by simp
  note pend = make_pending_ok [OF assms(2) ck]
  have todo: "a_todo (ancestors_new F io c) = set (fetched_parents F c)"
    using pend(1) by (simp add: a_todo_def ancestors_new_def nodes_of_def image_image)
  show "ancestors_inv F K (ancestors_new F io c)"
    using pend todo parents_closed [OF assms(1)] gen_parent [OF assms(1)] unfolding ancestors_inv_def
    by (auto simp: ancestors_new_def generations_ok_def heap_ok_def heap_new_def same_gen_def below_def)
  show "set (a_drain (ancestors_new F io c)) \<union> (\<Union>a \<in> a_todo (ancestors_new F io c). ancestors F a) = ancestors F c"
    unfolding todo by (subst (2) ancestors_unfold) (simp add: ancestors_new_def)
qed

end

interpretation ans: stream_iteration "ancestors_iter F io ho"
    "\<lambda>s. commit_graph F K \<and> only_delays io \<and> hash_order ho \<and> ancestors_inv F K s" "ancestors_rel F" "ancestors_spec F" for F K io ho
proof
  show "wf (ancestors_rel F)" unfolding ancestors_rel_def by (intro wf_inv_image wf_lex_prod wf_less_than)
  fix s :: "'a AncestorsNodeStream"
  assume inv: "commit_graph F K \<and> only_delays io \<and> hash_order ho \<and> ancestors_inv F K s"
  then have "stream_step_ok (ancestors_inv F K) (ancestors_rel F) (ancestors_spec F) s
     (fst (ancestors_iter F io ho s)) (snd (ancestors_iter F io ho s))" using commit_graph.ancestors_step by blast
  with inv show "stream_step_ok (\<lambda>s. commit_graph F K \<and> only_delays io \<and> hash_order ho \<and> ancestors_inv F K s) (ancestors_rel F)
     (ancestors_spec F) s (fst (ancestors_iter F io ho s)) (snd (ancestors_iter F io ho s))"
    by (auto intro: stream_step_ok_weaken)
qed

lemma ancestors_finish:
  assumes "commit_graph F K" "c \<in> K" "only_delays io" "hash_order ho"
  shows "\<exists>N xs. (\<forall>n \<ge> N. drive n (ancestors_iter F io ho) (ancestors_new F io c) = Some (Inr xs)) \<and>
     distinct xs \<and> sorted_wrt (\<lambda>a b. fetched_gen F b \<le> fetched_gen F a) xs \<and> set xs = ancestors F c"
proof -
  note new = commit_graph.ancestors_new_inv [OF assms(1-3)]
  have "commit_graph F K \<and> only_delays io \<and> hash_order ho \<and> ancestors_inv F K (ancestors_new F io c)" using assms new(1) by blast
  from ans.drive_finishes [OF this] show ?thesis using new(2) unfolding ancestors_spec_def by auto
qed


section \<open>Common ancestors\<close>

text \<open>What a stream that is the input of another stream answers to the polls of that stream.\<close>

fun outcomes :: "nat \<Rightarrow> ('s \<Rightarrow> ('a, 'e) poll option \<times> 's) \<Rightarrow> 's \<Rightarrow> ('a, 'e) input" where
  "outcomes 0 it s = []"
| "outcomes (Suc n) it s =
     (case it s of
        (None, s') \<Rightarrow> outcomes n it s'
      | (Some NotReady, s') \<Rightarrow> Pending # outcomes n it s'
      | (Some (Ready None), s') \<Rightarrow> []
      | (Some (Ready (Some x)), s') \<Rightarrow> Item x # outcomes n it s'
      | (Some (Failed e), s') \<Rightarrow> [Fail e])"

lemma drive_Suc_item:
  assumes "drive (Suc n) it s = Some (Inr xs)" "it s = (Some (Ready (Some x)), t)"
  obtains ys where "drive n it t = Some (Inr ys)" "xs = x # ys"
  using assms by (auto simp: result_simps)

lemma outcomes_drive:
  "drive n it s = Some (Inr xs) \<Longrightarrow> items (outcomes n it s) = xs \<and> (\<forall>e. Fail e \<notin> set (outcomes n it s))"
proof (induction n arbitrary: s xs)
  case (Suc n)
  obtain r t where it: "it s = (r, t)" by (cases "it s")
  show ?case
  proof (cases "\<exists>x. r = Some (Ready (Some x))")
    case True
    then obtain x where x: "it s = (Some (Ready (Some x)), t)" using it by blast
    obtain ys where "drive n it t = Some (Inr ys)" "xs = x # ys" using drive_Suc_item [OF Suc.prems x] .
    then show ?thesis using Suc.IH [of t ys] x by simp
  next
    case False
    then show ?thesis using Suc it by (cases r; cases "the r") (auto split: option.splits)
  qed
qed simp

lemma outcomes_stable: "drive n it s = Some (Inr xs) \<Longrightarrow> n \<le> m \<Longrightarrow> outcomes m it s = outcomes n it s"
proof (induction n arbitrary: s xs m)
  case (Suc n)
  obtain r t where it: "it s = (r, t)" by (cases "it s")
  obtain k where k: "m = Suc k" "n \<le> k" using Suc.prems(2) by (cases m) auto
  show ?case
  proof (cases "\<exists>x. r = Some (Ready (Some x))")
    case True
    then obtain x where x: "it s = (Some (Ready (Some x)), t)" using it by blast
    obtain ys where "drive n it t = Some (Inr ys)" "xs = x # ys" using drive_Suc_item [OF Suc.prems(1) x] .
    then show ?thesis using Suc.IH [of t ys k] x k by simp
  next
    case False
    then show ?thesis using Suc.IH [of t xs k] Suc.prems(1) it k by (cases r; cases "the r") (auto split: option.splits)
  qed
qed simp

text \<open>\<open>take(k)\<close> of a stream, collected.\<close>

fun drive_take :: "nat \<Rightarrow> nat \<Rightarrow> ('s \<Rightarrow> ('a, 'e) poll option \<times> 's) \<Rightarrow> 's \<Rightarrow> ('e + 'a list) option" where
  "drive_take 0 n it s = Some (Inr [])"
| "drive_take (Suc k) 0 it s = None"
| "drive_take (Suc k) (Suc n) it s =
     (case it s of
        (None, s') \<Rightarrow> drive_take (Suc k) n it s'
      | (Some NotReady, s') \<Rightarrow> drive_take (Suc k) n it s'
      | (Some (Ready None), s') \<Rightarrow> Some (Inr [])
      | (Some (Ready (Some x)), s') \<Rightarrow> map_option (map_ok ((#) x)) (drive_take k n it s')
      | (Some (Failed e), s') \<Rightarrow> Some (Inl e))"

lemma drive_take_drive:
  "drive n it s = Some (Inr xs) \<Longrightarrow> drive_take k n it s = Some (Inr (take k xs))"
proof (induction k n it s arbitrary: xs rule: drive_take.induct)
  case (3 k n it s)
  obtain r t where it: "it s = (r, t)" by (cases "it s")
  show ?case
  proof (cases "\<exists>x. r = Some (Ready (Some x))")
    case True
    then obtain x where x: "it s = (Some (Ready (Some x)), t)" using it by blast
    obtain ys where ys: "drive n it t = Some (Inr ys)" "xs = x # ys" using drive_Suc_item [OF "3.prems" x] .
    then show ?thesis using "3.IH"(3) [OF x [symmetric] refl refl refl ys(1)] x by simp
  next
    case False
    then show ?thesis using 3 it by (cases r; cases "the r") (auto split: option.splits)
  qed
qed simp_all

definition common_ancestors ::
    "nat \<Rightarrow> ('c set \<Rightarrow> 'c list) \<Rightarrow> 'c ChangesetFetcher \<Rightarrow> ('c \<Rightarrow> ('c \<times> nat, 'c revset_error) input \<Rightarrow> ('c \<times> nat, 'c revset_error) input)
      \<Rightarrow> 'c list \<Rightarrow> ('c, 'c revset_error) IntersectNodeStream" where
  "common_ancestors n ho changeset_fetcher io nodes =
     intersect_new changeset_fetcher
       (map (\<lambda>node. outcomes n (ancestors_iter changeset_fetcher (io node) ho)
                     (ancestors_new changeset_fetcher (io node) node)) nodes)"

definition greatest_common_ancestor ::
    "nat \<Rightarrow> nat \<Rightarrow> ('c set \<Rightarrow> 'c list) \<Rightarrow> (('c \<times> nat) list \<Rightarrow> ('c \<times> nat) list) \<Rightarrow> 'c ChangesetFetcher
      \<Rightarrow> ('c \<Rightarrow> ('c \<times> nat, 'c revset_error) input \<Rightarrow> ('c \<times> nat, 'c revset_error) input) \<Rightarrow> 'c list
      \<Rightarrow> ('c revset_error + 'c list) option" where
  "greatest_common_ancestor n m ho mo changeset_fetcher io nodes =
     drive_take 1 m (intersect_iter mo) (common_ancestors n ho changeset_fetcher io nodes)"

lemma common_ancestors_finish:
  assumes graph: "commit_graph F K" and nodes: "set nodes \<subseteq> K" and io: "\<And>c. only_delays (io c)" "hash_order ho" "map_order mo"
  shows "\<exists>N M xs. (\<forall>n \<ge> N. \<forall>m \<ge> M. drive m (intersect_iter mo) (common_ancestors n ho F io nodes) = Some (Inr xs)) \<and>
     distinct xs \<and> sorted_wrt (\<lambda>a b. fetched_gen F b \<le> fetched_gen F a) xs \<and>
     set xs = (if nodes = [] then {} else \<Inter>c \<in> set nodes. ancestors F c)"
proof -
  let ?out = "\<lambda>n c. outcomes n (ancestors_iter F (io c) ho) (ancestors_new F (io c) c)"
  let ?ok = "\<lambda>n c. node_stream_ok F (?out n c) \<and> distinct (items (?out n c)) \<and> set (items (?out n c)) = ancestors F c \<and>
       (\<forall>m \<ge> n. ?out m c = ?out n c)"
  have "\<exists>n. ?ok n c" if c: "c \<in> K" for c
  proof -
    from ancestors_finish [OF graph c io(1) [of c] io(2)] obtain n xs where
      xs: "drive n (ancestors_iter F (io c) ho) (ancestors_new F (io c) c) = Some (Inr xs)" "distinct xs"
      "sorted_wrt (\<lambda>a b. fetched_gen F b \<le> fetched_gen F a) xs" "set xs = ancestors F c" by blast
    have "\<forall>a \<in> set xs. get_generation_number F a = Inr (fetched_gen F a)"
      using commit_graph.gen_known [OF graph commit_graph.ancestor_facts(1) [OF graph c]] xs(4) by simp
    then have "node_stream_ok F (?out n c) \<and> distinct (items (?out n c)) \<and> set (items (?out n c)) = ancestors F c"
      using outcomes_drive [OF xs(1)] xs by (simp add: node_stream_ok_def)
    then have "?ok n c" using outcomes_stable [OF xs(1)] by blast
    then show ?thesis by blast
  qed
  then obtain f where f: "\<And>c. c \<in> K \<Longrightarrow> ?ok (f c) c" by metis
  let ?N = "Max (insert 0 (f ` set nodes))"
  have le: "f c \<le> ?N" if "c \<in> set nodes" for c using that by (intro Max_ge) auto
  have same: "common_ancestors n ho F io nodes = intersect_new F (map (\<lambda>c. ?out (f c) c) nodes)" if "n \<ge> ?N" for n
  proof -
    have "?out n c = ?out (f c) c" if c: "c \<in> set nodes" for c
    proof -
      have "c \<in> K" using c nodes by blast
      from f [OF this] have all: "\<forall>m. f c \<le> m \<longrightarrow> ?out m c = ?out (f c) c" by (elim conjE)
      have "f c \<le> n" using le [OF c] \<open>n \<ge> ?N\<close> by (rule le_trans)
      then show ?thesis by (rule all [rule_format])
    qed
    then have "map (?out n) nodes = map (\<lambda>c. ?out (f c) c) nodes" by (intro map_cong refl)
    then show ?thesis unfolding common_ancestors_def by (rule arg_cong)
  qed
  note ok = f [OF subsetD [OF nodes]]
  note outs = conjunct1 [OF ok] conjunct1 [OF conjunct2 [OF ok]] conjunct1 [OF conjunct2 [OF conjunct2 [OF ok]]]
  have "\<forall>i \<in> set (map (\<lambda>c. ?out (f c) c) nodes). node_stream_ok F i \<and> distinct (items i)" using outs(1,2) by simp
  from intersect_finish [OF io(3) this] obtain M xs where
    xs: "\<forall>m \<ge> M. drive m (intersect_iter mo) (intersect_new F (map (\<lambda>c. ?out (f c) c) nodes)) = Some (Inr xs)" "distinct xs"
    "sorted_wrt (\<lambda>a b. fetched_gen F b \<le> fetched_gen F a) xs"
    "set xs = (if nodes = [] then {} else \<Inter>i \<in> set (map (\<lambda>c. ?out (f c) c) nodes). set (items i))" by auto
  moreover have "(\<Inter>i \<in> set (map (\<lambda>c. ?out (f c) c) nodes). set (items i)) = (\<Inter>c \<in> set nodes. ancestors F c)"
    using outs(3) by simp
  ultimately show ?thesis using same by (intro exI [of _ ?N] exI [of _ M] exI [of _ xs]) simp
qed


text \<open>C17: the stream of the ancestors of a changeset that the store has, read through the SQL
  tables. However the fetches are delayed and in whatever order the hash sets are drained, it finishes
  without an error and returns the changeset and every ancestor of it exactly once, in an order in
  which generation numbers never increase.\<close>

theorem ancestors_correct:
  assumes "db_ok db" "view db repo c \<noteq> None" "only_delays io" "hash_order ho"
  shows "\<exists>N xs. (\<forall>n \<ge> N. drive n (ancestors_iter (sql_fetcher db repo) io ho) (ancestors_new (sql_fetcher db repo) io c)
       = Some (Inr xs)) \<and>
     distinct xs \<and> set xs = ancestors (sql_fetcher db repo) c \<and>
     sorted_wrt (\<lambda>a b. fetched_gen (sql_fetcher db repo) b \<le> fetched_gen (sql_fetcher db repo) a) xs"
  using ancestors_finish [OF sqlg.commit_graph_axioms, of c db repo io ho] assms by (auto simp: known_in_def)

text \<open>A history with a root and two children of it, for the witnesses.\<close>

definition sample_db :: "nat changesets_db" where
  "sample_db = foldl (\<lambda>db cs. snd (changesets_add db cs)) empty_db
     [\<lparr>ci_repo_id = 0, ci_cs_id = 7, ci_parents = []\<rparr>, \<lparr>ci_repo_id = 0, ci_cs_id = 8, ci_parents = [7]\<rparr>,
      \<lparr>ci_repo_id = 0, ci_cs_id = 9, ci_parents = [7]\<rparr>]"

lemma sample_db_ok: "db_ok sample_db"
  by (simp add: sample_db_def changesets_add_ok [OF changesets_add_ok [OF changesets_add_ok [OF db_ok_empty]]] prod_eq_iff)

lemma sample_db_code: "select_changeset sample_db 0 7 = Some \<lparr>ce_repo_id = 0, ce_cs_id = 7, ce_parents = [], ce_gen = 1\<rparr>"
  "select_changeset sample_db 0 8 = Some \<lparr>ce_repo_id = 0, ce_cs_id = 8, ce_parents = [7], ce_gen = 2\<rparr>"
  "select_changeset sample_db 0 9 = Some \<lparr>ce_repo_id = 0, ce_cs_id = 9, ce_parents = [7], ce_gen = 2\<rparr>"
  "view sample_db 0 7 = Some ([], 1)" "view sample_db 0 8 = Some ([7], 2)" "view sample_db 0 9 = Some ([7], 2)"
  by code_simp+

lemma sample_fetched:
  "fetched_parents (sql_fetcher sample_db 0) 7 = []" "fetched_parents (sql_fetcher sample_db 0) 8 = [7]"
  "fetched_parents (sql_fetcher sample_db 0) 9 = [7]" "fetched_gen (sql_fetcher sample_db 0) 7 = 1"
  "fetched_gen (sql_fetcher sample_db 0) 8 = 2" "fetched_gen (sql_fetcher sample_db 0) 9 = 2"
  by (simp_all add: fetched_parents_def fetched_gen_def simple_fetcher_def changesets_get_def sample_db_code)

lemma sample_ancestors:
  "ancestors (sql_fetcher sample_db 0) 7 = {7}" "ancestors (sql_fetcher sample_db 0) 8 = {7, 8}"
  "ancestors (sql_fetcher sample_db 0) 9 = {7, 9}"
proof -
  show seven: "ancestors (sql_fetcher sample_db 0) 7 = {7}" by (subst sqlg.ancestors_unfold) (simp add: sample_fetched)
  show "ancestors (sql_fetcher sample_db 0) 8 = {7, 8}" by (subst sqlg.ancestors_unfold) (auto simp: sample_fetched seven)
  show "ancestors (sql_fetcher sample_db 0) 9 = {7, 9}" by (subst sqlg.ancestors_unfold) (auto simp: sample_fetched seven)
qed

lemma hash_order_sorted: "hash_order (sorted_list_of_set :: nat set \<Rightarrow> nat list)"
  by (simp add: hash_order_def)

theorem ancestors_correct_witness:
  "\<exists>N xs. (\<forall>n \<ge> N. drive n (ancestors_iter (sql_fetcher sample_db 0) ((#) Pending) sorted_list_of_set)
       (ancestors_new (sql_fetcher sample_db 0) ((#) Pending) 8) = Some (Inr xs)) \<and> distinct xs \<and> set xs = {7, 8}"
  using ancestors_correct [OF sample_db_ok, of 0 8 "(#) Pending" sorted_list_of_set] hash_order_sorted
  by (auto simp: only_delays_def sample_db_code sample_ancestors)

text \<open>C18: \<open>common_ancestors\<close> and \<open>greatest_common_ancestor\<close>, the intersection of streams of ancestors.
  The stream finishes and returns the changesets that are ancestors of all the given ones exactly
  once, highest generations first; its \<open>take(1)\<close> is a common ancestor of greatest generation when there
  is a common ancestor, and nothing otherwise.\<close>

theorem common_ancestors_correct:
  assumes "db_ok db" "\<forall>c \<in> set nodes. view db repo c \<noteq> None" "\<forall>c. only_delays (io c)" "hash_order ho" "map_order mo"
  shows "\<exists>N M xs. (\<forall>n \<ge> N. \<forall>m \<ge> M.
       drive m (intersect_iter mo) (common_ancestors n ho (sql_fetcher db repo) io nodes) = Some (Inr xs) \<and>
       greatest_common_ancestor n m ho mo (sql_fetcher db repo) io nodes = Some (Inr (take 1 xs))) \<and>
     distinct xs \<and> set xs = (if nodes = [] then {} else \<Inter>c \<in> set nodes. ancestors (sql_fetcher db repo) c) \<and>
     (\<forall>a \<in> set xs. fetched_gen (sql_fetcher db repo) a \<le> fetched_gen (sql_fetcher db repo) (hd xs))"
proof -
  have "set nodes \<subseteq> known_in db repo" using assms(1,2) by (auto simp: known_in_def)
  moreover have "only_delays (io c)" for c using assms(3) by simp
  ultimately obtain N M xs where
    xs: "\<forall>n \<ge> N. \<forall>m \<ge> M. drive m (intersect_iter mo) (common_ancestors n ho (sql_fetcher db repo) io nodes) = Some (Inr xs)"
    "distinct xs" "sorted_wrt (\<lambda>a b. fetched_gen (sql_fetcher db repo) b \<le> fetched_gen (sql_fetcher db repo) a) xs"
    "set xs = (if nodes = [] then {} else \<Inter>c \<in> set nodes. ancestors (sql_fetcher db repo) c)"
    using common_ancestors_finish [OF sqlg.commit_graph_axioms _ _ assms(4,5), of nodes db repo io] by metis
  have "\<forall>a \<in> set xs. fetched_gen (sql_fetcher db repo) a \<le> fetched_gen (sql_fetcher db repo) (hd xs)"
    using xs(3) by (cases xs) auto
  moreover have "\<forall>n \<ge> N. \<forall>m \<ge> M. greatest_common_ancestor n m ho mo (sql_fetcher db repo) io nodes = Some (Inr (take 1 xs))"
    unfolding greatest_common_ancestor_def using xs(1) by (auto intro: drive_take_drive)
  ultimately show ?thesis using xs(1,2,4) by (intro exI [of _ N] exI [of _ M] exI [of _ xs] conjI) simp_all
qed

theorem common_ancestors_correct_witness:
  "\<exists>N M. \<forall>n \<ge> N. \<forall>m \<ge> M.
     greatest_common_ancestor n m sorted_list_of_set id (sql_fetcher sample_db 0) (\<lambda>_. id) [8, 9] = Some (Inr [7])"
proof -
  have mo: "map_order (id :: (nat \<times> nat) list \<Rightarrow> _)" by (simp add: map_order_def)
  have known: "\<forall>c \<in> set [8, 9]. view sample_db 0 c \<noteq> None" by (simp add: sample_db_code)
  have delays: "\<forall>c :: nat. only_delays (id :: (nat \<times> nat, nat revset_error) input \<Rightarrow> _)" by (simp add: only_delays_def)
  have both: "(\<Inter>c \<in> set [8, 9]. ancestors (sql_fetcher sample_db 0) c) = {7}" by (auto simp: sample_ancestors)
  from common_ancestors_correct [OF sample_db_ok known delays hash_order_sorted mo, unfolded both] obtain N M xs where
    "\<forall>n \<ge> N. \<forall>m \<ge> M. greatest_common_ancestor n m sorted_list_of_set id (sql_fetcher sample_db 0) (\<lambda>_. id) [8, 9]
       = Some (Inr (take 1 xs))" "distinct xs" "set xs = (if [8, 9 :: nat] = [] then {} else {7})" by blast
  moreover have "xs = [7]" using calculation(2,3) by (cases xs; cases "tl xs") (auto split: if_splits)
  ultimately show ?thesis by auto
qed

end
