(* ===== verification/Range_Stream.thy ===== *)
theory Range_Stream
  imports Commit_Graph "HOL-Library.AList" "HOL-Library.Countable"
begin

text \<open>
  The stream of the changesets between two changesets, \<open>src/revset/src/range.rs\<close>: a walk back from the
  end that records the edges it sees from parents to children, and then a walk forward from the start
  along these edges.

  The walk back has no set of visited changesets, and the walk forward is a loop that ends because
  generation numbers grow along edges; both are shown to end.
\<close>

section \<open>The stream\<close>

record 'c HashGen =
  hg_hash :: 'c
  hg_generation :: nat

record 'c ParentChild =
  pc_parent :: "'c HashGen"
  pc_child :: "'c HashGen"

record 'c RangeNodeStream =
  r_start_node :: 'c
  r_start_generation :: "(nat, 'c revset_error) input"
  r_children :: "('c HashGen \<times> 'c HashGen set) list"
  r_pending_nodes :: "('c ParentChild, 'c revset_error) input"
  r_output_nodes :: "(nat, 'c set) btree_map option"
  r_drain :: "'c list option"

type_synonym 'c edge_delays = "('c ParentChild, 'c revset_error) input \<Rightarrow> ('c ParentChild, 'c revset_error) input"

definition range_make_pending :: "'c ChangesetFetcher \<Rightarrow> 'c edge_delays \<Rightarrow> 'c HashGen \<Rightarrow> ('c ParentChild, 'c revset_error) input" where
  "range_make_pending changeset_fetcher io child =
     io (case get_parents changeset_fetcher (hg_hash child) of
           Inl e \<Rightarrow> [Fail (ParentsFetchFailed e)]
         | Inr parents \<Rightarrow>
             map (\<lambda>parent_hash. case get_generation_number changeset_fetcher parent_hash of
                      Inr gen_id \<Rightarrow> Item \<lparr>pc_parent = \<lparr>hg_hash = parent_hash, hg_generation = gen_id\<rparr>, pc_child = child\<rparr>
                    | Inl e \<Rightarrow> Fail (GenerationFetchFailed e)) parents)"

definition range_new ::
    "'c ChangesetFetcher \<Rightarrow> ((nat, 'c revset_error) input \<Rightarrow> (nat, 'c revset_error) input) \<Rightarrow> 'c edge_delays \<Rightarrow> 'c \<Rightarrow> 'c
      \<Rightarrow> 'c RangeNodeStream" where
  "range_new changeset_fetcher io_start io start_node end_node =
     \<lparr>r_start_node = start_node,
      r_start_generation =
        io_start [case get_generation_number changeset_fetcher start_node of
                    Inr generation \<Rightarrow> Item generation
                  | Inl e \<Rightarrow> Fail (GenerationFetchFailed e)],
      r_children = [],
      r_pending_nodes =
        io (case get_generation_number changeset_fetcher end_node of
              Inl e \<Rightarrow> [Fail (GenerationFetchFailed e)]
            | Inr generation \<Rightarrow>
                range_make_pending changeset_fetcher io \<lparr>hg_hash = end_node, hg_generation = generation\<rparr>),
      r_output_nodes = None,
      r_drain = None\<rparr>"

text \<open>A poll of \<open>stream::repeat\<close> behind a future: the value stays.\<close>

fun poll_repeat :: "('a, 'e) input \<Rightarrow> ('a, 'e) poll \<times> ('a, 'e) input" where
  "poll_repeat (Item x # s) = (Ready (Some x), Item x # s)"
| "poll_repeat s = poll_input s"

definition children_insert ::
    "'c HashGen \<Rightarrow> 'c HashGen \<Rightarrow> ('c HashGen \<times> 'c HashGen set) list \<Rightarrow> ('c HashGen \<times> 'c HashGen set) list" where
  "children_insert parent child m = AList.update parent (insert child (case map_of m parent of Some S \<Rightarrow> S | None \<Rightarrow> {})) m"

text \<open>The body of the \<open>for\<close> loop, the loop, and \<open>build_output_nodes\<close>. The order in which the hash set of
  nodes is drained is the argument \<open>hg\<close>; a loop that runs forever is the result \<open>None\<close>.\<close>

definition handle_node ::
    "('c HashGen \<times> 'c HashGen set) list \<Rightarrow> 'c HashGen \<Rightarrow> 'c HashGen set \<times> (nat, 'c set) btree_map
      \<Rightarrow> 'c HashGen set \<times> (nat, 'c set) btree_map" where
  "handle_node ch hashgen st =
     (fst st \<union> (case map_of ch hashgen of Some S \<Rightarrow> S | None \<Rightarrow> {}),
      generation_insert (hg_generation hashgen) (hg_hash hashgen) (snd st))"

partial_function (option) handle_nodes ::
    "('c HashGen set \<Rightarrow> 'c HashGen list) \<Rightarrow> ('c HashGen \<times> 'c HashGen set) list \<Rightarrow> 'c HashGen set
      \<Rightarrow> (nat, 'c set) btree_map \<Rightarrow> (nat, 'c set) btree_map option" where
  [code]: "handle_nodes hg ch nodes_to_handle output_nodes =
     (if nodes_to_handle = {} then Some output_nodes
      else let (nodes, output) = fold (handle_node ch) (hg nodes_to_handle) ({}, output_nodes)
           in handle_nodes hg ch nodes output)"

definition build_output_nodes ::
    "('c HashGen set \<Rightarrow> 'c HashGen list) \<Rightarrow> 'c RangeNodeStream \<Rightarrow> nat \<Rightarrow> (nat, 'c set) btree_map option" where
  "build_output_nodes hg s start_generation =
     handle_nodes hg (r_children s)
       (if r_children s \<noteq> [] then {\<lparr>hg_hash = r_start_node s, hg_generation = start_generation\<rparr>} else {}) []"

text \<open>One round of the loop of \<open>poll\<close>, with what precedes and follows the loop. When
  \<open>build_output_nodes\<close> does not return, neither does the round.\<close>

definition range_walk ::
    "'c ChangesetFetcher \<Rightarrow> 'c edge_delays \<Rightarrow> nat \<Rightarrow> 'c ParentChild \<Rightarrow> 'c RangeNodeStream \<Rightarrow> 'c RangeNodeStream" where
  "range_walk changeset_fetcher io start_generation next_pending s =
     s\<lparr>r_children := (if start_generation \<le> hg_generation (pc_child next_pending)
                      then children_insert (pc_parent next_pending) (pc_child next_pending) (r_children s) else r_children s),
       r_pending_nodes := (if start_generation < hg_generation (pc_parent next_pending)
                      then r_pending_nodes s @ range_make_pending changeset_fetcher io (pc_parent next_pending)
                      else r_pending_nodes s)\<rparr>"

definition range_iter ::
    "'c ChangesetFetcher \<Rightarrow> 'c edge_delays \<Rightarrow> ('c set \<Rightarrow> 'c list) \<Rightarrow> ('c HashGen set \<Rightarrow> 'c HashGen list)
      \<Rightarrow> 'c RangeNodeStream \<Rightarrow> ('c, 'c revset_error) poll option \<times> 'c RangeNodeStream" where
  "range_iter changeset_fetcher io ho hg s =
     (case drained (r_drain s) of
        x # d \<Rightarrow> (Some (Ready (Some x)), s\<lparr>r_drain := Some d\<rparr>)
      | [] \<Rightarrow>
     (case r_output_nodes s of
        None \<Rightarrow>
          (case poll_repeat (r_start_generation s) of
             (Failed e, g) \<Rightarrow> (Some (Failed e), s\<lparr>r_start_generation := g\<rparr>)
           | (Ready (Some start_generation), g) \<Rightarrow>
               (case poll_input (r_pending_nodes s) of
                  (Failed e, p) \<Rightarrow> (Some (Failed e), s\<lparr>r_start_generation := g, r_pending_nodes := p\<rparr>)
                | (NotReady, p) \<Rightarrow> (Some NotReady, s\<lparr>r_start_generation := g, r_pending_nodes := p\<rparr>)
                | (Ready None, p) \<Rightarrow>
                    (case build_output_nodes hg s start_generation of
                       Some nodes \<Rightarrow> (None, s\<lparr>r_start_generation := g, r_pending_nodes := p, r_output_nodes := Some nodes\<rparr>)
                     | None \<Rightarrow> (None, s))
                | (Ready (Some next_pending), p) \<Rightarrow>
                    (None, range_walk changeset_fetcher io start_generation next_pending
                             (s\<lparr>r_start_generation := g, r_pending_nodes := p\<rparr>)))
           | (_, g) \<Rightarrow> (Some NotReady, s\<lparr>r_start_generation := g\<rparr>))
      | Some nodes \<Rightarrow>
          (case maximum (map fst nodes) of
             None \<Rightarrow> (Some (Ready None), s)
           | Some highest_generation \<Rightarrow>
               (case map_of nodes highest_generation of
                  None \<Rightarrow> (Some (Failed (AssertionFailed ''Highest generation doesn't exist'')), s)
                | Some current_generation \<Rightarrow>
                    (case ho current_generation of
                       [] \<Rightarrow> (Some (Failed (AssertionFailed ''Cannot create a generation without at least one node hash'')), s)
                     | x # d \<Rightarrow>
                         (Some (Ready (Some x)),
                          s\<lparr>r_output_nodes := Some (btm_remove highest_generation nodes), r_drain := Some d\<rparr>))))))"

section \<open>The walk forward\<close>

definition child_edges :: "('c HashGen \<times> 'c HashGen set) list \<Rightarrow> ('c HashGen \<times> 'c HashGen) set" where
  "child_edges m = {(p, c). \<exists>S. map_of m p = Some S \<and> c \<in> S}"

lemma child_edges_image: "child_edges m `` {p} = (case map_of m p of Some S \<Rightarrow> S | None \<Rightarrow> {})"
  by (auto simp: child_edges_def split: option.splits)

lemma child_edges_insert: "child_edges (children_insert p c m) = insert (p, c) (child_edges m)"
  by (auto simp: child_edges_def children_insert_def update_conv' split: option.splits if_splits)

lemma child_edges_empty: "\<forall>S \<in> ran (map_of m). S \<noteq> {} \<Longrightarrow> child_edges m = {} \<longleftrightarrow> m = []"
proof (cases m)
  case (Cons x l)
  assume ne: "\<forall>S \<in> ran (map_of m). S \<noteq> {}"
  have x: "map_of m (fst x) = Some (snd x)" using Cons by (cases x) simp
  then have "snd x \<noteq> {}" using ne by (blast intro: ranI)
  then show ?thesis using x Cons by (auto simp: child_edges_def)
qed (simp add: child_edges_def)

lemma handle_node_fold:
  assumes "generations_ok G out" "\<forall>x \<in> set xs. G (hg_hash x) = hg_generation x"
    "fold (handle_node m) xs (A, out) = (A', out')"
  shows "A' = A \<union> child_edges m `` set xs \<and> generations_ok G out' \<and> nodes_of out' = nodes_of out \<union> hg_hash ` set xs"
  using assms
proof (induction xs arbitrary: A out)
  case (Cons x xs)
  let ?out = "generation_insert (hg_generation x) (hg_hash x) out"
  have x: "G (hg_hash x) = hg_generation x" using Cons.prems(2) by simp
  note ins = generation_insert_ok [OF Cons.prems(1) x]
  have "handle_node m x (A, out) = (A \<union> child_edges m `` {x}, ?out)" by (simp add: handle_node_def child_edges_image)
  then have step: "fold (handle_node m) xs (A \<union> child_edges m `` {x}, ?out) = (A', out')" using Cons.prems(3) by simp
  have "\<forall>x \<in> set xs. G (hg_hash x) = hg_generation x" using Cons.prems(2) by simp
  from Cons.IH [OF ins(1) this step] show ?case using ins(2) by auto
qed simp

lemma handle_nodes_ok:
  assumes hash: "hash_order hg" and fin: "\<forall>S \<in> ran (map_of m). finite S"
    and up: "\<forall>p c. (p, c) \<in> child_edges m \<longrightarrow> hg_generation p < hg_generation c \<and> hg_generation c \<le> B \<and> G (hg_hash c) = hg_generation c"
  shows "generations_ok G out \<Longrightarrow> finite nodes \<Longrightarrow>
     \<forall>x \<in> nodes. L \<le> hg_generation x \<and> hg_generation x \<le> B \<and> G (hg_hash x) = hg_generation x \<Longrightarrow>
     \<exists>out'. handle_nodes hg m nodes out = Some out' \<and> generations_ok G out' \<and>
       nodes_of out' = nodes_of out \<union> hg_hash ` ((child_edges m)\<^sup>* `` nodes)"
proof (induction "Suc B - L" arbitrary: L nodes out)
  case 0
  then have "nodes = {}" by fastforce
  then show ?case using 0 by (simp add: handle_nodes.simps)
next
  case (Suc k)
  show ?case
  proof (cases "nodes = {}")
    case True
    then show ?thesis using Suc by (simp add: handle_nodes.simps)
  next
    case False
    let ?E = "child_edges m"
    obtain A out1 where f: "fold (handle_node m) (hg nodes) ({}, out) = (A, out1)" by (cases "fold (handle_node m) (hg nodes) ({}, out)")
    have hg: "set (hg nodes) = nodes" using hash Suc.prems(2) by (simp add: hash_order_def)
    have all: "\<forall>x \<in> set (hg nodes). G (hg_hash x) = hg_generation x" using Suc.prems(3) hg by blast
    have out1: "A = {} \<union> ?E `` nodes" "generations_ok G out1" "nodes_of out1 = nodes_of out \<union> hg_hash ` nodes"
      using handle_node_fold [OF Suc.prems(1) all f] unfolding hg by blast+
    have A: "A = ?E `` nodes" using out1(1) by simp
    have "?E `` nodes = (\<Union>x \<in> nodes. ?E `` {x})" by blast
    also have "finite \<dots>"
      using Suc.prems(2) fin by (intro finite_UN_I) (auto simp: child_edges_image ran_def split: option.splits)
    finally have finA: "finite A" using A by simp
    have "\<forall>x \<in> A. Suc L \<le> hg_generation x \<and> hg_generation x \<le> B \<and> G (hg_hash x) = hg_generation x"
      using up Suc.prems(3) unfolding A by fastforce
    moreover have "k = Suc B - Suc L" using Suc.hyps(2) by simp
    ultimately obtain out' where
      o: "handle_nodes hg m A out1 = Some out'" "generations_ok G out'" "nodes_of out' = nodes_of out1 \<union> hg_hash ` (?E\<^sup>* `` A)"
      using Suc.hyps(1) [OF _ out1(2) finA] by metis
    have "?E\<^sup>* `` nodes = nodes \<union> ?E\<^sup>* `` A" unfolding A
      by (auto elim: converse_rtranclE intro: converse_rtrancl_into_rtrancl)
    then have "nodes_of out' = nodes_of out \<union> hg_hash ` (?E\<^sup>* `` nodes)" using o(3) out1(3) by (simp add: image_Un Un_assoc)
    moreover have "handle_nodes hg m nodes out = Some out'" using False f o(1) by (simp add: handle_nodes.simps [of hg m nodes])
    ultimately show ?thesis using o(2) by blast
  qed
qed

lemma rtrancl_map_prod:
  assumes "inj f"
  shows "(map_prod f f ` r)\<^sup>* `` {f a} = f ` (r\<^sup>* `` {a})"
proof -
  have "\<exists>b. y = f b \<and> (a, b) \<in> r\<^sup>*" if "(f a, y) \<in> (map_prod f f ` r)\<^sup>*" for y
    using that
  proof (induction rule: rtrancl_induct)
    case (step y z)
    then obtain b c d where "y = f b" "(a, b) \<in> r\<^sup>*" "y = f c" "z = f d" "(c, d) \<in> r" by auto
    then show ?case using injD [OF assms] by (blast intro: rtrancl_into_rtrancl)
  qed blast
  moreover have "(f a, f b) \<in> (map_prod f f ` r)\<^sup>*" if "(a, b) \<in> r\<^sup>*" for b
    using that
  proof (induction rule: rtrancl_induct)
    case (step y z)
    then have "(f y, f z) \<in> map_prod f f ` r" by force
    with step.IH show ?case by (rule rtrancl_into_rtrancl)
  qed simp
  ultimately show ?thesis by blast
qed

section \<open>The walk back\<close>

definition hg_of :: "'c ChangesetFetcher \<Rightarrow> 'c \<Rightarrow> 'c HashGen" where
  "hg_of F c = \<lparr>hg_hash = c, hg_generation = fetched_gen F c\<rparr>"

lemma hg_of_simps [simp]: "hg_hash (hg_of F c) = c" "hg_generation (hg_of F c) = fetched_gen F c" "inj (hg_of F)"
  by (simp_all add: hg_of_def inj_def)

text \<open>The edges the walk still finds above a changeset, all that it has found or still finds, and the
  changesets that the walk forward then reaches.\<close>

definition edges_above :: "'c ChangesetFetcher \<Rightarrow> nat \<Rightarrow> 'c \<Rightarrow> ('c \<times> 'c) set" where
  "edges_above F g p = {(q, d). d \<in> ancestors F p \<and> g < fetched_gen F d \<and> q \<in> set (fetched_parents F d)}"

definition edges_of :: "'c ChangesetFetcher \<Rightarrow> nat \<Rightarrow> 'c \<times> 'c \<Rightarrow> ('c \<times> 'c) set" where
  "edges_of F g e = (if g \<le> fetched_gen F (snd e) then {e} else {}) \<union> edges_above F g (fst e)"

definition pc_of :: "'c ChangesetFetcher \<Rightarrow> 'c \<times> 'c \<Rightarrow> 'c ParentChild" where
  "pc_of F e = \<lparr>pc_parent = hg_of F (fst e), pc_child = hg_of F (snd e)\<rparr>"

definition pc_edge :: "'c ParentChild \<Rightarrow> 'c \<times> 'c" where
  "pc_edge x = (hg_hash (pc_parent x), hg_hash (pc_child x))"

lemma pc_edge_of [simp]: "pc_edge (pc_of F e) = e"
  by (simp add: pc_edge_def pc_of_def)

definition hash_edges :: "('c HashGen \<times> 'c HashGen set) list \<Rightarrow> ('c \<times> 'c) set" where
  "hash_edges m = map_prod hg_hash hg_hash ` child_edges m"

definition r_edges :: "'c ChangesetFetcher \<Rightarrow> 'c RangeNodeStream \<Rightarrow> ('c \<times> 'c) set" where
  "r_edges F s = hash_edges (r_children s) \<union>
     (\<Union>x \<in> set (items (r_pending_nodes s)). edges_of F (fetched_gen F (r_start_node s)) (pc_edge x))"

definition r_reached :: "('c \<times> 'c) set \<Rightarrow> 'c \<Rightarrow> 'c set" where
  "r_reached E start = (if E = {} then {} else E\<^sup>* `` {start})"

definition edge_ok :: "'c ChangesetFetcher \<Rightarrow> 'c set \<Rightarrow> 'c \<Rightarrow> 'c \<times> 'c \<Rightarrow> bool" where
  "edge_ok F K end_node e \<longleftrightarrow> snd e \<in> ancestors F end_node \<and> fst e \<in> set (fetched_parents F (snd e))"

definition walk_inv :: "'c ChangesetFetcher \<Rightarrow> 'c set \<Rightarrow> 'c \<Rightarrow> 'c RangeNodeStream \<Rightarrow> bool" where
  "walk_inv F K end_node s \<longleftrightarrow> r_start_node s \<in> K \<and> end_node \<in> K \<and> r_drain s = None \<and>
     (\<forall>e. Fail e \<notin> set (r_start_generation s)) \<and> items (r_start_generation s) = [fetched_gen F (r_start_node s)] \<and>
     (\<forall>e. Fail e \<notin> set (r_pending_nodes s)) \<and>
     (\<forall>x \<in> set (items (r_pending_nodes s)). edge_ok F K end_node (pc_edge x) \<and> x = pc_of F (pc_edge x)) \<and>
     (\<forall>S \<in> ran (map_of (r_children s)). finite S \<and> S \<noteq> {}) \<and>
     (\<forall>p c. (p, c) \<in> child_edges (r_children s) \<longrightarrow>
        edge_ok F K end_node (hg_hash p, hg_hash c) \<and> p = hg_of F (hg_hash p) \<and> c = hg_of F (hg_hash c))"

fun drain_inv :: "'c ChangesetFetcher \<Rightarrow> (nat, 'c set) btree_map \<Rightarrow> 'c list \<Rightarrow> bool" where
  "drain_inv F m d \<longleftrightarrow> generations_ok (fetched_gen F) m \<and> distinct d \<and> same_gen (fetched_gen F) (set d) \<and>
     below (fetched_gen F) (nodes_of m) (set d)"

definition range_inv :: "'c ChangesetFetcher \<Rightarrow> 'c set \<Rightarrow> 'c \<Rightarrow> 'c RangeNodeStream \<Rightarrow> bool" where
  "range_inv F K end_node s \<longleftrightarrow>
     (case r_output_nodes s of None \<Rightarrow> walk_inv F K end_node s | Some m \<Rightarrow> drain_inv F m (drained (r_drain s)))"

definition range_spec :: "'c ChangesetFetcher \<Rightarrow> 'c RangeNodeStream \<Rightarrow> 'c list \<Rightarrow> bool" where
  "range_spec F s xs \<longleftrightarrow> distinct xs \<and> sorted_wrt (\<lambda>a b. fetched_gen F b \<le> fetched_gen F a) xs \<and>
     set xs = (case r_output_nodes s of
         None \<Rightarrow> r_reached (r_edges F s) (r_start_node s)
       | Some m \<Rightarrow> set (drained (r_drain s)) \<union> nodes_of m)"

definition range_rel :: "('c RangeNodeStream \<times> 'c RangeNodeStream) set" where
  "range_rel = inv_image (less_than <*lex*> mult less_than <*lex*> less_than <*lex*> less_than <*lex*> less_than)
     (\<lambda>s. (case r_output_nodes s of None \<Rightarrow> 1 | Some _ \<Rightarrow> 0,
           mset (map (\<lambda>x. hg_generation (pc_parent x)) (items (r_pending_nodes s))),
           length (r_pending_nodes s) + length (r_start_generation s),
           (case r_output_nodes s of None \<Rightarrow> 0 | Some m \<Rightarrow> card (dom (map_of m))),
           length (drained (r_drain s))))"

lemma wf_range_rel: "wf range_rel"
  unfolding range_rel_def by (intro wf_inv_image wf_lex_prod wf_less_than wf_mult)

lemma hash_edges_insert: "hash_edges (children_insert p c m) = insert (hg_hash p, hg_hash c) (hash_edges m)"
  by (simp add: hash_edges_def child_edges_insert)

lemma items_append: "items (s @ t) = items s @ items t"
  by (simp add: items_def List.map_filter_def)

lemma children_insert_ran:
  assumes "\<forall>S \<in> ran (map_of m). finite S \<and> S \<noteq> {}"
  shows "\<forall>S \<in> ran (map_of (children_insert p c m)). finite S \<and> S \<noteq> {}"
  using assms by (auto simp: children_insert_def update_conv' ran_def split: option.splits if_splits)

lemma hash_edges_map:
  assumes "\<forall>p c. (p, c) \<in> child_edges m \<longrightarrow> p = hg_of F (hg_hash p) \<and> c = hg_of F (hg_hash c)"
  shows "child_edges m = map_prod (hg_of F) (hg_of F) ` hash_edges m"
  unfolding hash_edges_def image_image using assms by (force simp: map_prod_def)

context commit_graph
begin

lemma range_pending_ok:
  assumes "only_delays io" "c \<in> K"
  shows "items (range_make_pending F io (hg_of F c)) = map (\<lambda>p. pc_of F (p, c)) (fetched_parents F c)"
    and "Fail e \<notin> set (range_make_pending F io (hg_of F c))"
proof -
  let ?evs = "map (\<lambda>p. Item (pc_of F (p, c))) (fetched_parents F c) :: ('c ParentChild, 'c revset_error) input"
  have "range_make_pending F io (hg_of F c) = io ?evs"
    using parents_known [OF assms(2)] parents_closed [OF assms(2)] gen_known
    by (simp add: range_make_pending_def pc_of_def hg_of_def cong: map_cong)
  then show "items (range_make_pending F io (hg_of F c)) = map (\<lambda>p. pc_of F (p, c)) (fetched_parents F c)"
    "Fail e \<notin> set (range_make_pending F io (hg_of F c))"
    using only_delays [OF assms(1), where s = ?evs] by (auto simp: items_map_Item)
qed

lemma edges_above_unfold:
  assumes "c \<in> K"
  shows "edges_above F g c = (if g < fetched_gen F c then \<Union>p \<in> set (fetched_parents F c). edges_of F g (p, c) else {})"
proof (cases "g < fetched_gen F c")
  case True
  have "edges_above F g c = {(q, d). d = c \<and> q \<in> set (fetched_parents F d)} \<union> (\<Union>p \<in> set (fetched_parents F c). edges_above F g p)"
    unfolding edges_above_def by (subst ancestors_unfold) (use True in auto)
  then show ?thesis using True by (auto simp: edges_of_def)
next
  case False
  have "\<not> g < fetched_gen F d" if "d \<in> ancestors F c" for d using ancestor_le [OF assms that] False by simp
  then show ?thesis using False by (auto simp: edges_above_def)
qed

lemma range_walk_step:
  assumes inv: "walk_inv F K z s" and io: "only_delays io" and p: "r_pending_nodes s = Item x # p"
    and out: "r_output_nodes s = None"
  defines "t \<equiv> range_walk F io (fetched_gen F (r_start_node s)) x (s\<lparr>r_pending_nodes := p\<rparr>)"
  shows "walk_inv F K z t" "r_edges F t = r_edges F s" "(t, s) \<in> range_rel" "r_output_nodes t = None"
    "r_start_node t = r_start_node s"
proof -
  let ?g = "fetched_gen F (r_start_node s)"
  obtain q c where x: "x = pc_of F (q, c)" "edge_ok F K z (q, c)"
    using inv p unfolding walk_inv_def by (metis items_simps(4) list.set_intros(1) surj_pair)
  have z: "z \<in> K" using inv by (simp add: walk_inv_def)
  have c: "c \<in> ancestors F z" "c \<in> K" "q \<in> set (fetched_parents F c)"
    using x(2) ancestor_facts(1) [OF z] by (auto simp: edge_ok_def)
  have q: "q \<in> K" "q \<in> ancestors F z"
    using parents_closed [OF c(2,3)] ancestors_trans [OF c(1) ancestor_step(2) [OF c(3) ancestor_step(1)]] by auto
  note pend = range_pending_ok [OF io q(1)]
  let ?more = "if ?g < fetched_gen F q then range_make_pending F io (hg_of F q) else []"
  let ?ch = "if ?g \<le> fetched_gen F c then children_insert (hg_of F q) (hg_of F c) (r_children s) else r_children s"
  have t: "t = s\<lparr>r_children := ?ch, r_pending_nodes := p @ ?more\<rparr>"
    by (simp add: t_def range_walk_def x(1) pc_of_def)
  have more: "items ?more = (if ?g < fetched_gen F q then map (\<lambda>a. pc_of F (a, q)) (fetched_parents F q) else [])"
    "\<forall>e. Fail e \<notin> set ?more" using pend by simp_all
  show "r_output_nodes t = None" "r_start_node t = r_start_node s" using out by (simp_all add: t)
  have "r_edges F t = hash_edges ?ch \<union> (\<Union>x \<in> set (items p). edges_of F ?g (pc_edge x)) \<union> edges_above F ?g q"
    by (auto simp: t r_edges_def items_append more(1) edges_above_unfold [OF q(1)])
  also have "\<dots> = r_edges F s"
    by (auto simp: r_edges_def p x(1) edges_of_def hash_edges_insert)
  finally show "r_edges F t = r_edges F s" .
  have "\<forall>k \<in># mset (map (\<lambda>x. hg_generation (pc_parent x)) (items ?more)). k < fetched_gen F q"
    unfolding more(1) using gen_parent [OF q(1)] by (auto simp: pc_of_def)
  then have "(mset (map (\<lambda>x. hg_generation (pc_parent x)) (items p)) + mset (map (\<lambda>x. hg_generation (pc_parent x)) (items ?more)),
      mset (map (\<lambda>x. hg_generation (pc_parent x)) (items p)) + {#fetched_gen F q#}) \<in> mult less_than"
    by (intro one_step_implies_mult) auto
  then show "(t, s) \<in> range_rel" using out by (simp add: range_rel_def t items_append p x(1) pc_of_def)
  have "\<forall>x \<in> set (items ?more). edge_ok F K z (pc_edge x) \<and> x = pc_of F (pc_edge x)"
    unfolding more(1) using q(2) by (auto simp: edge_ok_def)
  moreover have "\<forall>S \<in> ran (map_of ?ch). finite S \<and> S \<noteq> {}"
    using inv children_insert_ran [of "r_children s"] by (simp add: walk_inv_def)
  moreover have "\<forall>a b. (a, b) \<in> child_edges ?ch \<longrightarrow> edge_ok F K z (hg_hash a, hg_hash b) \<and> a = hg_of F (hg_hash a) \<and> b = hg_of F (hg_hash b)"
    using inv x(2) by (auto simp: walk_inv_def child_edges_insert)
  ultimately show "walk_inv F K z t"
    using inv more(2) p by (simp add: walk_inv_def t items_append ball_Un)
qed

lemma build_output_ok:
  assumes inv: "walk_inv F K z s" and hash: "hash_order hg" and p: "items (r_pending_nodes s) = []"
  shows "\<exists>m. build_output_nodes hg s (fetched_gen F (r_start_node s)) = Some m \<and> generations_ok (fetched_gen F) m \<and>
     nodes_of m = r_reached (r_edges F s) (r_start_node s)"
proof -
  let ?m = "r_children s" and ?c = "r_start_node s" and ?G = "fetched_gen F"
  have edges: "r_edges F s = hash_edges ?m" by (simp add: r_edges_def p)
  have fin: "\<forall>S \<in> ran (map_of ?m). finite S" and ne: "\<forall>S \<in> ran (map_of ?m). S \<noteq> {}"
    and known: "z \<in> K" and E: "\<And>p c. (p, c) \<in> child_edges ?m \<Longrightarrow>
        edge_ok F K z (hg_hash p, hg_hash c) \<and> p = hg_of F (hg_hash p) \<and> c = hg_of F (hg_hash c)"
    using inv unfolding walk_inv_def by blast+
  have none: "r_edges F s = {} \<longleftrightarrow> ?m = []" using child_edges_empty [OF ne] by (simp add: edges hash_edges_def)
  have init: "generations_ok ?G []" "nodes_of [] = ({} :: 'c set)" by (simp_all add: generations_ok_def nodes_of_def)
  show ?thesis
  proof (cases "?m = []")
    case True
    then show ?thesis using init none by (simp add: build_output_nodes_def handle_nodes.simps r_reached_def)
  next
    case False
    let ?B = "max (?G z) (?G ?c)"
    have up: "\<forall>p c. (p, c) \<in> child_edges ?m \<longrightarrow> hg_generation p < hg_generation c \<and> hg_generation c \<le> ?B \<and> ?G (hg_hash c) = hg_generation c"
    proof (intro allI impI)
      fix p c assume pc: "(p, c) \<in> child_edges ?m"
      have gens: "hg_generation p = ?G (hg_hash p)" "hg_generation c = ?G (hg_hash c)" using E [OF pc] by (metis hg_of_simps(2))+
      have c: "hg_hash c \<in> ancestors F z" "hg_hash p \<in> set (fetched_parents F (hg_hash c))" using E [OF pc] by (simp_all add: edge_ok_def)
      show "hg_generation p < hg_generation c \<and> hg_generation c \<le> ?B \<and> ?G (hg_hash c) = hg_generation c"
        using gen_parent [OF ancestor_facts(1) [OF known c(1)] c(2)] ancestor_le [OF known c(1)] gens by simp
    qed
    have start: "\<forall>x \<in> {hg_of F ?c}. 0 \<le> hg_generation x \<and> hg_generation x \<le> ?B \<and> ?G (hg_hash x) = hg_generation x" by simp
    obtain m where m: "handle_nodes hg ?m {hg_of F ?c} [] = Some m" "generations_ok ?G m"
      "nodes_of m = hg_hash ` ((child_edges ?m)\<^sup>* `` {hg_of F ?c})"
      using handle_nodes_ok [OF hash fin up init(1) _ start] init(2) by auto
    have "child_edges ?m = map_prod (hg_of F) (hg_of F) ` hash_edges ?m" using hash_edges_map E by blast
    then have "nodes_of m = hg_hash ` hg_of F ` ((hash_edges ?m)\<^sup>* `` {?c})" using m(3) rtrancl_map_prod [of "hg_of F"] by simp
    also have "\<dots> = r_reached (r_edges F s) ?c" using False none by (simp add: image_image r_reached_def edges)
    finally show ?thesis using m False by (simp add: build_output_nodes_def hg_of_def)
  qed
qed

lemma drain_step:
  assumes inv: "drain_inv F m (x # d)" and xs: "distinct xs" "sorted_wrt (\<lambda>a b. fetched_gen F b \<le> fetched_gen F a) xs"
    "set xs = set d \<union> nodes_of m"
  shows "distinct (x # xs)" "sorted_wrt (\<lambda>a b. fetched_gen F b \<le> fetched_gen F a) (x # xs)"
proof -
  have d: "distinct (x # d)" "same_gen (fetched_gen F) (insert x (set d))" "below (fetched_gen F) (nodes_of m) (insert x (set d))"
    using inv by simp_all
  have eq: "fetched_gen F y = fetched_gen F x" if "y \<in> set d" for y
    using d(2) that unfolding same_gen_def by blast
  have lt: "fetched_gen F y < fetched_gen F x" if "y \<in> nodes_of m" for y using d(3) that unfolding below_def by blast
  show "distinct (x # xs)" using xs(1,3) d(1) lt by fastforce
  have "fetched_gen F y \<le> fetched_gen F x" if "y \<in> set xs" for y using that xs(3) eq [of y] lt [of y] by fastforce
  then show "sorted_wrt (\<lambda>a b. fetched_gen F b \<le> fetched_gen F a) (x # xs)" using xs(2) by simp
qed

lemma range_drain_step:
  assumes inv: "range_inv F K z s" and hash: "hash_order ho" and out: "r_output_nodes s = Some m"
  shows "stream_step_ok (range_inv F K z) range_rel (range_spec F) s (fst (range_iter F io ho hg s)) (snd (range_iter F io ho hg s))"
proof (cases "drained (r_drain s)")
  case (Cons x d)
  let ?t = "s\<lparr>r_drain := Some d\<rparr>"
  have d: "drain_inv F m (x # d)" using inv out Cons by (simp add: range_inv_def)
  then have "same_gen (fetched_gen F) (set d)" "below (fetched_gen F) (nodes_of m) (set d)"
    by (auto intro: same_gen_mono below_mono)
  then have "range_inv F K z ?t" using d out by (simp add: range_inv_def)
  moreover have "(?t, s) \<in> range_rel" using Cons out by (simp add: range_rel_def)
  moreover have "range_spec F s (x # xs)" if "range_spec F ?t xs" for xs
    using that drain_step [OF d, of xs] out Cons by (simp add: range_spec_def)
  ultimately show ?thesis using Cons by (simp add: range_iter_def)
next
  case Nil
  have ok: "generations_ok (fetched_gen F) m" using inv out Nil by (simp add: range_inv_def)
  show ?thesis
  proof (cases "maximum (map fst m)")
    case None
    then have "m = []" by (cases m) (simp_all add: maximum_def)
    then show ?thesis using Nil out None by (simp add: range_iter_def range_spec_def nodes_of_def)
  next
    case (Some v)
    have v: "v \<in> dom (map_of m)" "\<forall>w \<in> dom (map_of m). w \<le> v" using maximum_heads [OF Some] by (simp_all add: dom_map_of_conv_image_fst)
    then obtain S where S: "map_of m v = Some S" by blast
    have Sok: "S \<noteq> {}" "finite S" "\<forall>c \<in> S. fetched_gen F c = v" using ok S by (auto simp: generations_ok_def)
    have ho: "set (ho S) = S" "distinct (ho S)" using hash Sok(2) by (auto simp: hash_order_def)
    then obtain x d where xd: "ho S = x # d" using Sok(1) by (cases "ho S") auto
    note rem = generation_remove_ok [OF ok S]
    let ?t = "s\<lparr>r_output_nodes := Some (btm_remove v m), r_drain := Some d\<rparr>"
    have S_eq: "S = insert x (set d)" using ho(1) xd by auto
    have "fetched_gen F c < v" if "c \<in> nodes_of (btm_remove v m)" for c
      using rem(4) [OF that] bspec [OF v(2), of "fetched_gen F c"] by (simp add: le_less)
    then have inv': "drain_inv F (btm_remove v m) (x # d)"
      using rem(1) ho(2) xd Sok(3) S_eq by (auto simp: same_gen_def below_def)
    then have "same_gen (fetched_gen F) (set d)" "below (fetched_gen F) (nodes_of (btm_remove v m)) (set d)"
      by (auto intro: same_gen_mono below_mono)
    then have "range_inv F K z ?t" using inv' by (simp add: range_inv_def)
    moreover have "card (dom (map_of (btm_remove v m))) < card (dom (map_of m))"
      unfolding rem(2) by (intro card_Diff1_less finite_dom_map_of v(1))
    then have "(?t, s) \<in> range_rel" using out by (simp add: range_rel_def)
    moreover have "range_spec F s (x # xs)" if "range_spec F ?t xs" for xs
      using that drain_step [OF inv', of xs] out Nil rem(3) S_eq by (simp add: range_spec_def)
    ultimately show ?thesis using Nil out Some S xd by (simp add: range_iter_def)
  qed
qed

lemma poll_repeat_cases:
  assumes "\<forall>e. Fail e \<notin> set s" "items s = [g]"
  obtains s' where "s = Pending # s'" | s' where "s = Item g # s'"
proof (cases s)
  case (Cons ev s')
  then show ?thesis using assms that by (cases ev) auto
qed (use assms in simp)

lemma range_poll_step:
  assumes inv: "range_inv F K z s" and io: "only_delays io" and hash: "hash_order hg" and out: "r_output_nodes s = None"
  shows "stream_step_ok (range_inv F K z) range_rel (range_spec F) s (fst (range_iter F io ho hg s)) (snd (range_iter F io ho hg s))"
proof -
  have w: "walk_inv F K z s" using inv out by (simp add: range_inv_def)
  then have d: "drained (r_drain s) = []" and g: "\<forall>e. Fail e \<notin> set (r_start_generation s)"
    "items (r_start_generation s) = [fetched_gen F (r_start_node s)]" by (simp_all add: walk_inv_def)
  from g show ?thesis
  proof (cases rule: poll_repeat_cases)
    case (1 s')
    then show ?thesis using d out w by (simp add: range_iter_def range_inv_def walk_inv_def range_rel_def range_spec_def r_edges_def)
  next
    case (2 s')
    show ?thesis
    proof (cases "r_pending_nodes s")
      case Nil
      obtain m where "build_output_nodes hg s (fetched_gen F (r_start_node s)) = Some m" "generations_ok (fetched_gen F) m"
         "nodes_of m = r_reached (r_edges F s) (r_start_node s)"
        using build_output_ok [OF w hash] Nil by auto
      then show ?thesis using d out w Nil 2
        by (simp add: range_iter_def range_inv_def range_rel_def range_spec_def walk_inv_def same_gen_def below_def)
    next
      case (Cons ev p)
      show ?thesis
      proof (cases ev)
        case Pending
        then show ?thesis using d out w 2 Cons
          by (simp add: range_iter_def range_inv_def walk_inv_def range_rel_def range_spec_def r_edges_def)
      next
        case (Item x)
        let ?t = "range_walk F io (fetched_gen F (r_start_node s)) x (s\<lparr>r_pending_nodes := p\<rparr>)"
        have iter: "range_iter F io ho hg s = (None, ?t)"
          using d out 2 Cons Item by (simp add: range_iter_def range_walk_def)
        note t = range_walk_step [OF w io _ out, of x p, OF Cons [unfolded Item]]
        show ?thesis using t out unfolding iter by (simp add: range_inv_def range_spec_def)
      next
        case (Fail e)
        then show ?thesis using w Cons by (auto simp: walk_inv_def)
      qed
    qed
  qed
qed

lemma range_step:
  assumes "range_inv F K z s" "only_delays io" "hash_order hg" "hash_order ho"
  shows "stream_step_ok (range_inv F K z) range_rel (range_spec F) s (fst (range_iter F io ho hg s)) (snd (range_iter F io ho hg s))"
  using range_poll_step [OF assms(1-3)] range_drain_step [OF assms(1,4)] by (cases "r_output_nodes s") auto

lemma range_new_inv:
  assumes "c \<in> K" "z \<in> K" "only_delays io_start" "only_delays io"
  shows "range_inv F K z (range_new F io_start io c z)"
    and "r_edges F (range_new F io_start io c z) = (\<Union>p \<in> set (fetched_parents F z). edges_of F (fetched_gen F c) (p, z))"
proof -
  have new: "range_new F io_start io c z =
     \<lparr>r_start_node = c, r_start_generation = io_start [Item (fetched_gen F c)], r_children = [],
      r_pending_nodes = io (range_make_pending F io (hg_of F z)), r_output_nodes = None, r_drain = None\<rparr>"
    using gen_known assms(1,2) by (simp add: range_new_def hg_of_def)
  have start: "items (io_start [Item (fetched_gen F c)]) = [fetched_gen F c]" "Fail e \<notin> set (io_start [Item (fetched_gen F c)])" for e
    using only_delays [OF assms(3), where s = "[Item (fetched_gen F c)]"] by simp_all
  have pend: "items (io (range_make_pending F io (hg_of F z))) = map (\<lambda>p. pc_of F (p, z)) (fetched_parents F z)"
    "Fail e \<notin> set (io (range_make_pending F io (hg_of F z)))" for e
    using only_delays [OF assms(4), where s = "range_make_pending F io (hg_of F z)"] range_pending_ok [OF assms(4,2)] by simp_all
  show "range_inv F K z (range_new F io_start io c z)"
    unfolding new using assms(1,2) start pend ancestor_step(1)
    by (auto simp: range_inv_def walk_inv_def edge_ok_def child_edges_def)
  show "r_edges F (range_new F io_start io c z) = (\<Union>p \<in> set (fetched_parents F z). edges_of F (fetched_gen F c) (p, z))"
    unfolding new using pend by (simp add: r_edges_def hash_edges_def child_edges_def)
qed

lemma range_reached:
  assumes "c \<in> K" "z \<in> K"
  defines "E \<equiv> \<Union>p \<in> set (fetched_parents F z). edges_of F (fetched_gen F c) (p, z)"
  shows "r_reached E c = (if fetched_parents F z = [] \<or> fetched_gen F z < fetched_gen F c then {}
     else insert c {x \<in> ancestors F z. c \<in> ancestors F x})"
proof -
  have E: "(q, d) \<in> E \<longleftrightarrow> d \<in> ancestors F z \<and> q \<in> set (fetched_parents F d) \<and>
      (fetched_gen F c < fetched_gen F d \<or> d = z \<and> fetched_gen F c \<le> fetched_gen F z)" for q d
  proof
    assume "(q, d) \<in> E"
    then obtain p where p: "p \<in> set (fetched_parents F z)" "(q, d) \<in> edges_of F (fetched_gen F c) (p, z)" by (auto simp: E_def)
    then show "d \<in> ancestors F z \<and> q \<in> set (fetched_parents F d) \<and>
      (fetched_gen F c < fetched_gen F d \<or> d = z \<and> fetched_gen F c \<le> fetched_gen F z)"
      using ancestor_step(1) ancestor_step(2) [OF p(1), of d] by (auto simp: edges_of_def edges_above_def split: if_splits)
  next
    assume d: "d \<in> ancestors F z \<and> q \<in> set (fetched_parents F d) \<and>
      (fetched_gen F c < fetched_gen F d \<or> d = z \<and> fetched_gen F c \<le> fetched_gen F z)"
    show "(q, d) \<in> E"
    proof (cases "d = z")
      case False
      then obtain p where "p \<in> set (fetched_parents F z)" "d \<in> ancestors F p" using d ancestors_unfold [of z] by auto
      then show ?thesis using d False by (auto simp: E_def edges_of_def edges_above_def)
    qed (use d in \<open>auto simp: E_def edges_of_def\<close>)
  qed
  have empty: "E = {} \<longleftrightarrow> fetched_parents F z = [] \<or> fetched_gen F z < fetched_gen F c"
  proof
    assume none: "E = {}"
    have "\<not> (q \<in> set (fetched_parents F z) \<and> fetched_gen F c \<le> fetched_gen F z)" for q
      using E [of q z] none ancestor_step(1) [of z] by auto
    then show "fetched_parents F z = [] \<or> fetched_gen F z < fetched_gen F c"
      by (metis linorder_not_less list.set_intros(1) neq_Nil_conv)
  next
    assume none: "fetched_parents F z = [] \<or> fetched_gen F z < fetched_gen F c"
    then show "E = {}"
    proof
      assume lt: "fetched_gen F z < fetched_gen F c"
      have "(q, d) \<notin> E" for q d using E [of q d] ancestor_le [OF assms(2), of d] lt by auto
      then show "E = {}" by auto
    qed (simp add: E_def)
  qed
  have "x = c \<or> x \<in> ancestors F z \<and> c \<in> ancestors F x" if "(c, x) \<in> E\<^sup>*" for x
    using that
  proof (induction rule: rtrancl_induct)
    case (step x y)
    then show ?case using E [of x y] ancestor_step by blast
  qed simp
  moreover have "(c, x) \<in> E\<^sup>*" if "x \<in> ancestors F z" "c \<in> ancestors F x" for x
  proof -
    have "(x, c) \<in> (parent_edges F)\<^sup>*" using that(2) by (simp add: ancestors_def)
    then show ?thesis using that(1)
    proof (induction rule: converse_rtrancl_induct)
      case (step x p)
      have p: "p \<in> set (fetched_parents F x)" using step.hyps(1) by (simp add: parent_edges_def)
      have x: "x \<in> K" using ancestor_facts(1) [OF assms(2) step.prems] .
      have "c \<in> ancestors F p" using step.hyps(2) by (simp add: ancestors_def)
      then have "fetched_gen F c < fetched_gen F x"
        using ancestor_le [OF parents_closed [OF x p]] gen_parent [OF x p] by fastforce
      then have "(p, x) \<in> E" using E [of p x] step.prems p by blast
      moreover have "p \<in> ancestors F z" using ancestors_trans [OF step.prems ancestor_step(2) [OF p ancestor_step(1)]] .
      ultimately show ?case using step.IH by (blast intro: rtrancl_into_rtrancl)
    qed simp
  qed
  ultimately have "E\<^sup>* `` {c} = insert c {x \<in> ancestors F z. c \<in> ancestors F x}" by blast
  then show ?thesis using empty by (simp add: r_reached_def)
qed

end

interpretation rns: stream_iteration "range_iter F io ho hg"
    "\<lambda>s. commit_graph F K \<and> only_delays io \<and> hash_order hg \<and> hash_order ho \<and> range_inv F K z s" range_rel "range_spec F"
  for F :: "'c ChangesetFetcher" and K io ho hg z
proof
  fix s :: "'c RangeNodeStream"
  assume inv: "commit_graph F K \<and> only_delays io \<and> hash_order hg \<and> hash_order ho \<and> range_inv F K z s"
  then have "stream_step_ok (range_inv F K z) range_rel (range_spec F) s
     (fst (range_iter F io ho hg s)) (snd (range_iter F io ho hg s))" by (elim conjE) (rule commit_graph.range_step)
  with inv show "stream_step_ok (\<lambda>s. commit_graph F K \<and> only_delays io \<and> hash_order hg \<and> hash_order ho \<and> range_inv F K z s) range_rel
     (range_spec F) s (fst (range_iter F io ho hg s)) (snd (range_iter F io ho hg s))"
    by (auto intro: stream_step_ok_weaken)
qed (rule wf_range_rel)

definition in_range :: "'c ChangesetFetcher \<Rightarrow> 'c \<Rightarrow> 'c \<Rightarrow> 'c set" where
  "in_range F c z = (if fetched_parents F z = [] \<or> fetched_gen F z < fetched_gen F c then {}
     else insert c {x \<in> ancestors F z. c \<in> ancestors F x})"

lemma range_finish:
  assumes "commit_graph F K" "c \<in> K" "z \<in> K" "only_delays io_start" "only_delays io" "hash_order hg" "hash_order ho"
  shows "\<exists>N xs. (\<forall>n \<ge> N. drive n (range_iter F io ho hg) (range_new F io_start io c z) = Some (Inr xs)) \<and>
     distinct xs \<and> sorted_wrt (\<lambda>a b. fetched_gen F b \<le> fetched_gen F a) xs \<and> set xs = in_range F c z"
proof -
  let ?s = "range_new F io_start io c z"
  note new = commit_graph.range_new_inv [OF assms(1-5)] and reached = commit_graph.range_reached [OF assms(1-3)]
  have s: "r_start_node ?s = c" "r_output_nodes ?s = None" by (simp_all add: range_new_def)
  have "commit_graph F K \<and> only_delays io \<and> hash_order hg \<and> hash_order ho \<and> range_inv F K z ?s" using assms new(1) by blast
  from rns.drive_finishes [OF this] show ?thesis
    unfolding range_spec_def in_range_def s new(2) option.case reached by blast
qed

text \<open>C19: the range between two changesets that the store has. The stream finishes without an error,
  however its fetches are delayed, although it keeps no set of visited changesets. When the end has a
  parent and no lower generation than the start, it returns the start and exactly the ancestors of the
  end that have the start as an ancestor, each once, highest generations first; otherwise it returns
  nothing. So a start that is not an ancestor of the end is returned alone.\<close>

theorem range_correct:
  assumes "db_ok db" "view db repo c \<noteq> None" "view db repo z \<noteq> None" "only_delays io_start" "only_delays io"
    "hash_order hg" "hash_order ho"
  shows "\<exists>N xs. (\<forall>n \<ge> N. drive n (range_iter (sql_fetcher db repo) io ho hg)
       (range_new (sql_fetcher db repo) io_start io c z) = Some (Inr xs)) \<and>
     distinct xs \<and> sorted_wrt (\<lambda>a b. fetched_gen (sql_fetcher db repo) b \<le> fetched_gen (sql_fetcher db repo) a) xs \<and>
     set xs = (if fetched_parents (sql_fetcher db repo) z = [] \<or>
          fetched_gen (sql_fetcher db repo) z < fetched_gen (sql_fetcher db repo) c then {}
        else insert c {x \<in> ancestors (sql_fetcher db repo) z. c \<in> ancestors (sql_fetcher db repo) x})"
  using range_finish [OF sqlg.commit_graph_axioms, of c db repo z io_start io hg ho] assms
  by (auto simp: known_in_def in_range_def)

text \<open>One order in which a hash set of nodes may be drained.\<close>

definition hash_gens :: "nat HashGen set \<Rightarrow> nat HashGen list" where
  "hash_gens S = map (\<lambda>n. \<lparr>hg_hash = fst (prod_decode n), hg_generation = snd (prod_decode n)\<rparr>)
     (sorted_list_of_set ((\<lambda>x. prod_encode (hg_hash x, hg_generation x)) ` S))"

lemma hash_order_hash_gens: "hash_order hash_gens"
proof -
  have "inj (\<lambda>n. \<lparr>hg_hash = fst (prod_decode n), hg_generation = snd (prod_decode n)\<rparr>)"
    by (auto simp: inj_def prod_eq_iff [symmetric] dest: injD [OF inj_prod_decode])
  moreover have "set (hash_gens S) = S" if "finite S" for S
  proof -
    have "set (hash_gens S) = (\<lambda>x. \<lparr>hg_hash = hg_hash x, hg_generation = hg_generation x\<rparr>) ` S"
      using that by (simp add: hash_gens_def image_image)
    also have "\<dots> = (\<lambda>x. x) ` S" by (rule image_cong) simp_all
    finally show ?thesis by simp
  qed
  ultimately show ?thesis by (simp add: hash_order_def) (simp add: hash_gens_def distinct_map inj_on_subset)
qed

theorem range_correct_witness:
  "\<exists>N xs. (\<forall>n \<ge> N. drive n (range_iter (sql_fetcher sample_db 0) id sorted_list_of_set hash_gens)
       (range_new (sql_fetcher sample_db 0) ((#) Pending) id 7 8) = Some (Inr xs)) \<and> distinct xs \<and> set xs = {7, 8}"
proof -
  have known: "view sample_db 0 7 \<noteq> None" "view sample_db 0 8 \<noteq> None" by (simp_all add: sample_db_code)
  have delays: "only_delays ((#) Pending)" "only_delays id" by (simp_all add: only_delays_def)
  have range: "(if fetched_parents (sql_fetcher sample_db 0) 8 = [] \<or>
          fetched_gen (sql_fetcher sample_db 0) 8 < fetched_gen (sql_fetcher sample_db 0) 7 then {}
        else insert 7 {x \<in> ancestors (sql_fetcher sample_db 0) 8. 7 \<in> ancestors (sql_fetcher sample_db 0) x}) = {7, 8}"
    by (auto simp: sample_ancestors sample_fetched)
  show ?thesis using range_correct [OF sample_db_ok known delays hash_order_hash_gens hash_order_sorted] unfolding range by blast
qed

end
