(* ===== verification/Blobstores.thy ===== *)
theory Blobstores
  imports Hashes
begin

text \<open>
  Blobstores: the trait of \<open>src/blobstore/src/lib.rs\<close> with its contract, and the stores that need no
  other service: \<open>memblob\<close>, \<open>prefixblob\<close>, the in-memory writes of \<open>cacheblob\<close>, and the counting
  wrapper.

  A store is a record of operations on an explicit state; a request may fail with an error. The contract
  is the locale \<open>blobstore\<close>. It is what the comment of the trait promises, and it assumes what the
  comment lets implementations assume: that one key is only ever given one value.
\<close>

section \<open>The trait\<close>

datatype blob_error =
    BlobNotFound bytes
  | BackendError string
  | SomeFailedOthersNone "(nat \<times> blob_error) list"
  | AllFailed "(nat \<times> blob_error) list"

record 's Blobstore =
  bs_get :: "bytes \<Rightarrow> 's \<Rightarrow> (blob_error + bytes option) \<times> 's"
  bs_put :: "bytes \<Rightarrow> bytes \<Rightarrow> 's \<Rightarrow> (blob_error + unit) \<times> 's"
  bs_is_present :: "bytes \<Rightarrow> 's \<Rightarrow> (blob_error + bool) \<times> 's"

text \<open>The implementations of \<open>is_present\<close> and \<open>assert_present\<close> that the trait provides.\<close>

definition is_present_default :: "('s \<Rightarrow> (blob_error + bytes option) \<times> 's) \<Rightarrow> 's \<Rightarrow> (blob_error + bool) \<times> 's" where
  "is_present_default get s = (case get s of (r, s') \<Rightarrow> (map_ok (\<lambda>opt. opt \<noteq> None) r, s'))"

definition assert_present :: "'s Blobstore \<Rightarrow> bytes \<Rightarrow> 's \<Rightarrow> (blob_error + unit) \<times> 's" where
  "assert_present B key s =
     (case bs_is_present B key s of
        (r, s') \<Rightarrow> (and_then r (\<lambda>present. if present then Inr () else Inl (BlobNotFound key)), s'))"

section \<open>Implementations\<close>

type_synonym memblob = "bytes \<rightharpoonup> bytes"

definition EagerMemblob_get :: "bytes \<Rightarrow> memblob \<Rightarrow> (blob_error + bytes option) \<times> memblob" where
  "EagerMemblob_get key hash = (Inr (hash key), hash)"

definition EagerMemblob_put :: "bytes \<Rightarrow> bytes \<Rightarrow> memblob \<Rightarrow> (blob_error + unit) \<times> memblob" where
  "EagerMemblob_put key value hash = (Inr (), hash(key \<mapsto> value))"

definition EagerMemblob :: "memblob Blobstore" where
  "EagerMemblob = \<lparr>bs_get = EagerMemblob_get, bs_put = EagerMemblob_put,
     bs_is_present = \<lambda>key. is_present_default (EagerMemblob_get key)\<rparr>"

definition EagerMemblob_new :: memblob where
  "EagerMemblob_new = Map.empty"

text \<open>A \<open>LazyMemblob\<close> does the same when its futures are polled: a request that has not been polled has
  not happened.\<close>

datatype blob_request = GetRequest bytes | PutRequest bytes bytes

fun LazyMemblob_poll :: "blob_request \<Rightarrow> memblob \<Rightarrow> (blob_error + bytes option) \<times> memblob" where
  "LazyMemblob_poll (GetRequest key) hash = (Inr (hash key), hash)"
| "LazyMemblob_poll (PutRequest key value) hash = (Inr None, hash(key \<mapsto> value))"

definition prepend :: "bytes \<Rightarrow> bytes \<Rightarrow> bytes" where
  "prepend prefx key = concat [prefx, key]"

definition PrefixBlobstore :: "bytes \<Rightarrow> 's Blobstore \<Rightarrow> 's Blobstore" where
  "PrefixBlobstore prefx B =
     \<lparr>bs_get = \<lambda>key. bs_get B (prepend prefx key),
      bs_put = \<lambda>key. bs_put B (prepend prefx key),
      bs_is_present = \<lambda>key. bs_is_present B (prepend prefx key)\<rparr>"

definition MemWrites_is_present :: "'s Blobstore \<Rightarrow> bytes \<Rightarrow> 's \<times> memblob \<Rightarrow> (blob_error + bool) \<times> 's \<times> memblob" where
  "MemWrites_is_present B key s =
     (case bs_is_present EagerMemblob key (snd s) of
        (Inl e, m) \<Rightarrow> (Inl e, fst s, m)
      | (Inr True, m) \<Rightarrow> (Inr True, fst s, m)
      | (Inr False, m) \<Rightarrow> (case bs_is_present B key (fst s) of (r, i) \<Rightarrow> (r, i, m)))"

definition MemWrites_get :: "'s Blobstore \<Rightarrow> bytes \<Rightarrow> 's \<times> memblob \<Rightarrow> (blob_error + bytes option) \<times> 's \<times> memblob" where
  "MemWrites_get B key s =
     (case bs_get EagerMemblob key (snd s) of
        (Inl e, m) \<Rightarrow> (Inl e, fst s, m)
      | (Inr (Some val), m) \<Rightarrow> (Inr (Some val), fst s, m)
      | (Inr None, m) \<Rightarrow> (case bs_get B key (fst s) of (r, i) \<Rightarrow> (r, i, m)))"

definition MemWrites_put :: "'s Blobstore \<Rightarrow> bytes \<Rightarrow> bytes \<Rightarrow> 's \<times> memblob \<Rightarrow> (blob_error + unit) \<times> 's \<times> memblob" where
  "MemWrites_put B key value s =
     (case MemWrites_is_present B key s of
        (Inl e, s') \<Rightarrow> (Inl e, s')
      | (Inr True, s') \<Rightarrow> (Inr (), s')
      | (Inr False, i, m) \<Rightarrow> (case bs_put EagerMemblob key value m of (r, m') \<Rightarrow> (r, i, m')))"

definition MemWritesBlobstore :: "'s Blobstore \<Rightarrow> ('s \<times> memblob) Blobstore" where
  "MemWritesBlobstore B =
     \<lparr>bs_get = MemWrites_get B, bs_put = MemWrites_put B, bs_is_present = MemWrites_is_present B\<rparr>"

text \<open>The counters of a \<open>CountedBlobstore\<close>, each a number of calls and of their results.\<close>

record blob_stats =
  st_get :: nat
  st_get_miss :: nat
  st_get_hit :: nat
  st_get_err :: nat
  st_put :: nat
  st_put_ok :: nat
  st_put_err :: nat
  st_is_present :: nat
  st_is_present_miss :: nat
  st_is_present_hit :: nat
  st_is_present_err :: nat

fun count_get :: "blob_error + bytes option \<Rightarrow> blob_stats \<Rightarrow> blob_stats" where
  "count_get (Inr (Some _)) st = st\<lparr>st_get_hit := st_get_hit st + 1\<rparr>"
| "count_get (Inr None) st = st\<lparr>st_get_miss := st_get_miss st + 1\<rparr>"
| "count_get (Inl _) st = st\<lparr>st_get_err := st_get_err st + 1\<rparr>"

fun count_put :: "blob_error + unit \<Rightarrow> blob_stats \<Rightarrow> blob_stats" where
  "count_put (Inr ()) st = st\<lparr>st_put_ok := st_put_ok st + 1\<rparr>"
| "count_put (Inl _) st = st\<lparr>st_put_err := st_put_err st + 1\<rparr>"

fun count_is_present :: "blob_error + bool \<Rightarrow> blob_stats \<Rightarrow> blob_stats" where
  "count_is_present (Inr True) st = st\<lparr>st_is_present_hit := st_is_present_hit st + 1\<rparr>"
| "count_is_present (Inr False) st = st\<lparr>st_is_present_miss := st_is_present_miss st + 1\<rparr>"
| "count_is_present (Inl _) st = st\<lparr>st_is_present_err := st_is_present_err st + 1\<rparr>"

definition CountedBlobstore :: "'s Blobstore \<Rightarrow> ('s \<times> blob_stats) Blobstore" where
  "CountedBlobstore B =
     \<lparr>bs_get = \<lambda>key s. (case bs_get B key (fst s) of
         (res, i) \<Rightarrow> (res, i, count_get res ((snd s)\<lparr>st_get := st_get (snd s) + 1\<rparr>))),
      bs_put = \<lambda>key value s. (case bs_put B key value (fst s) of
         (res, i) \<Rightarrow> (res, i, count_put res ((snd s)\<lparr>st_put := st_put (snd s) + 1\<rparr>))),
      bs_is_present = \<lambda>key s. (case bs_is_present B key (fst s) of
         (res, i) \<Rightarrow> (res, i, count_is_present res ((snd s)\<lparr>st_is_present := st_is_present (snd s) + 1\<rparr>)))\<rparr>"

section \<open>The contract\<close>

text \<open>\<open>contents s\<close> is what the store holds. An operation that fails leaves the store as it was or does its
  work; a \<open>put\<close> is only promised anything for the one value of its key.\<close>

locale blobstore =
  fixes B :: "'s Blobstore" and contents :: "'s \<Rightarrow> bytes \<rightharpoonup> bytes" and well :: "'s \<Rightarrow> bool"
  assumes get_ok: "well s \<Longrightarrow> bs_get B k s = (r, s') \<Longrightarrow>
      well s' \<and> contents s' = contents s \<and> (\<forall>v. r = Inr v \<longrightarrow> v = contents s k)"
    and is_present_ok: "well s \<Longrightarrow> bs_is_present B k s = (p, s') \<Longrightarrow>
      well s' \<and> contents s' = contents s \<and> (\<forall>b. p = Inr b \<longrightarrow> b = (contents s k \<noteq> None))"
    and put_ok: "well s \<Longrightarrow> bs_put B k v s = (q, s') \<Longrightarrow> contents s k = None \<or> contents s k = Some v \<Longrightarrow>
      well s' \<and> (contents s' = (contents s)(k \<mapsto> v) \<or> contents s' = contents s \<and> q \<noteq> Inr ())"

datatype blob_op = GetOp bytes | PutOp bytes bytes | IsPresentOp bytes
datatype blob_answer = Got "blob_error + bytes option" | Stored "blob_error + unit" | Present "blob_error + bool"

fun run_op :: "'s Blobstore \<Rightarrow> blob_op \<Rightarrow> 's \<Rightarrow> blob_answer \<times> 's" where
  "run_op B (GetOp k) s = map_prod Got (\<lambda>x. x) (bs_get B k s)"
| "run_op B (PutOp k v) s = map_prod Stored (\<lambda>x. x) (bs_put B k v s)"
| "run_op B (IsPresentOp k) s = map_prod Present (\<lambda>x. x) (bs_is_present B k s)"

fun run_ops :: "'s Blobstore \<Rightarrow> blob_op list \<Rightarrow> 's \<Rightarrow> blob_answer list \<times> 's" where
  "run_ops B [] s = ([], s)"
| "run_ops B (op # ops) s = (case run_op B op s of (a, s1) \<Rightarrow> case run_ops B ops s1 of (as, s') \<Rightarrow> (a # as, s'))"

text \<open>Every key has one value in the whole run, and what the store holds agrees with it.\<close>

fun op_keeps :: "(bytes \<Rightarrow> bytes) \<Rightarrow> blob_op \<Rightarrow> bool" where
  "op_keeps val (PutOp k v) \<longleftrightarrow> v = val k"
| "op_keeps val _ \<longleftrightarrow> True"

definition holds :: "(bytes \<Rightarrow> bytes) \<Rightarrow> (bytes \<rightharpoonup> bytes) \<Rightarrow> bool" where
  "holds val m \<longleftrightarrow> (\<forall>k v. m k = Some v \<longrightarrow> v = val k)"

text \<open>What an answer says: a request that succeeded tells the truth, and a \<open>put\<close> that succeeded stays.\<close>

fun answers :: "(bytes \<Rightarrow> bytes) \<Rightarrow> bytes set \<Rightarrow> blob_op \<Rightarrow> blob_answer \<Rightarrow> bool" where
  "answers val D (GetOp k) a \<longleftrightarrow> (\<forall>v. a = Got (Inr v) \<longrightarrow> v = None \<and> k \<notin> D \<or> v = Some (val k))"
| "answers val D (IsPresentOp k) a \<longleftrightarrow> (a = Present (Inr False) \<longrightarrow> k \<notin> D)"
| "answers val D (PutOp k v) a \<longleftrightarrow> True"

fun stored_by :: "blob_op \<Rightarrow> blob_answer \<Rightarrow> bytes set" where
  "stored_by (PutOp k v) (Stored (Inr ())) = {k}"
| "stored_by _ _ = {}"

fun run_answers :: "(bytes \<Rightarrow> bytes) \<Rightarrow> bytes set \<Rightarrow> blob_op list \<Rightarrow> blob_answer list \<Rightarrow> bool" where
  "run_answers val D (op # ops) (a # as) \<longleftrightarrow> answers val D op a \<and> run_answers val (D \<union> stored_by op a) ops as"
| "run_answers val D [] [] \<longleftrightarrow> True"
| "run_answers val D _ _ \<longleftrightarrow> False"

context blobstore
begin

lemma run_op_ok:
  assumes "well s" "holds val (contents s)" "op_keeps val op" "run_op B op s = (a, s')" "D \<subseteq> dom (contents s)"
  shows "well s' \<and> holds val (contents s') \<and> answers val D op a \<and> D \<union> stored_by op a \<subseteq> dom (contents s')"
proof (cases op)
  case (GetOp k)
  then obtain r where a: "a = Got r" "bs_get B k s = (r, s')" using assms(4) by (cases "bs_get B k s") auto
  show ?thesis using get_ok [OF assms(1) a(2)] assms(2,5) GetOp a(1) by (cases "contents s k") (auto simp: holds_def)
next
  case (PutOp k v)
  then obtain q where a: "a = Stored q" "bs_put B k v s = (q, s')" using assms(4) by (cases "bs_put B k v s") auto
  have "contents s k = None \<or> contents s k = Some v" using assms(2,3) PutOp by (cases "contents s k") (auto simp: holds_def)
  from put_ok [OF assms(1) a(2) this] show ?thesis
    using assms(2,3,5) PutOp a(1) by (cases q) (auto simp: holds_def split: if_splits)
next
  case (IsPresentOp k)
  then obtain p where a: "a = Present p" "bs_is_present B k s = (p, s')" using assms(4) by (cases "bs_is_present B k s") auto
  show ?thesis using is_present_ok [OF assms(1) a(2)] assms(2,5) IsPresentOp a(1) by (auto simp: holds_def)
qed

lemma run_ops_answers:
  assumes "well s" "holds val (contents s)" "\<forall>op \<in> set ops. op_keeps val op" "D \<subseteq> dom (contents s)"
  shows "run_answers val D ops (fst (run_ops B ops s))"
  using assms
proof (induction ops arbitrary: s D)
  case (Cons op ops)
  obtain a s1 where op: "run_op B op s = (a, s1)" by (cases "run_op B op s")
  have keeps: "op_keeps val op" "\<forall>op \<in> set ops. op_keeps val op" using Cons.prems(3) by simp_all
  note step = run_op_ok [OF Cons.prems(1,2) keeps(1) op Cons.prems(4)]
  then have "run_answers val (D \<union> stored_by op a) ops (fst (run_ops B ops s1))" using Cons.IH [OF _ _ keeps(2)] by blast
  then show ?case using op step by (auto simp: case_prod_unfold)
qed simp

lemma assert_present_ok:
  assumes "well s" "assert_present B k s = (r, s')"
  shows "r = Inr () \<Longrightarrow> contents s k \<noteq> None" "r = Inl (BlobNotFound k) \<Longrightarrow>
     bs_is_present B k s \<noteq> (Inl (BlobNotFound k), s') \<Longrightarrow> contents s k = None"
proof -
  obtain p t where p: "bs_is_present B k s = (p, t)" by (cases "bs_is_present B k s")
  note ok = is_present_ok [OF assms(1) p]
  show "r = Inr () \<Longrightarrow> contents s k \<noteq> None"
    using ok p assms(2) by (auto simp: assert_present_def result_simps split: if_splits)
  show "r = Inl (BlobNotFound k) \<Longrightarrow> bs_is_present B k s \<noteq> (Inl (BlobNotFound k), s') \<Longrightarrow> contents s k = None"
    using ok p assms(2) by (auto simp: assert_present_def result_simps split: if_splits)
qed

end

section \<open>The implementations keep the contract\<close>

interpretation mem: blobstore EagerMemblob "\<lambda>hash. hash" "\<lambda>_. True"
  by unfold_locales (auto simp: EagerMemblob_def EagerMemblob_get_def EagerMemblob_put_def is_present_default_def)

lemma prefix_blobstore:
  assumes "blobstore B contents well"
  shows "blobstore (PrefixBlobstore p B) (\<lambda>s k. contents s (prepend p k)) well"
proof -
  have upd: "(\<lambda>k'. (m(prepend p k \<mapsto> v)) (prepend p k')) = (\<lambda>k'. m (prepend p k'))(k \<mapsto> v)" for m :: memblob and k v
    by (simp add: fun_eq_iff prepend_def)
  show ?thesis
  proof
    fix s k v r q b s'
    assume w: "well s"
    show "bs_get (PrefixBlobstore p B) k s = (r, s') \<Longrightarrow>
      well s' \<and> (\<lambda>k. contents s' (prepend p k)) = (\<lambda>k. contents s (prepend p k)) \<and> (\<forall>v. r = Inr v \<longrightarrow> v = contents s (prepend p k))"
      using blobstore.get_ok [OF assms w, of "prepend p k"] by (auto simp: PrefixBlobstore_def)
    show "bs_is_present (PrefixBlobstore p B) k s = (b, s') \<Longrightarrow>
      well s' \<and> (\<lambda>k. contents s' (prepend p k)) = (\<lambda>k. contents s (prepend p k)) \<and> (\<forall>c. b = Inr c \<longrightarrow> c = (contents s (prepend p k) \<noteq> None))"
      using blobstore.is_present_ok [OF assms w, of "prepend p k"] by (auto simp: PrefixBlobstore_def)
    assume put: "bs_put (PrefixBlobstore p B) k v s = (q, s')" "contents s (prepend p k) = None \<or> contents s (prepend p k) = Some v"
    have "bs_put B (prepend p k) v s = (q, s')" using put(1) by (simp add: PrefixBlobstore_def)
    from blobstore.put_ok [OF assms w this put(2)] show
      "well s' \<and> ((\<lambda>k. contents s' (prepend p k)) = (\<lambda>k. contents s (prepend p k))(k \<mapsto> v) \<or>
        (\<lambda>k. contents s' (prepend p k)) = (\<lambda>k. contents s (prepend p k)) \<and> q \<noteq> Inr ())" using upd by auto
  qed
qed

definition mw_contents :: "('s \<Rightarrow> bytes \<rightharpoonup> bytes) \<Rightarrow> 's \<times> memblob \<Rightarrow> bytes \<rightharpoonup> bytes" where
  "mw_contents contents s = contents (fst s) ++ snd s"

lemma mw_present:
  assumes "blobstore B contents well" "well (fst s)" "MemWrites_is_present B k s = (r, s')"
  shows "well (fst s')" "contents (fst s') = contents (fst s)" "snd s' = snd s" "r = Inr b \<Longrightarrow> b = (mw_contents contents s k \<noteq> None)"
proof -
  obtain i m where s: "s = (i, m)" by fastforce
  obtain p i' where p: "bs_is_present B k i = (p, i')" by (cases "bs_is_present B k i")
  have ok: "well i' \<and> contents i' = contents i \<and> (\<forall>b. p = Inr b \<longrightarrow> b = (contents i k \<noteq> None))"
    using blobstore.is_present_ok [OF assms(1) _ p] assms(2) s by simp
  show "well (fst s')" "contents (fst s') = contents (fst s)" "snd s' = snd s" "r = Inr b \<Longrightarrow> b = (mw_contents contents s k \<noteq> None)"
    using assms(2,3) ok p
    by (auto simp: s MemWrites_is_present_def EagerMemblob_def is_present_default_def EagerMemblob_get_def mw_contents_def map_add_def
        split: option.splits bool.splits if_splits)
qed

lemma mw_put:
  assumes "blobstore B contents well" "well (fst s)" "MemWrites_put B k v s = (q, s')"
  shows "well (fst s') \<and> contents (fst s') = contents (fst s) \<and>
     (mw_contents contents s k = None \<or> mw_contents contents s k = Some v \<longrightarrow>
       mw_contents contents s' = (mw_contents contents s)(k \<mapsto> v) \<or> mw_contents contents s' = mw_contents contents s \<and> q \<noteq> Inr ())"
proof -
  obtain r t where r: "MemWrites_is_present B k s = (r, t)" by (cases "MemWrites_is_present B k s")
  note ok = mw_present [OF assms(1,2) r]
  have same: "mw_contents contents t = mw_contents contents s" using ok(2,3) by (simp add: mw_contents_def)
  consider e where "r = Inl e" | "r = Inr True" | "r = Inr False" by (cases r) auto
  then show ?thesis
  proof cases
    case 1
    then show ?thesis using assms(3) r ok same by (auto simp: MemWrites_put_def)
  next
    case 2
    then have "mw_contents contents s k \<noteq> None" using ok(4) by blast
    then show ?thesis using assms(3) r ok same 2 by (auto simp: MemWrites_put_def fun_upd_idem_iff)
  next
    case 3
    then have "mw_contents contents s k = None" using ok(4) by blast
    then show ?thesis using assms(3) r ok 3
      by (auto simp: MemWrites_put_def EagerMemblob_def EagerMemblob_put_def mw_contents_def split: prod.splits)
  qed
qed

lemma mw_get:
  assumes "blobstore B contents well" "well (fst s)" "MemWrites_get B k s = (r, s')"
  shows "well (fst s') \<and> contents (fst s') = contents (fst s) \<and> snd s' = snd s \<and> (\<forall>v. r = Inr v \<longrightarrow> v = mw_contents contents s k)"
proof -
  obtain i m where s: "s = (i, m)" by fastforce
  obtain p i' where p: "bs_get B k i = (p, i')" by (cases "bs_get B k i")
  have "well i' \<and> contents i' = contents i \<and> (\<forall>v. p = Inr v \<longrightarrow> v = contents i k)"
    using blobstore.get_ok [OF assms(1) _ p] assms(2) s by simp
  then show ?thesis using assms(2,3) p
    by (auto simp: s MemWrites_get_def EagerMemblob_def EagerMemblob_get_def mw_contents_def map_add_def split: option.splits)
qed

lemma memwrites_blobstore:
  fixes B :: "'s Blobstore"
  assumes "blobstore B contents well"
  shows "blobstore (MemWritesBlobstore B) (mw_contents contents) (\<lambda>s. well (fst s))"
proof
  fix s :: "'s \<times> memblob" and k v r q b s'
  assume w: "well (fst s)"
  show "bs_get (MemWritesBlobstore B) k s = (r, s') \<Longrightarrow>
    well (fst s') \<and> mw_contents contents s' = mw_contents contents s \<and> (\<forall>v. r = Inr v \<longrightarrow> v = mw_contents contents s k)"
    using mw_get [OF assms w, of k r s'] by (simp add: MemWritesBlobstore_def mw_contents_def)
  show "bs_is_present (MemWritesBlobstore B) k s = (b, s') \<Longrightarrow>
    well (fst s') \<and> mw_contents contents s' = mw_contents contents s \<and> (\<forall>c. b = Inr c \<longrightarrow> c = (mw_contents contents s k \<noteq> None))"
    using mw_present [OF assms w, of k b s'] by (simp add: MemWritesBlobstore_def mw_contents_def)
  show "bs_put (MemWritesBlobstore B) k v s = (q, s') \<Longrightarrow> mw_contents contents s k = None \<or> mw_contents contents s k = Some v \<Longrightarrow>
    well (fst s') \<and> (mw_contents contents s' = (mw_contents contents s)(k \<mapsto> v) \<or> mw_contents contents s' = mw_contents contents s \<and> q \<noteq> Inr ())"
    using mw_put [OF assms w, of k v q s'] by (simp add: MemWritesBlobstore_def)
qed

lemma counted_blobstore:
  fixes B :: "'s Blobstore"
  assumes "blobstore B contents well"
  shows "blobstore (CountedBlobstore B) (\<lambda>s. contents (fst s)) (\<lambda>s. well (fst s))"
proof
  fix s :: "'s \<times> blob_stats" and k v r q b s'
  assume w: "well (fst s)"
  show "bs_get (CountedBlobstore B) k s = (r, s') \<Longrightarrow>
    well (fst s') \<and> contents (fst s') = contents (fst s) \<and> (\<forall>v. r = Inr v \<longrightarrow> v = contents (fst s) k)"
    using blobstore.get_ok [OF assms w, of k] by (auto simp: CountedBlobstore_def split: prod.splits)
  show "bs_is_present (CountedBlobstore B) k s = (b, s') \<Longrightarrow>
    well (fst s') \<and> contents (fst s') = contents (fst s) \<and> (\<forall>c. b = Inr c \<longrightarrow> c = (contents (fst s) k \<noteq> None))"
    using blobstore.is_present_ok [OF assms w, of k] by (auto simp: CountedBlobstore_def split: prod.splits)
  show "bs_put (CountedBlobstore B) k v s = (q, s') \<Longrightarrow> contents (fst s) k = None \<or> contents (fst s) k = Some v \<Longrightarrow>
    well (fst s') \<and> (contents (fst s') = (contents (fst s))(k \<mapsto> v) \<or> contents (fst s') = contents (fst s) \<and> q \<noteq> Inr ())"
    using blobstore.put_ok [OF assms w, of k v] by (auto simp: CountedBlobstore_def split: prod.splits)
qed

text \<open>The stacks that a repository uses: a prefix on its store, and the same on in-memory writes.\<close>

interpretation repo_mem: blobstore "PrefixBlobstore p EagerMemblob" "\<lambda>s k. s (prepend p k)" "\<lambda>_. True" for p
  by (rule prefix_blobstore [OF mem.blobstore_axioms])

interpretation repo_memwrites: blobstore "PrefixBlobstore p (MemWritesBlobstore EagerMemblob)"
    "\<lambda>s k. mw_contents (\<lambda>hash. hash) s (prepend p k)" "\<lambda>_. True" for p
  by (rule prefix_blobstore [OF memwrites_blobstore [OF mem.blobstore_axioms]])

interpretation counted_mem: blobstore "CountedBlobstore EagerMemblob" fst "\<lambda>_. True"
  by (rule counted_blobstore [OF mem.blobstore_axioms])

text \<open>Each call is counted once, and once by its result.\<close>

definition stats_ok :: "blob_stats \<Rightarrow> bool" where
  "stats_ok st \<longleftrightarrow> st_get st = st_get_hit st + st_get_miss st + st_get_err st \<and> st_put st = st_put_ok st + st_put_err st \<and>
     st_is_present st = st_is_present_hit st + st_is_present_miss st + st_is_present_err st"

lemma count_ok:
  "stats_ok st \<Longrightarrow> stats_ok (count_get r (st\<lparr>st_get := st_get st + 1\<rparr>))"
  "stats_ok st \<Longrightarrow> stats_ok (count_put q (st\<lparr>st_put := st_put st + 1\<rparr>))"
  "stats_ok st \<Longrightarrow> stats_ok (count_is_present p (st\<lparr>st_is_present := st_is_present st + 1\<rparr>))"
  by (cases "(r, st)" rule: count_get.cases; cases "(q, st)" rule: count_put.cases; cases "(p, st)" rule: count_is_present.cases;
      simp add: stats_ok_def)+

lemma memwrites_inner:
  assumes "blobstore B contents well" "well (fst s)"
  shows "well (fst (snd (run_ops (PrefixBlobstore p (MemWritesBlobstore B)) ops s))) \<and>
     contents (fst (snd (run_ops (PrefixBlobstore p (MemWritesBlobstore B)) ops s))) = contents (fst s)"
  using assms(2)
proof (induction ops arbitrary: s)
  case (Cons op ops)
  obtain a s1 where op: "run_op (PrefixBlobstore p (MemWritesBlobstore B)) op s = (a, s1)"
    by (cases "run_op (PrefixBlobstore p (MemWritesBlobstore B)) op s")
  have "well (fst s1) \<and> contents (fst s1) = contents (fst s)"
  proof (cases op)
    case (GetOp k)
    then show ?thesis using op mw_get [OF assms(1) Cons.prems]
      by (cases "MemWrites_get B (prepend p k) s") (auto simp: PrefixBlobstore_def MemWritesBlobstore_def)
  next
    case (PutOp k v)
    then show ?thesis using op mw_put [OF assms(1) Cons.prems]
      by (cases "MemWrites_put B (prepend p k) v s") (auto simp: PrefixBlobstore_def MemWritesBlobstore_def)
  next
    case (IsPresentOp k)
    then show ?thesis using op mw_present(1,2) [OF assms(1) Cons.prems]
      by (cases "MemWrites_is_present B (prepend p k) s") (auto simp: PrefixBlobstore_def MemWritesBlobstore_def)
  qed
  then show ?case using Cons.IH [of s1] op by (simp add: case_prod_unfold)
qed simp

text \<open>C20: the store of a repository with in-memory writes, on any store that keeps the contract of the
  trait and through failures of it. In every sequence of requests that gives each key one value, a
  successful \<open>get\<close> returns that value or nothing, nothing is never returned for a key that a successful
  \<open>put\<close> has stored, \<open>is_present\<close> does not deny such a key, and the underlying store never changes.\<close>

theorem in_memory_writes_correct:
  assumes "blobstore B contents well" "well s" "holds val (contents s)" "\<forall>op \<in> set ops. op_keeps (\<lambda>k. val (prepend p k)) op"
  shows "run_answers (\<lambda>k. val (prepend p k)) {} ops
       (fst (run_ops (PrefixBlobstore p (MemWritesBlobstore B)) ops (s, EagerMemblob_new))) \<and>
     contents (fst (snd (run_ops (PrefixBlobstore p (MemWritesBlobstore B)) ops (s, EagerMemblob_new)))) = contents s"
proof -
  have "holds (\<lambda>k. val (prepend p k)) (\<lambda>k. mw_contents contents (s, EagerMemblob_new) (prepend p k))"
    using assms(3) by (simp add: holds_def mw_contents_def EagerMemblob_new_def)
  then show ?thesis
    using blobstore.run_ops_answers [OF prefix_blobstore [OF memwrites_blobstore [OF assms(1)]]] assms(2,4)
      memwrites_inner [OF assms(1)] by simp
qed

theorem in_memory_writes_correct_witness:
  "fst (run_ops (PrefixBlobstore [1] (MemWritesBlobstore EagerMemblob)) [PutOp [2] [7], GetOp [2]] (Map.empty, EagerMemblob_new))
     = [Stored (Inr ()), Got (Inr (Some [7]))]"
proof -
  let ?ops = "[PutOp [2] [7], GetOp [2]]"
  have "run_answers (\<lambda>k. [7]) {} ?ops
     (fst (run_ops (PrefixBlobstore [1] (MemWritesBlobstore EagerMemblob)) ?ops (Map.empty, EagerMemblob_new)))"
    using in_memory_writes_correct [OF mem.blobstore_axioms, where s = Map.empty and val = "\<lambda>_. [7]" and ops = ?ops and p = "[1]"] by (simp add: holds_def)
  then show ?thesis
    by (simp add: PrefixBlobstore_def MemWritesBlobstore_def MemWrites_put_def MemWrites_get_def MemWrites_is_present_def
        EagerMemblob_def EagerMemblob_get_def EagerMemblob_put_def is_present_default_def prepend_def EagerMemblob_new_def)
qed

end
