(* ===== verification/Sync_Queue.thy ===== *)
theory Sync_Queue
  imports Blobstores Bonsai
begin

text \<open>
  The queue of blobs that are not yet in every blobstore: \<open>src/blobstore_sync_queue\<close>, its entries, the
  trait and its SQL implementation.

  The contract of the trait is the locale \<open>sync_queue\<close>, over the set of pending rows. A request may fail
  with an error. The order in which SQL returns rows is the argument \<open>ro\<close> of the implementation.
\<close>

section \<open>Entries and the trait\<close>

record BlobstoreSyncQueueEntry =
  qe_repo_id :: int
  qe_blobstore_key :: bytes
  qe_blobstore_id :: nat
  qe_timestamp :: DateTime
  qe_id :: "nat option"

definition entry_new :: "int \<Rightarrow> bytes \<Rightarrow> nat \<Rightarrow> DateTime \<Rightarrow> BlobstoreSyncQueueEntry" where
  "entry_new repo_id blobstore_key blobstore_id timestamp =
     \<lparr>qe_repo_id = repo_id, qe_blobstore_key = blobstore_key, qe_blobstore_id = blobstore_id,
      qe_timestamp = timestamp, qe_id = None\<rparr>"

record 'q SyncQueue =
  q_add :: "BlobstoreSyncQueueEntry \<Rightarrow> 'q \<Rightarrow> (blob_error + bool) \<times> 'q"
  q_iter :: "int \<Rightarrow> DateTime \<Rightarrow> nat \<Rightarrow> 'q \<Rightarrow> (blob_error + BlobstoreSyncQueueEntry list) \<times> 'q"
  q_del :: "BlobstoreSyncQueueEntry list \<Rightarrow> 'q \<Rightarrow> (blob_error + unit) \<times> 'q"
  q_get :: "int \<Rightarrow> bytes \<Rightarrow> 'q \<Rightarrow> (blob_error + BlobstoreSyncQueueEntry list) \<times> 'q"

section \<open>The SQL implementation\<close>

record sync_row =
  sq_id :: nat
  sq_repo_id :: int
  sq_blobstore_key :: bytes
  sq_blobstore_id :: nat
  sq_add_timestamp :: Timestamp

record sync_queue_db =
  sq_rows :: "sync_row list"
  sq_autoincrement :: nat

definition InsertEntry :: "sync_queue_db \<Rightarrow> int \<Rightarrow> bytes \<Rightarrow> nat \<Rightarrow> Timestamp \<Rightarrow> nat \<times> sync_queue_db" where
  "InsertEntry db repo_id blobstore_key blobstore_id timestamp =
     (1, db\<lparr>sq_rows := sq_rows db @ [\<lparr>sq_id = sq_autoincrement db, sq_repo_id = repo_id, sq_blobstore_key = blobstore_key,
              sq_blobstore_id = blobstore_id, sq_add_timestamp = timestamp\<rparr>],
            sq_autoincrement := Suc (sq_autoincrement db)\<rparr>)"

definition DeleteEntry :: "sync_queue_db \<Rightarrow> nat \<Rightarrow> sync_queue_db" where
  "DeleteEntry db i = db\<lparr>sq_rows := filter (\<lambda>r. sq_id r \<noteq> i) (sq_rows db)\<rparr>"

definition GetAllIEntries :: "(sync_row list \<Rightarrow> sync_row list) \<Rightarrow> sync_queue_db \<Rightarrow> sync_row list" where
  "GetAllIEntries ro db = ro (sq_rows db)"

definition GetRangeOfEntries ::
    "(sync_row list \<Rightarrow> sync_row list) \<Rightarrow> sync_queue_db \<Rightarrow> int \<Rightarrow> Timestamp \<Rightarrow> nat \<Rightarrow> sync_row list" where
  "GetRangeOfEntries ro db repo_id older_than limit =
     (let b = take limit (remdups (map sq_blobstore_key
                (filter (\<lambda>r. sq_repo_id r = repo_id \<and> timestamp_nanos (sq_add_timestamp r) \<le> timestamp_nanos older_than)
                  (ro (sq_rows db)))))
      in filter (\<lambda>r. sq_blobstore_key r \<in> set b \<and> sq_repo_id r = repo_id) (ro (sq_rows db)))"

definition GetByKey :: "(sync_row list \<Rightarrow> sync_row list) \<Rightarrow> sync_queue_db \<Rightarrow> int \<Rightarrow> bytes \<Rightarrow> sync_row list" where
  "GetByKey ro db repo_id key = filter (\<lambda>r. sq_repo_id r = repo_id \<and> sq_blobstore_key r = key) (ro (sq_rows db))"

text \<open>The conversion of the timestamp of a row may panic.\<close>

definition entry_of_row :: "chrono \<Rightarrow> sync_row \<Rightarrow> blob_error + BlobstoreSyncQueueEntry" where
  "entry_of_row ch r =
     (case DateTime_from_Timestamp ch (sq_add_timestamp r) of
        None \<Rightarrow> Inl (BackendError ''panic: invalid or out-of-range datetime'')
      | Some t \<Rightarrow> Inr \<lparr>qe_repo_id = sq_repo_id r, qe_blobstore_key = sq_blobstore_key r, qe_blobstore_id = sq_blobstore_id r,
                       qe_timestamp = t, qe_id = Some (sq_id r)\<rparr>)"

definition sql_queue_add :: "BlobstoreSyncQueueEntry \<Rightarrow> sync_queue_db \<Rightarrow> (blob_error + bool) \<times> sync_queue_db" where
  "sql_queue_add entry db =
     (case InsertEntry db (qe_repo_id entry) (qe_blobstore_key entry) (qe_blobstore_id entry)
             (Timestamp_from_DateTime (qe_timestamp entry)) of
        (affected_rows, db') \<Rightarrow> (Inr (affected_rows = 1), db'))"

definition sql_queue_iter ::
    "chrono \<Rightarrow> (sync_row list \<Rightarrow> sync_row list) \<Rightarrow> int \<Rightarrow> DateTime \<Rightarrow> nat \<Rightarrow> sync_queue_db
      \<Rightarrow> (blob_error + BlobstoreSyncQueueEntry list) \<times> sync_queue_db" where
  "sql_queue_iter ch ro repo_id older_than limit db =
     (collect_ok (entry_of_row ch) (GetRangeOfEntries ro db repo_id (Timestamp_from_DateTime older_than) limit), db)"

definition queue_ids :: "BlobstoreSyncQueueEntry list \<Rightarrow> blob_error + nat list" where
  "queue_ids = collect_ok (\<lambda>entry. case qe_id entry of
       None \<Rightarrow> Inl (BackendError ''BlobstoreSyncQueueEntry must contain `id` to be able to delete it'')
     | Some i \<Rightarrow> Inr i)"

definition sql_queue_del :: "BlobstoreSyncQueueEntry list \<Rightarrow> sync_queue_db \<Rightarrow> (blob_error + unit) \<times> sync_queue_db" where
  "sql_queue_del entries db =
     (case queue_ids entries of
        Inl e \<Rightarrow> (Inl e, db)
      | Inr ids \<Rightarrow> (Inr (), foldl DeleteEntry db ids))"

definition sql_queue_get ::
    "chrono \<Rightarrow> (sync_row list \<Rightarrow> sync_row list) \<Rightarrow> int \<Rightarrow> bytes \<Rightarrow> sync_queue_db
      \<Rightarrow> (blob_error + BlobstoreSyncQueueEntry list) \<times> sync_queue_db" where
  "sql_queue_get ch ro repo_id key db = (collect_ok (entry_of_row ch) (GetByKey ro db repo_id key), db)"

definition SqlBlobstoreSyncQueue :: "chrono \<Rightarrow> (sync_row list \<Rightarrow> sync_row list) \<Rightarrow> sync_queue_db SyncQueue" where
  "SqlBlobstoreSyncQueue ch ro =
     \<lparr>q_add = sql_queue_add, q_iter = sql_queue_iter ch ro, q_del = sql_queue_del, q_get = sql_queue_get ch ro\<rparr>"

section \<open>The contract\<close>

type_synonym pending_row = "nat \<times> int \<times> bytes \<times> nat"

definition pending_of :: "BlobstoreSyncQueueEntry \<Rightarrow> pending_row" where
  "pending_of e = (the (qe_id e), qe_repo_id e, qe_blobstore_key e, qe_blobstore_id e)"

locale sync_queue =
  fixes Q :: "'q SyncQueue" and pending :: "'q \<Rightarrow> pending_row set" and qwell :: "'q \<Rightarrow> bool"
  assumes add_ok: "qwell q \<Longrightarrow> q_add Q e q = (r, q') \<Longrightarrow> qwell q' \<and>
      (pending q' = pending q \<and> \<not> is_ok r \<or>
       (\<exists>i. pending q' = insert (i, qe_repo_id e, qe_blobstore_key e, qe_blobstore_id e) (pending q)))"
    and get_ok: "qwell q \<Longrightarrow> q_get Q repo k q = (g, q') \<Longrightarrow> qwell q' \<and> pending q' = pending q \<and>
      (\<forall>es. g = Inr es \<longrightarrow> pending_of ` set es = {(i, repo', k', b) \<in> pending q. repo' = repo \<and> k' = k})"
    and iter_ok: "qwell q \<Longrightarrow> q_iter Q repo older limit q = (g, q') \<Longrightarrow> qwell q' \<and> pending q' = pending q \<and>
      (\<forall>es. g = Inr es \<longrightarrow> pending_of ` set es \<subseteq> {(i, repo', k', b) \<in> pending q. repo' = repo})"
    and del_ok: "qwell q \<Longrightarrow> pending_of ` set es \<subseteq> pending q \<Longrightarrow> q_del Q es q = (d, q') \<Longrightarrow> qwell q' \<and>
      pending q' \<subseteq> pending q \<and> pending q - pending_of ` set es \<subseteq> pending q' \<and>
      (d = Inr () \<longrightarrow> pending q' = pending q - pending_of ` set es)"

definition row_pending :: "sync_row \<Rightarrow> pending_row" where
  "row_pending r = (sq_id r, sq_repo_id r, sq_blobstore_key r, sq_blobstore_id r)"

definition sql_pending :: "sync_queue_db \<Rightarrow> pending_row set" where
  "sql_pending db = row_pending ` set (sq_rows db)"

definition sql_queue_ok :: "(sync_row list \<Rightarrow> sync_row list) \<Rightarrow> sync_queue_db \<Rightarrow> bool" where
  "sql_queue_ok ro db \<longleftrightarrow> (\<forall>rs. set (ro rs) = set rs) \<and> distinct (map sq_id (sq_rows db)) \<and>
     (\<forall>r \<in> set (sq_rows db). sq_id r < sq_autoincrement db)"

lemma entry_of_row_pending: "entry_of_row ch r = Inr e \<Longrightarrow> pending_of e = row_pending r"
  by (auto simp: entry_of_row_def pending_of_def row_pending_def split: option.splits)

lemma collect_rows:
  "collect_ok (entry_of_row ch) rs = Inr es \<Longrightarrow> map pending_of es = map row_pending rs"
proof (induction rs arbitrary: es)
  case (Cons r rs)
  then obtain t es' where "es = t # es'" "entry_of_row ch r = Inr t" "collect_ok (entry_of_row ch) rs = Inr es'"
    by (auto simp: result_simps)
  then show ?case using Cons.IH [of es'] entry_of_row_pending by simp
qed simp

lemma collect_rows_set: "collect_ok (entry_of_row ch) rs = Inr es \<Longrightarrow> pending_of ` set es = row_pending ` set rs"
  using collect_rows by (metis list.set_map)

lemma fold_delete:
  "sq_rows (foldl DeleteEntry db ids) = filter (\<lambda>r. sq_id r \<notin> set ids) (sq_rows db)"
  "sq_autoincrement (foldl DeleteEntry db ids) = sq_autoincrement db"
  by (induction ids arbitrary: db) (auto simp: DeleteEntry_def intro: filter_cong)

lemma queue_ids_ok: "queue_ids es = Inr ids \<Longrightarrow> ids = map (\<lambda>e. the (qe_id e)) es"
  by (induction es arbitrary: ids) (auto simp: queue_ids_def result_simps split: option.splits)

lemma GetByKey_pending:
  "\<forall>rs. set (ro rs) = set rs \<Longrightarrow>
     row_pending ` set (GetByKey ro db repo k) = {(i, repo', k', b) \<in> sql_pending db. repo' = repo \<and> k' = k}"
  by (auto simp: GetByKey_def sql_pending_def row_pending_def)

lemma GetRange_pending:
  "\<forall>rs. set (ro rs) = set rs \<Longrightarrow>
     row_pending ` set (GetRangeOfEntries ro db repo older limit) \<subseteq> {(i, repo', k', b) \<in> sql_pending db. repo' = repo}"
  by (auto simp: GetRangeOfEntries_def Let_def sql_pending_def row_pending_def)

interpretation sqlq: sync_queue "SqlBlobstoreSyncQueue ch ro" sql_pending "sql_queue_ok ro" for ch ro
proof
  fix q q' e r
  assume q: "sql_queue_ok ro q" and add: "q_add (SqlBlobstoreSyncQueue ch ro) e q = (r, q')"
  let ?row = "\<lparr>sq_id = sq_autoincrement q, sq_repo_id = qe_repo_id e, sq_blobstore_key = qe_blobstore_key e,
     sq_blobstore_id = qe_blobstore_id e, sq_add_timestamp = Timestamp_from_DateTime (qe_timestamp e)\<rparr>"
  have q': "sq_rows q' = sq_rows q @ [?row]" "sq_autoincrement q' = Suc (sq_autoincrement q)"
    using add by (auto simp: SqlBlobstoreSyncQueue_def sql_queue_add_def InsertEntry_def)
  have "sq_autoincrement q \<notin> sq_id ` set (sq_rows q)" using q by (auto simp: sql_queue_ok_def)
  then have "sql_queue_ok ro q'" using q by (auto simp: sql_queue_ok_def q' less_Suc_eq)
  moreover have "sql_pending q' = insert (sq_autoincrement q, qe_repo_id e, qe_blobstore_key e, qe_blobstore_id e) (sql_pending q)"
    by (simp add: sql_pending_def q' row_pending_def)
  ultimately show "sql_queue_ok ro q' \<and> (sql_pending q' = sql_pending q \<and> \<not> is_ok r \<or>
       (\<exists>i. sql_pending q' = insert (i, qe_repo_id e, qe_blobstore_key e, qe_blobstore_id e) (sql_pending q)))" by blast
next
  fix q q' repo k g
  assume q: "sql_queue_ok ro q" and get: "q_get (SqlBlobstoreSyncQueue ch ro) repo k q = (g, q')"
  have g: "q' = q" "g = collect_ok (entry_of_row ch) (GetByKey ro q repo k)"
    using get by (auto simp: SqlBlobstoreSyncQueue_def sql_queue_get_def)
  have ro: "\<forall>rs. set (ro rs) = set rs" using q by (simp add: sql_queue_ok_def)
  have "pending_of ` set es = {(i, repo', k', b) \<in> sql_pending q. repo' = repo \<and> k' = k}" if "g = Inr es" for es
    using collect_rows_set [OF that [unfolded g(2)]] unfolding GetByKey_pending [OF ro] .
  then show "sql_queue_ok ro q' \<and> sql_pending q' = sql_pending q \<and>
      (\<forall>es. g = Inr es \<longrightarrow> pending_of ` set es = {(i, repo', k', b) \<in> sql_pending q. repo' = repo \<and> k' = k})"
    using q g(1) by simp
next
  fix q q' repo older limit g
  assume q: "sql_queue_ok ro q" and iter: "q_iter (SqlBlobstoreSyncQueue ch ro) repo older limit q = (g, q')"
  have g: "q' = q" "g = collect_ok (entry_of_row ch) (GetRangeOfEntries ro q repo (Timestamp_from_DateTime older) limit)"
    using iter by (auto simp: SqlBlobstoreSyncQueue_def sql_queue_iter_def)
  have ro: "\<forall>rs. set (ro rs) = set rs" using q by (simp add: sql_queue_ok_def)
  have "pending_of ` set es \<subseteq> {(i, repo', k', b) \<in> sql_pending q. repo' = repo}" if "g = Inr es" for es
    using GetRange_pending [OF ro] unfolding collect_rows_set [OF that [unfolded g(2)]] .
  then show "sql_queue_ok ro q' \<and> sql_pending q' = sql_pending q \<and>
      (\<forall>es. g = Inr es \<longrightarrow> pending_of ` set es \<subseteq> {(i, repo', k', b) \<in> sql_pending q. repo' = repo})"
    using q g(1) by simp
next
  fix q q' es d
  assume q: "sql_queue_ok ro q" and es: "pending_of ` set es \<subseteq> sql_pending q"
    and del: "q_del (SqlBlobstoreSyncQueue ch ro) es q = (d, q')"
  show "sql_queue_ok ro q' \<and> sql_pending q' \<subseteq> sql_pending q \<and> sql_pending q - pending_of ` set es \<subseteq> sql_pending q' \<and>
      (d = Inr () \<longrightarrow> sql_pending q' = sql_pending q - pending_of ` set es)"
  proof (cases "queue_ids es")
    case (Inl e)
    then show ?thesis using q del by (auto simp: SqlBlobstoreSyncQueue_def sql_queue_del_def)
  next
    case (Inr ids)
    then have q': "q' = foldl DeleteEntry q ids" using del by (simp add: SqlBlobstoreSyncQueue_def sql_queue_del_def)
    have ids: "set ids = fst ` pending_of ` set es" using queue_ids_ok [OF Inr] by (simp add: image_image pending_of_def)
    have inj: "x = y" if "x \<in> sql_pending q" "y \<in> sql_pending q" "fst x = fst y" for x y
    proof -
      obtain r s where rs: "r \<in> set (sq_rows q)" "s \<in> set (sq_rows q)" "x = row_pending r" "y = row_pending s"
        using \<open>x \<in> sql_pending q\<close> \<open>y \<in> sql_pending q\<close> by (auto simp: sql_pending_def)
      then have "sq_id r = sq_id s" using \<open>fst x = fst y\<close> by (simp add: row_pending_def)
      then have "r = s" using q rs(1,2) unfolding sql_queue_ok_def by (metis distinct_map inj_onD)
      then show ?thesis using rs by simp
    qed
    have "sql_pending q' = {x \<in> sql_pending q. fst x \<notin> set ids}"
      by (auto simp: q' sql_pending_def fold_delete row_pending_def)
    also have "\<dots> = sql_pending q - pending_of ` set es" using inj es unfolding ids by blast
    finally have rows: "sql_pending q' = sql_pending q - pending_of ` set es" .
    have "distinct (map sq_id (filter (\<lambda>r. sq_id r \<notin> set ids) (sq_rows q)))"
      using q by (simp add: sql_queue_ok_def distinct_map_filter)
    then have "sql_queue_ok ro q'" using q by (simp add: q' sql_queue_ok_def fold_delete)
    then show ?thesis using rows by blast
  qed
qed

end
