(* ===== verification/Multiplexed.thy ===== *)
theory Multiplexed
  imports Sync_Queue "HOL-Library.Multiset"
begin

text \<open>
  The multiplexed blobstore, \<open>src/blobstore/multiplexedblob\<close>: \<open>base.rs\<close> sends each request to all its
  stores, and \<open>queue.rs\<close> records in the sync queue which store has which blob, and consults it when
  some stores fail and the others have nothing.

  The state is one state per store, by the store's identifier, and the state of the queue. The order in
  which concurrent requests complete is an argument; so are, for a \<open>put\<close>, which of the requests have
  completed: it returns with the first success and leaves the others running.
\<close>

section \<open>The base\<close>

text \<open>The requests of all stores.\<close>

fun start_requests ::
    "('s Blobstore \<Rightarrow> 's \<Rightarrow> 'r \<times> 's) \<Rightarrow> (nat \<times> 's Blobstore) list \<Rightarrow> (nat \<Rightarrow> 's) \<Rightarrow> (nat \<times> 'r) list \<times> (nat \<Rightarrow> 's)" where
  "start_requests f [] st = ([], st)"
| "start_requests f ((i, B) # bs) st =
     (case f B (st i) of (r, s') \<Rightarrow> case start_requests f bs (st(i := s')) of (rs, st') \<Rightarrow> ((i, r) # rs, st'))"

text \<open>The loop over \<open>select_all\<close>, on the results in the order of their completion. \<open>select_all\<close> panics
  when there is no future.\<close>

definition select_finish :: "'a \<Rightarrow> nat \<Rightarrow> (nat \<times> blob_error) list \<Rightarrow> blob_error + 'a" where
  "select_finish none blobstores_count errors =
     (if errors = [] then Inr none
      else if length errors = blobstores_count then Inl (AllFailed errors)
      else Inl (SomeFailedOthersNone errors))"

fun select_loop ::
    "('a \<Rightarrow> bool) \<Rightarrow> 'a \<Rightarrow> nat \<Rightarrow> (nat \<times> (blob_error + 'a)) list \<Rightarrow> (nat \<times> blob_error) list \<Rightarrow> blob_error + 'a" where
  "select_loop hit none n [] errors = Inl (BackendError ''panic: select_all of no futures'')"
| "select_loop hit none n ((i, Inr value) # requests) errors =
     (if hit value then Inr value
      else if requests = [] then select_finish none n errors
      else select_loop hit none n requests errors)"
| "select_loop hit none n ((i, Inl error) # requests) errors =
     (let errors' = (i, error) # filter (\<lambda>e. fst e \<noteq> i) errors
      in if requests = [] then select_finish none n errors' else select_loop hit none n requests errors')"

type_synonym 'r completion = "(nat \<times> (blob_error + 'r)) list \<Rightarrow> (nat \<times> (blob_error + 'r)) list"

definition base_get ::
    "(nat \<times> 's Blobstore) list \<Rightarrow> bytes option completion \<Rightarrow> bytes \<Rightarrow> (nat \<Rightarrow> 's) \<Rightarrow> (blob_error + bytes option) \<times> (nat \<Rightarrow> 's)" where
  "base_get blobstores co key st =
     (case start_requests (\<lambda>B. bs_get B key) blobstores st of
        (requests, st') \<Rightarrow> (select_loop (\<lambda>value. value \<noteq> None) None (length blobstores) (co requests) [], st'))"

definition base_is_present ::
    "(nat \<times> 's Blobstore) list \<Rightarrow> bool completion \<Rightarrow> bytes \<Rightarrow> (nat \<Rightarrow> 's) \<Rightarrow> (blob_error + bool) \<times> (nat \<Rightarrow> 's)" where
  "base_is_present blobstores co key st =
     (case start_requests (\<lambda>B. bs_is_present B key) blobstores st of
        (requests, st') \<Rightarrow> (select_loop (\<lambda>value. value) False (length blobstores) (co requests) [], st'))"

text \<open>One request of a \<open>put\<close> with its handler, and the requests that have completed.\<close>

type_synonym 'q put_handler = "nat \<Rightarrow> bytes \<Rightarrow> 'q \<Rightarrow> (blob_error + unit) \<times> 'q"

definition put_request ::
    "'q put_handler \<Rightarrow> bytes \<Rightarrow> bytes \<Rightarrow> nat \<times> 's Blobstore \<Rightarrow> (nat \<Rightarrow> 's) \<times> 'q \<Rightarrow> (blob_error + unit) \<times> (nat \<Rightarrow> 's) \<times> 'q" where
  "put_request on_put key value = (\<lambda>(blobstore_id, blobstore) (st, q).
     case bs_put blobstore key value (st blobstore_id) of
       (Inl e, s') \<Rightarrow> (Inl e, st(blobstore_id := s'), q)
     | (Inr _, s') \<Rightarrow> (case on_put blobstore_id key q of (r, q') \<Rightarrow> (r, st(blobstore_id := s'), q')))"

fun put_requests ::
    "'q put_handler \<Rightarrow> bytes \<Rightarrow> bytes \<Rightarrow> (nat \<times> 's Blobstore) list \<Rightarrow> (nat \<Rightarrow> 's) \<times> 'q
      \<Rightarrow> (blob_error + unit) list \<times> (nat \<Rightarrow> 's) \<times> 'q" where
  "put_requests on_put key value [] s = ([], s)"
| "put_requests on_put key value (b # bs) s =
     (case put_request on_put key value b s of
        (r, s1) \<Rightarrow> case put_requests on_put key value bs s1 of (rs, s') \<Rightarrow> (r # rs, s'))"

text \<open>\<open>select_ok\<close>: the first success, or the last error when all have failed; \<open>None\<close> while it waits.\<close>

definition base_put ::
    "(nat \<times> 's Blobstore) list \<Rightarrow> 'q put_handler \<Rightarrow> (nat \<times> 's Blobstore) list \<Rightarrow> bytes \<Rightarrow> bytes \<Rightarrow> (nat \<Rightarrow> 's) \<times> 'q
      \<Rightarrow> (blob_error + unit) option \<times> (nat \<Rightarrow> 's) \<times> 'q" where
  "base_put blobstores on_put completed key value s =
     (case put_requests on_put key value completed s of
        (rs, s') \<Rightarrow>
          (if Inr () \<in> set rs then Some (Inr ())
           else if length completed < length blobstores then None
           else Some (if rs = [] then Inl (BackendError ''panic: select_ok of no futures'') else last rs), s'))"

section \<open>With the queue\<close>

record ('s, 'q) MultiplexedBlobstore =
  mb_repo_id :: int
  mb_blobstores :: "(nat \<times> 's Blobstore) list"
  mb_queue :: "'q SyncQueue"

definition queue_on_put :: "'q SyncQueue \<Rightarrow> int \<Rightarrow> DateTime \<Rightarrow> 'q put_handler" where
  "queue_on_put Q repo_id now blobstore_id key q =
     (case q_add Q (entry_new repo_id key blobstore_id now) q of (r, q') \<Rightarrow> (map_ok (\<lambda>_. ()) r, q'))"

definition consult_queue :: "'q SyncQueue \<Rightarrow> int \<Rightarrow> bytes \<Rightarrow> 'a \<Rightarrow> blob_error + 'a \<Rightarrow> 'q \<Rightarrow> (blob_error + 'a) \<times> 'q" where
  "consult_queue Q repo_id key none result q =
     (case result of
        Inr value \<Rightarrow> (Inr value, q)
      | Inl error \<Rightarrow>
          (case error of
             AllFailed _ \<Rightarrow> (Inl error, q)
           | _ \<Rightarrow> (case q_get Q repo_id key q of
                     (entries, q') \<Rightarrow> (and_then entries (\<lambda>es. if es = [] then Inr none else Inl error), q'))))"

definition multi_get ::
    "('s, 'q) MultiplexedBlobstore \<Rightarrow> bytes option completion \<Rightarrow> bytes \<Rightarrow> (nat \<Rightarrow> 's) \<times> 'q
      \<Rightarrow> (blob_error + bytes option) \<times> (nat \<Rightarrow> 's) \<times> 'q" where
  "multi_get M co key s =
     (case base_get (mb_blobstores M) co key (fst s) of
        (result, st') \<Rightarrow> case consult_queue (mb_queue M) (mb_repo_id M) key None result (snd s) of (r, q') \<Rightarrow> (r, st', q'))"

definition multi_is_present ::
    "('s, 'q) MultiplexedBlobstore \<Rightarrow> bool completion \<Rightarrow> bytes \<Rightarrow> (nat \<Rightarrow> 's) \<times> 'q
      \<Rightarrow> (blob_error + bool) \<times> (nat \<Rightarrow> 's) \<times> 'q" where
  "multi_is_present M co key s =
     (case base_is_present (mb_blobstores M) co key (fst s) of
        (result, st') \<Rightarrow> case consult_queue (mb_queue M) (mb_repo_id M) key False result (snd s) of (r, q') \<Rightarrow> (r, st', q'))"

definition multi_put ::
    "('s, 'q) MultiplexedBlobstore \<Rightarrow> DateTime \<Rightarrow> (nat \<times> 's Blobstore) list \<Rightarrow> bytes \<Rightarrow> bytes \<Rightarrow> (nat \<Rightarrow> 's) \<times> 'q
      \<Rightarrow> (blob_error + unit) option \<times> (nat \<Rightarrow> 's) \<times> 'q" where
  "multi_put M now completed key value s =
     base_put (mb_blobstores M) (queue_on_put (mb_queue M) (mb_repo_id M) now) completed key value s"

section \<open>Selecting the result\<close>

lemma select_loop_errors:
  "select_loop hit none n rs errs = Inr a \<Longrightarrow> errs \<noteq> [] \<Longrightarrow> hit a \<and> (\<exists>i. (i, Inr a) \<in> set rs)"
  by (induction hit none n rs errs rule: select_loop.induct)
    (auto simp: select_finish_def Let_def split: if_splits)

lemma select_loop_hit:
  "select_loop hit none n rs errs = Inr a \<Longrightarrow>
     hit a \<and> (\<exists>i. (i, Inr a) \<in> set rs) \<or> a = none \<and> rs \<noteq> [] \<and> (\<forall>x \<in> set rs. \<exists>v. snd x = Inr v \<and> \<not> hit v)"
  by (induction hit none n rs errs rule: select_loop.induct)
    (auto simp: select_finish_def Let_def split: if_splits dest: select_loop_errors)

lemma select_loop_all_failed:
  "rs \<noteq> [] \<Longrightarrow> \<forall>x \<in> set rs. \<not> is_ok (snd x) \<Longrightarrow> distinct (map fst rs) \<Longrightarrow> fst ` set rs \<inter> fst ` set errs = {} \<Longrightarrow>
     length errs + length rs = n \<Longrightarrow> \<exists>es. select_loop hit none n rs errs = Inl (AllFailed es)"
proof (induction hit none n rs errs rule: select_loop.induct)
  case (3 hit none n i error requests errors)
  have new: "filter (\<lambda>e. fst e \<noteq> i) errors = errors" using "3.prems"(4) by (auto intro: filter_True)
  show ?case
  proof (cases "requests = []")
    case True
    then show ?thesis using "3.prems"(5) new by (simp add: Let_def select_finish_def)
  next
    case False
    then show ?thesis using "3.IH" [OF refl False] "3.prems" new by (auto simp: Let_def)
  qed
qed auto

lemma select_loop_error:
  "select_loop hit none n rs errs = Inl e \<Longrightarrow> rs \<noteq> [] \<Longrightarrow> \<forall>x \<in> set rs. \<forall>v. snd x = Inr v \<longrightarrow> \<not> hit v"
  by (induction hit none n rs errs rule: select_loop.induct) (auto simp: Let_def split: if_splits)

section \<open>No blob is lost\<close>

text \<open>What holds between requests: each store holds only right values, a pending row for a store means
  that the store has the blob, and every blob that counts as stored has a pending row or is in all stores.\<close>

definition multi_ok ::
    "nat set \<Rightarrow> ('s \<Rightarrow> bytes \<rightharpoonup> bytes) \<Rightarrow> ('s \<Rightarrow> bool) \<Rightarrow> int \<Rightarrow> (bytes \<Rightarrow> bytes) \<Rightarrow> bytes set \<Rightarrow> (nat \<Rightarrow> 's) \<Rightarrow> pending_row set
      \<Rightarrow> bool" where
  "multi_ok ids contents well repo val D st rows \<longleftrightarrow>
     (\<forall>i \<in> ids. well (st i) \<and> holds val (contents (st i))) \<and>
     (\<forall>j k i. (j, repo, k, i) \<in> rows \<longrightarrow> i \<in> ids \<longrightarrow> k \<in> dom (contents (st i))) \<and>
     (\<forall>k \<in> D. (\<exists>j i. (j, repo, k, i) \<in> rows \<and> i \<in> ids) \<or> (\<forall>i \<in> ids. k \<in> dom (contents (st i))))"

lemma multi_ok_contents:
  assumes "multi_ok ids contents well repo val D st rows" "\<forall>i \<in> ids. well (st' i) \<and> contents (st' i) = contents (st i)"
  shows "multi_ok ids contents well repo val D st' rows"
  using assms unfolding multi_ok_def by (metis (no_types, lifting))

lemma multi_ok_stored:
  assumes "multi_ok ids contents well repo val D st rows" "i \<in> ids" "well s"
    "contents s = (contents (st i))(k \<mapsto> val k) \<or> contents s = contents (st i)"
  shows "multi_ok ids contents well repo val D (st(i := s)) rows"
proof -
  have grow: "dom (contents (st j)) \<subseteq> dom (contents ((st(i := s)) j))" for j using assms(4) by auto
  have "holds val (contents ((st(i := s)) j))" "well ((st(i := s)) j)" if "j \<in> ids" for j
    using assms that by (auto simp: multi_ok_def holds_def split: if_splits)
  moreover have "\<forall>j k i'. (j, repo, k, i') \<in> rows \<longrightarrow> i' \<in> ids \<longrightarrow> k \<in> dom (contents ((st(i := s)) i'))"
    using assms(1) grow unfolding multi_ok_def by blast
  moreover have "\<forall>k \<in> D. (\<exists>j i. (j, repo, k, i) \<in> rows \<and> i \<in> ids) \<or> (\<forall>j \<in> ids. k \<in> dom (contents ((st(i := s)) j)))"
    using assms(1) grow unfolding multi_ok_def by blast
  ultimately show ?thesis unfolding multi_ok_def by blast
qed

lemma multi_ok_row:
  assumes "multi_ok ids contents well repo val D st rows" "i \<in> ids \<Longrightarrow> k \<in> dom (contents (st i))"
  shows "multi_ok ids contents well repo val D st (insert (j, repo, k, i) rows)"
    "i \<in> ids \<Longrightarrow> multi_ok ids contents well repo val (insert k D) st (insert (j, repo, k, i) rows)"
  using assms unfolding multi_ok_def by blast+

lemma start_requests_ok:
  assumes "distinct (map fst bs)" "\<forall>i \<in> fst ` set bs. well (st i)"
    and f: "\<And>i B s r s'. (i, B) \<in> set bs \<Longrightarrow> well s \<Longrightarrow> f B s = (r, s') \<Longrightarrow> well s' \<and> contents s' = contents s \<and> P (contents s) r"
    and "start_requests f bs st = (rs, st')"
  shows "map fst rs = map fst bs \<and> (\<forall>i. well (st i) \<longrightarrow> well (st' i)) \<and> (\<forall>i. contents (st' i) = contents (st i)) \<and>
     (\<forall>x \<in> set rs. P (contents (st (fst x))) (snd x))"
  using assms
proof (induction bs arbitrary: st rs st')
  case (Cons b bs)
  obtain i B where b: "b = (i, B)" by fastforce
  obtain r s where r: "f B (st i) = (r, s)" by (cases "f B (st i)")
  obtain rs1 where rs1: "start_requests f bs (st(i := s)) = (rs1, st')" "rs = (i, r) # rs1"
    using Cons.prems(4) by (auto simp: b r split: prod.splits)
  have one: "well s \<and> contents s = contents (st i) \<and> P (contents (st i)) r"
    using Cons.prems(3) [of i B "st i" r s] Cons.prems(2) r b by simp
  have same: "contents ((st(i := s)) j) = contents (st j)" for j using one by simp
  have bs: "distinct (map fst bs)" "\<forall>j \<in> fst ` set bs. well ((st(i := s)) j)" using Cons.prems(1,2) one by auto
  have "map fst rs1 = map fst bs \<and> (\<forall>j. well ((st(i := s)) j) \<longrightarrow> well (st' j)) \<and> (\<forall>j. contents (st' j) = contents ((st(i := s)) j)) \<and>
     (\<forall>x \<in> set rs1. P (contents ((st(i := s)) (fst x))) (snd x))"
    by (rule Cons.IH [OF bs _ rs1(1)]) (erule Cons.prems(3) [OF list.set_intros(2)])
  then show ?case using one rs1(2) b unfolding same by auto
qed simp

locale multiplexed = sync_queue Q pending qwell
    for Q :: "'q SyncQueue" and pending :: "'q \<Rightarrow> pending_row set" and qwell :: "'q \<Rightarrow> bool" +
  fixes bs :: "(nat \<times> 's Blobstore) list" and contents :: "'s \<Rightarrow> bytes \<rightharpoonup> bytes" and well :: "'s \<Rightarrow> bool"
  assumes stores: "(i, B) \<in> set bs \<Longrightarrow> blobstore B contents well" and ids: "distinct (map fst bs)"
begin

lemmas store_get = blobstore.get_ok [OF stores]
lemmas store_is_present = blobstore.is_present_ok [OF stores]
lemmas store_put = blobstore.put_ok [OF stores]

lemma select_ok:
  assumes ok: "multi_ok (fst ` set bs) contents well repo val D st rows" and perm: "mset (co rs) = mset rs"
    and rs: "start_requests f bs st = (rs, st')" and r: "r = select_loop hit none (length bs) (co rs) []"
    and f: "\<forall>(i, B) \<in> set bs. \<forall>s r s'. well s \<longrightarrow> f B s = (r, s') \<longrightarrow>
        well s' \<and> contents s' = contents s \<and> (\<forall>v. r = Inr v \<longrightarrow> v = ans (contents s k))"
    and hit: "\<And>x. hit (ans x) \<longleftrightarrow> x \<noteq> None" "none = ans None"
  shows "multi_ok (fst ` set bs) contents well repo val D st' rows" "r = Inr v \<Longrightarrow> hit v \<Longrightarrow> v = ans (Some (val k))"
    "r = Inr v \<Longrightarrow> \<not> hit v \<Longrightarrow> k \<notin> D"
    "r = Inl e \<Longrightarrow> bs \<noteq> [] \<Longrightarrow> \<forall>es. e \<noteq> AllFailed es \<Longrightarrow> \<exists>i \<in> fst ` set bs. k \<notin> dom (contents (st i))"
proof -
  let ?ids = "fst ` set bs"
  have well: "\<forall>i \<in> ?ids. well (st i)" and right: "i \<in> ?ids \<Longrightarrow> contents (st i) k = Some v \<Longrightarrow> v = val k" for i v
    using ok by (auto simp: multi_ok_def holds_def)
  have out: "map fst rs = map fst bs \<and> (\<forall>i. well (st i) \<longrightarrow> well (st' i)) \<and> (\<forall>i. contents (st' i) = contents (st i)) \<and>
     (\<forall>x \<in> set rs. \<forall>v. snd x = Inr v \<longrightarrow> v = ans (contents (st (fst x)) k))"
    by (rule start_requests_ok [OF ids well _ rs]) (use f in blast)
  then show "multi_ok ?ids contents well repo val D st' rows" using multi_ok_contents [OF ok] well by blast
  have fst: "fst ` set rs = ?ids" using out by (metis list.set_map)
  then have fst_ids: "x \<in> set rs \<Longrightarrow> fst x \<in> ?ids" for x by (metis imageI)
  have ans: "\<And>x v. x \<in> set rs \<Longrightarrow> snd x = Inr v \<Longrightarrow> v = ans (contents (st (fst x)) k)" using out by blast
  have co: "set (co rs) = set rs" using mset_eq_setD [OF perm] .
  have m: "mset (map fst (co rs)) = mset (map fst bs)" using perm out by (metis mset_map)
  have co_ids: "distinct (map fst (co rs))" "length (co rs) = length bs"
    using ids mset_eq_imp_distinct_iff [OF m] mset_eq_length [OF m] by simp_all
  show "v = ans (Some (val k))" if v: "r = Inr v" "hit v"
  proof -
    have "v \<noteq> none" using v(2) hit by auto
    with select_loop_hit [OF v(1) [unfolded r]] obtain i where i: "(i, Inr v) \<in> set rs" unfolding co by blast
    have "hit (ans (contents (st i) k))" using v(2) ans [OF i] by simp
    then obtain u where "contents (st i) k = Some u" unfolding hit(1) by blast
    then show ?thesis using right [of i u] fst_ids [OF i] ans [OF i] by simp
  qed
  show "k \<notin> D" if "r = Inr v" "\<not> hit v"
  proof
    assume k: "k \<in> D"
    from select_loop_hit [OF that(1) [unfolded r]] that(2) have all: "co rs \<noteq> []" "\<forall>x \<in> set rs. \<exists>v. snd x = Inr v \<and> \<not> hit v"
      using co by auto
    have "contents (st i) k = None" if i: "i \<in> ?ids" for i
    proof -
      obtain x where x: "x \<in> set rs" "fst x = i" using i fst by (metis imageE)
      then obtain u where "snd x = Inr u" "\<not> hit u" using all(2) by blast
      then show ?thesis using ans [OF x(1)] hit(1) [of "contents (st i) k"] x(2) by simp
    qed
    moreover have "?ids \<noteq> {}" using all(1) co_ids(2) by auto
    ultimately show False using ok k unfolding multi_ok_def by (metis (no_types, lifting) domIff equals0I)
  qed
  show "\<exists>i \<in> ?ids. k \<notin> dom (contents (st i))" if e: "r = Inl e" "bs \<noteq> []" "\<forall>es. e \<noteq> AllFailed es"
  proof (rule ccontr)
    assume all: "\<not> (\<exists>i \<in> ?ids. k \<notin> dom (contents (st i)))"
    have ne: "co rs \<noteq> []" using co_ids(2) e(2) by auto
    have "\<not> is_ok (snd x)" if x: "x \<in> set (co rs)" for x
    proof (cases "snd x")
      case (Inr v)
      then have "\<not> hit v" using select_loop_error [OF e(1) [unfolded r] ne] x by blast
      then have "contents (st (fst x)) k = None" using ans [of x v] hit(1) [of "contents (st (fst x)) k"] x co Inr by simp
      then show ?thesis using all fst_ids [of x] x co by blast
    qed simp
    with select_loop_all_failed [OF ne _ co_ids(1), of "[]" "length bs" hit none] obtain es where
      "select_loop hit none (length bs) (co rs) [] = Inl (AllFailed es)" using co_ids(2) by auto
    then show False using e(1,3) r by auto
  qed
qed

lemma consult_ok:
  assumes q: "qwell q" and ok: "multi_ok (fst ` set bs) contents well repo val D st (pending q)"
    and r: "consult_queue Q repo k none r0 q = (r, q')" and "bs \<noteq> []"
    and err: "\<And>e. r0 = Inl e \<Longrightarrow> \<forall>es. e \<noteq> AllFailed es \<Longrightarrow> \<exists>i \<in> fst ` set bs. k \<notin> dom (contents (st i))"
  shows "qwell q' \<and> pending q' = pending q \<and> (\<forall>v. r = Inr v \<longrightarrow> r0 = Inr v \<or> v = none \<and> k \<notin> D)"
proof (cases "(\<exists>e. r0 = Inl e \<and> (\<forall>es. e \<noteq> AllFailed es))")
  case True
  then obtain e where e: "r0 = Inl e" "\<forall>es. e \<noteq> AllFailed es" by blast
  obtain g q1 where g: "q_get Q repo k q = (g, q1)" by (cases "q_get Q repo k q")
  have "consult_queue Q repo k none (Inl e) q = (and_then g (\<lambda>es. if es = [] then Inr none else Inl e), q1)"
    using e(2) g by (cases e) (auto simp: consult_queue_def)
  then have r': "r = and_then g (\<lambda>es. if es = [] then Inr none else Inl e)" "q' = q1" using r e(1) by simp_all
  note got = get_ok [OF q g]
  have "k \<notin> D" if "r = Inr v" for v
  proof
    assume k: "k \<in> D"
    have "g = Inr []" using that r'(1) by (auto simp: result_simps split: if_splits)
    then have none: "{(i, repo', k', b) \<in> pending q. repo' = repo \<and> k' = k} = {}" using got by auto
    obtain i where "i \<in> fst ` set bs" "k \<notin> dom (contents (st i))" using err [OF e] by blast
    then obtain j i where "(j, repo, k, i) \<in> pending q" using ok k unfolding multi_ok_def by blast
    then show False using none by blast
  qed
  then show ?thesis using got r' by (auto simp: result_simps split: if_splits)
next
  case False
  then have "r = r0 \<and> q' = q" using r by (cases r0) (auto simp: consult_queue_def split: blob_error.splits)
  then show ?thesis using q by simp
qed

lemma put_request_ok:
  assumes q: "qwell q" and ok: "multi_ok (fst ` set bs) contents well repo val D st (pending q)" and b: "b \<in> set bs"
    and put: "put_request (queue_on_put Q repo now) k (val k) b (st, q) = (r, st', q')"
  shows "qwell q' \<and> multi_ok (fst ` set bs) contents well repo val (if r = Inr () then insert k D else D) st' (pending q')"
proof -
  let ?ids = "fst ` set bs"
  obtain i B where ib: "b = (i, B)" by fastforce
  have i: "i \<in> ?ids" "well (st i)" "holds val (contents (st i))" using ok b ib by (force simp: multi_ok_def)+
  obtain p s where p: "bs_put B k (val k) (st i) = (p, s)" by (cases "bs_put B k (val k) (st i)")
  have "contents (st i) k = None \<or> contents (st i) k = Some (val k)" using i(3) by (cases "contents (st i) k") (auto simp: holds_def)
  from store_put [OF _ i(2) p this] b ib
  have s: "well s" "contents s = (contents (st i))(k \<mapsto> val k) \<or> contents s = contents (st i) \<and> p \<noteq> Inr ()" by auto
  then have ok1: "multi_ok ?ids contents well repo val D (st(i := s)) (pending q)" using multi_ok_stored [OF ok i(1)] by blast
  show ?thesis
  proof (cases p)
    case (Inl e)
    then show ?thesis using put p ib ok1 q by (auto simp: put_request_def)
  next
    case (Inr u)
    have k: "k \<in> dom (contents ((st(i := s)) i))" using s(2) Inr by auto
    obtain a q1 where a: "q_add Q (entry_new repo k i now) q = (a, q1)" by (cases "q_add Q (entry_new repo k i now) q")
    have "put_request (queue_on_put Q repo now) k (val k) b (st, q) = (map_ok (\<lambda>_. ()) a, st(i := s), q1)"
      using p ib Inr a by (simp add: put_request_def queue_on_put_def)
    then have out: "r = map_ok (\<lambda>_. ()) a" "st' = st(i := s)" "q' = q1" using put by simp_all
    from add_ok [OF q a] have "qwell q1" and rows: "pending q1 = pending q \<and> \<not> is_ok a \<or>
        (\<exists>j. pending q1 = insert (j, repo, k, i) (pending q))" by (auto simp: entry_new_def)
    moreover have "multi_ok ?ids contents well repo val (if r = Inr () then insert k D else D) (st(i := s)) (pending q1)"
      using rows
    proof
      assume "pending q1 = pending q \<and> \<not> is_ok a"
      then show ?thesis using ok1 out(1) by (cases a) auto
    next
      assume "\<exists>j. pending q1 = insert (j, repo, k, i) (pending q)"
      then obtain j where j: "pending q1 = insert (j, repo, k, i) (pending q)" by blast
      show ?thesis unfolding j by (cases "r = Inr ()") (simp_all only: if_True if_False multi_ok_row [OF ok1 k] i(1) simp_thms)
    qed
    ultimately show ?thesis using out by simp
  qed
qed

lemma put_requests_ok:
  assumes "qwell q" "multi_ok (fst ` set bs) contents well repo val D st (pending q)" "set cs \<subseteq> set bs"
    "put_requests (queue_on_put Q repo now) k (val k) cs (st, q) = (rs, st', q')"
  shows "qwell q' \<and> multi_ok (fst ` set bs) contents well repo val (if Inr () \<in> set rs then insert k D else D) st' (pending q')"
  using assms
proof (induction cs arbitrary: st q D rs)
  case (Cons b cs)
  obtain r st1 q1 where r: "put_request (queue_on_put Q repo now) k (val k) b (st, q) = (r, st1, q1)"
    by (cases "put_request (queue_on_put Q repo now) k (val k) b (st, q)") auto
  then obtain rs1 where rs1: "put_requests (queue_on_put Q repo now) k (val k) cs (st1, q1) = (rs1, st', q')" "rs = r # rs1"
    using Cons.prems(4) by (auto split: prod.splits)
  have b: "b \<in> set bs" "set cs \<subseteq> set bs" using Cons.prems(3) by auto
  note one = put_request_ok [OF Cons.prems(1,2) b(1) r]
  have "qwell q' \<and> multi_ok (fst ` set bs) contents well repo val
      (if Inr () \<in> set rs1 then insert k (if r = Inr () then insert k D else D) else if r = Inr () then insert k D else D) st' (pending q')"
    using Cons.IH [OF _ _ b(2) rs1(1)] one by blast
  moreover have "(if Inr () \<in> set rs1 then insert k (if r = Inr () then insert k D else D) else if r = Inr () then insert k D else D)
     = (if Inr () \<in> set rs then insert k D else D)" using rs1(2) by auto
  ultimately show ?case by simp
qed simp

end

end
