(* ===== verification/Healer.thy ===== *)
theory Healer
  imports Multiplexed Node_Streams
begin

text \<open>
  The healer of multiplexed blobstores, \<open>src/cmds/blobstore_healer/healer.rs\<close>: it copies blobs to the
  stores that miss them and removes the rows of the sync queue that are no longer needed. Together with
  \<open>Multiplexed\<close> it is shown that no blob is lost, through failures of stores and of the queue.

  The iteration order of hash sets and the order in which the futures of the healer run are arguments;
  the healing of one blob is not interleaved with that of another. The clock is an argument.
\<close>

section \<open>The healer\<close>

text \<open>\<open>itertools::group_by\<close> groups neighbours.\<close>

fun group_by_key :: "BlobstoreSyncQueueEntry list \<Rightarrow> (bytes \<times> BlobstoreSyncQueueEntry list) list" where
  "group_by_key [] = []"
| "group_by_key (e # es) =
     (case group_by_key es of
        [] \<Rightarrow> [(qe_blobstore_key e, [e])]
      | (key, entries) # groups \<Rightarrow>
          if key = qe_blobstore_key e then (key, e # entries) # groups
          else (qe_blobstore_key e, [e]) # (key, entries) # groups)"

fun fetch_blob_loop ::
    "(nat \<times> 's Blobstore) list \<Rightarrow> bytes \<Rightarrow> nat list \<Rightarrow> (nat \<Rightarrow> 's) \<Rightarrow> (blob_error + bytes) \<times> (nat \<Rightarrow> 's)" where
  "fetch_blob_loop blobstores key [] st = (Inl (BackendError ''None of the blobstores to fetch responded''), st)"
| "fetch_blob_loop blobstores key (bid # blobstores_to_fetch) st =
     (case map_of blobstores bid of
        None \<Rightarrow> (Inl (BackendError ''panic: blobstores_to_fetch contains only existing blobstores''), st)
      | Some bstore \<Rightarrow>
          (case bs_get bstore key (st bid) of
             (Inl _, s') \<Rightarrow> fetch_blob_loop blobstores key blobstores_to_fetch (st(bid := s'))
           | (Inr None, s') \<Rightarrow>
               (Inl (BackendError ''Blobstore {:?} retruned None even though it should contain data''), st(bid := s'))
           | (Inr (Some blob), s') \<Rightarrow> (Inr blob, st(bid := s'))))"

text \<open>\<open>Vec::pop\<close> takes the last element.\<close>

definition fetch_blob ::
    "(nat set \<Rightarrow> nat list) \<Rightarrow> (nat \<times> 's Blobstore) list \<Rightarrow> bytes \<Rightarrow> nat set \<Rightarrow> (nat \<Rightarrow> 's) \<Rightarrow> (blob_error + bytes) \<times> (nat \<Rightarrow> 's)" where
  "fetch_blob ho blobstores key seen_blobstores = fetch_blob_loop blobstores key (rev (ho seen_blobstores))"

fun heal_blobstores ::
    "(nat \<times> 's Blobstore) list \<Rightarrow> bytes \<Rightarrow> bytes \<Rightarrow> nat list \<Rightarrow> (nat \<Rightarrow> 's) \<Rightarrow> (nat \<times> bool) list \<times> (nat \<Rightarrow> 's)" where
  "heal_blobstores blobstores key blob [] st = ([], st)"
| "heal_blobstores blobstores key blob (bid # missing) st =
     (case map_of blobstores bid of
        None \<Rightarrow> heal_blobstores blobstores key blob missing st
      | Some bstore \<Rightarrow>
          (case bs_put bstore key blob (st bid) of
             (result, s') \<Rightarrow>
               (case heal_blobstores blobstores key blob missing (st(bid := s')) of
                  (rs, st') \<Rightarrow> ((bid, is_ok result) # rs, st'))))"

fun report_partial_heal ::
    "'q SyncQueue \<Rightarrow> int \<Rightarrow> DateTime \<Rightarrow> bytes \<Rightarrow> nat list \<Rightarrow> 'q \<Rightarrow> (blob_error + unit) \<times> 'q" where
  "report_partial_heal Q repo_id timestamp key [] q = (Inr (), q)"
| "report_partial_heal Q repo_id timestamp key (bid # healed) q =
     (case q_add Q \<lparr>qe_repo_id = repo_id, qe_blobstore_key = key, qe_blobstore_id = bid, qe_timestamp = timestamp, qe_id = None\<rparr> q of
        (Inl e, q') \<Rightarrow> (Inl e, q')
      | (Inr _, q') \<Rightarrow> report_partial_heal Q repo_id timestamp key healed q')"

definition older :: "DateTime \<Rightarrow> DateTime \<Rightarrow> bool" where
  "older a b \<longleftrightarrow> timestamp_nanos (Timestamp_from_DateTime a) < timestamp_nanos (Timestamp_from_DateTime b)"

text \<open>The future that heals one blob.\<close>

definition heal_future ::
    "('s, 'q) MultiplexedBlobstore \<Rightarrow> (nat set \<Rightarrow> nat list) \<Rightarrow> DateTime \<Rightarrow> bytes \<Rightarrow> BlobstoreSyncQueueEntry list \<Rightarrow> nat set \<Rightarrow> nat set
      \<Rightarrow> (nat \<Rightarrow> 's) \<times> 'q \<Rightarrow> (blob_error + BlobstoreSyncQueueEntry list) \<times> (nat \<Rightarrow> 's) \<times> 'q" where
  "heal_future M ho now key entries seen_blobstores missing_blobstores = (\<lambda>(st, q).
     case fetch_blob ho (mb_blobstores M) key seen_blobstores st of
       (Inl e, st1) \<Rightarrow> (Inl e, st1, q)
     | (Inr blob, st1) \<Rightarrow>
         (case heal_blobstores (mb_blobstores M) key blob (ho missing_blobstores) st1 of
            (heal_results, st2) \<Rightarrow>
              if list_all snd heal_results then (Inr entries, st2, q)
              else (case report_partial_heal (mb_queue M) (mb_repo_id M) now key (map fst (filter snd heal_results)) q of
                      (r, q') \<Rightarrow> (map_ok (\<lambda>_. []) r, st2, q'))))"

definition heal_blob ::
    "('s, 'q) MultiplexedBlobstore \<Rightarrow> (nat set \<Rightarrow> nat list) \<Rightarrow> DateTime \<Rightarrow> DateTime \<Rightarrow> bytes \<times> BlobstoreSyncQueueEntry list
      \<Rightarrow> ((nat \<Rightarrow> 's) \<times> 'q \<Rightarrow> (blob_error + BlobstoreSyncQueueEntry list) \<times> (nat \<Rightarrow> 's) \<times> 'q) option" where
  "heal_blob M ho now healing_deadline = (\<lambda>(key, entries).
     let seen_blobstores = {b \<in> set (map qe_blobstore_id entries). b \<in> set (map fst (mb_blobstores M))};
         missing_blobstores = set (map fst (mb_blobstores M)) - seen_blobstores
     in if missing_blobstores = {} then Some (\<lambda>s. (Inr entries, s))
        else if \<not> list_ex (\<lambda>entry. older (qe_timestamp entry) healing_deadline) entries then None
        else Some (heal_future M ho now key entries seen_blobstores missing_blobstores))"

fun run_futures ::
    "('w \<Rightarrow> (blob_error + BlobstoreSyncQueueEntry list) \<times> 'w) list \<Rightarrow> 'w \<Rightarrow> (blob_error + BlobstoreSyncQueueEntry list) \<times> 'w" where
  "run_futures [] s = (Inr [], s)"
| "run_futures (f # fs) s =
     (case f s of
        (Inl e, s') \<Rightarrow> (Inl e, s')
      | (Inr es, s') \<Rightarrow> (case run_futures fs s' of (r, s'') \<Rightarrow> (map_ok (\<lambda>es'. es @ es') r, s'')))"

definition ENTRY_HEALING_MIN_AGE :: int where
  "ENTRY_HEALING_MIN_AGE = 120"

definition heal ::
    "('s, 'q) MultiplexedBlobstore \<Rightarrow> (nat set \<Rightarrow> nat list)
      \<Rightarrow> (((nat \<Rightarrow> 's) \<times> 'q \<Rightarrow> (blob_error + BlobstoreSyncQueueEntry list) \<times> (nat \<Rightarrow> 's) \<times> 'q) list
           \<Rightarrow> ((nat \<Rightarrow> 's) \<times> 'q \<Rightarrow> (blob_error + BlobstoreSyncQueueEntry list) \<times> (nat \<Rightarrow> 's) \<times> 'q) list)
      \<Rightarrow> nat \<Rightarrow> DateTime \<Rightarrow> (nat \<Rightarrow> 's) \<times> 'q \<Rightarrow> (blob_error + unit) \<times> (nat \<Rightarrow> 's) \<times> 'q" where
  "heal M ho xo limit now s =
     (let healing_deadline = DateTime (timestamp_secs now - ENTRY_HEALING_MIN_AGE) (subsec_nanos now) (tz_offset_secs now)
      in case q_iter (mb_queue M) (mb_repo_id M) healing_deadline limit (snd s) of
           (Inl e, q) \<Rightarrow> (Inl e, fst s, q)
         | (Inr queue_entries, q) \<Rightarrow>
             (case run_futures (xo (List.map_filter (heal_blob M ho now healing_deadline) (group_by_key queue_entries))) (fst s, q) of
                (Inl e, s') \<Rightarrow> (Inl e, s')
              | (Inr cleaned, st', q') \<Rightarrow> (case q_del (mb_queue M) cleaned q' of (r, q'') \<Rightarrow> (r, st', q''))))"

section \<open>Healing loses nothing\<close>

lemma group_by_key_ok:
  "\<forall>x \<in> set (group_by_key es). set (snd x) \<subseteq> set es \<and> (\<forall>e \<in> set (snd x). qe_blobstore_key e = fst x)"
proof (induction es)
  case (Cons e es)
  show ?case
  proof (cases "group_by_key es")
    case (Cons x groups)
    obtain key g where x: "x = (key, g)" by fastforce
    have IH: "set g \<subseteq> set es" "\<forall>e \<in> set g. qe_blobstore_key e = key"
      "\<forall>y \<in> set groups. set (snd y) \<subseteq> set es \<and> (\<forall>e \<in> set (snd y). qe_blobstore_key e = fst y)"
      using Cons.IH Cons x by simp_all
    then have "\<forall>y \<in> set groups. set (snd y) \<subseteq> insert e (set es)" "set g \<subseteq> insert e (set es)" by blast+
    then show ?thesis using IH Cons x by simp
  qed simp
qed simp

lemma multi_ok_delete:
  assumes "multi_ok ids contents well repo val D st rows" "rows' \<subseteq> rows"
    "\<And>j k i. (j, repo, k, i) \<in> rows - rows' \<Longrightarrow> \<forall>b \<in> ids. k \<in> dom (contents (st b))"
  shows "multi_ok ids contents well repo val D st rows'"
  using assms unfolding multi_ok_def by blast

context multiplexed
begin

abbreviation ids_of :: "nat set" where
  "ids_of \<equiv> fst ` set bs"

lemma known_store:
  assumes "i \<in> ids_of"
  obtains B where "map_of bs i = Some B" "(i, B) \<in> set bs"
  using assms map_of_SomeD [of bs i] by (metis map_of_eq_None_iff not_None_eq)

lemma fetch_blob_loop_ok:
  assumes "multi_ok ids_of contents well repo val D st rows" "\<forall>i \<in> set bids. i \<in> ids_of \<and> k \<in> dom (contents (st i))"
    "fetch_blob_loop bs k bids st = (r, st')"
  shows "multi_ok ids_of contents well repo val D st' rows \<and> (\<forall>i. contents (st' i) = contents (st i)) \<and> (\<forall>v. r = Inr v \<longrightarrow> v = val k)"
  using assms
proof (induction bids arbitrary: st)
  case (Cons i bids)
  have i: "i \<in> ids_of" "k \<in> dom (contents (st i))" using Cons.prems(2) by auto
  obtain B where B: "map_of bs i = Some B" "(i, B) \<in> set bs" using known_store [OF i(1)] .
  have w: "well (st i)" "holds val (contents (st i))" using Cons.prems(1) i(1) by (auto simp: multi_ok_def)
  obtain g s where g: "bs_get B k (st i) = (g, s)" by (cases "bs_get B k (st i)")
  note got = store_get [OF B(2) w(1) g]
  have same: "contents ((st(i := s)) j) = contents (st j)" for j using got by simp
  have ok: "multi_ok ids_of contents well repo val D (st(i := s)) rows"
    using multi_ok_contents [OF Cons.prems(1)] got Cons.prems(1) by (auto simp: multi_ok_def)
  show ?case
  proof (cases g)
    case (Inl e)
    then have "fetch_blob_loop bs k bids (st(i := s)) = (r, st')" using Cons.prems(3) B(1) g by simp
    moreover have "\<forall>j \<in> set bids. j \<in> ids_of \<and> k \<in> dom (contents ((st(i := s)) j))" unfolding same using Cons.prems(2) by simp
    ultimately have "multi_ok ids_of contents well repo val D st' rows \<and> (\<forall>j. contents (st' j) = contents ((st(i := s)) j)) \<and> (\<forall>v. r = Inr v \<longrightarrow> v = val k)"
      using Cons.IH [OF ok] by blast
    then show ?thesis unfolding same .
  next
    case (Inr v)
    then have v: "v = contents (st i) k" using got by blast
    obtain u where "contents (st i) k = Some u" using i(2) by blast
    then have u: "v = Some u" "u = val k" using v w(2) by (simp_all add: holds_def)
    then have r: "r = Inr u" and st': "st' = st(i := s)" using Cons.prems(3) B(1) g Inr by simp_all
    have "multi_ok ids_of contents well repo val D st' rows" unfolding st' by (rule ok)
    moreover have "contents (st' j) = contents (st j)" for j using same [of j] st' by simp
    ultimately show ?thesis using r u(2) by simp
  qed
qed auto

lemma heal_blobstores_ok:
  assumes "multi_ok ids_of contents well repo val D st rows" "set bids \<subseteq> ids_of"
    "heal_blobstores bs k (val k) bids st = (rs, st')"
  shows "multi_ok ids_of contents well repo val D st' rows \<and> (\<forall>i. dom (contents (st i)) \<subseteq> dom (contents (st' i))) \<and>
     (\<forall>x \<in> set rs. snd x \<longrightarrow> k \<in> dom (contents (st' (fst x)))) \<and> map fst rs = bids"
  using assms
proof (induction bids arbitrary: st rs)
  case (Cons i bids)
  have i: "i \<in> ids_of" "set bids \<subseteq> ids_of" using Cons.prems(2) by auto
  obtain B where B: "map_of bs i = Some B" "(i, B) \<in> set bs" using known_store [OF i(1)] .
  have w: "well (st i)" "holds val (contents (st i))" using Cons.prems(1) i(1) by (auto simp: multi_ok_def)
  obtain p s where p: "bs_put B k (val k) (st i) = (p, s)" by (cases "bs_put B k (val k) (st i)")
  have "contents (st i) k = None \<or> contents (st i) k = Some (val k)" using w(2) by (cases "contents (st i) k") (auto simp: holds_def)
  note put = store_put [OF B(2) w(1) p this]
  have ok: "multi_ok ids_of contents well repo val D (st(i := s)) rows" using multi_ok_stored [OF Cons.prems(1) i(1)] put by blast
  have grow: "dom (contents (st j)) \<subseteq> dom (contents ((st(i := s)) j))" for j using put by auto
  obtain rs1 where rs1: "heal_blobstores bs k (val k) bids (st(i := s)) = (rs1, st')" "rs = (i, is_ok p) # rs1"
    using Cons.prems(3) B(1) p by (auto split: prod.splits)
  have rec: "multi_ok ids_of contents well repo val D st' rows \<and> (\<forall>j. dom (contents ((st(i := s)) j)) \<subseteq> dom (contents (st' j))) \<and>
     (\<forall>x \<in> set rs1. snd x \<longrightarrow> k \<in> dom (contents (st' (fst x)))) \<and> map fst rs1 = bids"
    using Cons.IH [OF ok i(2) rs1(1)] .
  have "k \<in> dom (contents (st' i))" if "is_ok p"
  proof -
    have "k \<in> dom (contents ((st(i := s)) i))" using put that by (cases p) auto
    then show ?thesis using rec by blast
  qed
  moreover have "dom (contents (st j)) \<subseteq> dom (contents (st' j))" for j using grow [of j] rec by (blast intro: subset_trans)
  ultimately show ?case using rec rs1(2) by simp
qed simp

lemma report_partial_heal_ok:
  assumes "qwell q" "multi_ok ids_of contents well repo val D st (pending q)" "\<forall>i \<in> set healed. k \<in> dom (contents (st i))"
    "report_partial_heal Q repo now k healed q = (r, q')"
  shows "qwell q' \<and> multi_ok ids_of contents well repo val D st (pending q') \<and> pending q \<subseteq> pending q'"
  using assms
proof (induction healed arbitrary: q)
  case (Cons i healed)
  let ?e = "\<lparr>qe_repo_id = repo, qe_blobstore_key = k, qe_blobstore_id = i, qe_timestamp = now, qe_id = None\<rparr>"
  obtain a q1 where a: "q_add Q ?e q = (a, q1)" by (cases "q_add Q ?e q")
  have rows: "qwell q1" "pending q1 = pending q \<or> (\<exists>j. pending q1 = insert (j, repo, k, i) (pending q))"
    using add_ok [OF Cons.prems(1) a] by auto
  have k: "k \<in> dom (contents (st i))" using Cons.prems(3) by simp
  have ok: "multi_ok ids_of contents well repo val D st (pending q1)"
    using rows(2) multi_ok_row(1) [OF Cons.prems(2) k] Cons.prems(2) by auto
  have sub: "pending q \<subseteq> pending q1" using rows(2) by auto
  show ?case
  proof (cases a)
    case (Inl e)
    then show ?thesis using Cons.prems(4) a rows(1) ok sub by simp
  next
    case (Inr b)
    then have "report_partial_heal Q repo now k healed q1 = (r, q')" using Cons.prems(4) a by simp
    from Cons.IH [OF rows(1) ok _ this] show ?thesis using Cons.prems(3) sub by auto
  qed
qed simp

lemma heal_future_ok:
  assumes M: "mb_blobstores M = bs" "mb_queue M = Q" "mb_repo_id M = repo" and hash: "hash_order ho"
    and q: "qwell q" and ok: "multi_ok ids_of contents well repo val D st (pending q)"
    and seen: "seen \<subseteq> ids_of" "\<forall>i \<in> seen. k \<in> dom (contents (st i))"
    and heal: "heal_future M ho now k es seen (ids_of - seen) (st, q) = (r, st', q')"
  shows "qwell q' \<and> multi_ok ids_of contents well repo val D st' (pending q') \<and> pending q \<subseteq> pending q' \<and>
     (\<forall>i. dom (contents (st i)) \<subseteq> dom (contents (st' i))) \<and>
     (\<forall>xs. r = Inr xs \<longrightarrow> xs = [] \<or> xs = es \<and> (\<forall>i \<in> ids_of. k \<in> dom (contents (st' i))))"
proof -
  have fin: "finite seen" "finite (ids_of - seen)" using seen(1) finite_subset by auto
  have ho: "set (rev (ho seen)) = seen" "set (ho (ids_of - seen)) = ids_of - seen" using hash fin by (simp_all add: hash_order_def)
  obtain f st1 where f: "fetch_blob_loop bs k (rev (ho seen)) st = (f, st1)" by (cases "fetch_blob_loop bs k (rev (ho seen)) st")
  have "\<forall>i \<in> set (rev (ho seen)). i \<in> ids_of \<and> k \<in> dom (contents (st i))" unfolding ho using seen by blast
  from fetch_blob_loop_ok [OF ok this f]
  have st1: "multi_ok ids_of contents well repo val D st1 (pending q)" "\<And>i. contents (st1 i) = contents (st i)" "\<And>v. f = Inr v \<Longrightarrow> v = val k" by auto
  show ?thesis
  proof (cases f)
    case (Inl e)
    then show ?thesis using heal f M q st1(1,2) by (auto simp: heal_future_def fetch_blob_def)
  next
    case (Inr v)
    have v: "v = val k" using st1(3) Inr by blast
    obtain rs st2 where rs: "heal_blobstores bs k (val k) (ho (ids_of - seen)) st1 = (rs, st2)"
      by (cases "heal_blobstores bs k (val k) (ho (ids_of - seen)) st1")
    have miss: "set (ho (ids_of - seen)) \<subseteq> ids_of" unfolding ho by blast
    note healed = heal_blobstores_ok [OF st1(1) miss rs, unfolded st1(2)]
    have st2: "multi_ok ids_of contents well repo val D st2 (pending q)" "\<And>i. dom (contents (st i)) \<subseteq> dom (contents (st2 i))"
      "\<And>x. x \<in> set rs \<Longrightarrow> snd x \<Longrightarrow> k \<in> dom (contents (st2 (fst x)))" using healed by blast+
    have "map fst rs = ho (ids_of - seen)" using healed by blast
    then have rs_ids: "fst ` set rs = ids_of - seen" using ho(2) by (metis list.set_map)
    show ?thesis
    proof (cases "list_all snd rs")
      case True
      have "k \<in> dom (contents (st2 i))" if i: "i \<in> ids_of" for i
      proof (cases "i \<in> seen")
        case True
        then show ?thesis using seen(2) st2(2) by blast
      next
        case False
        then obtain x where x: "x \<in> set rs" "fst x = i" using i rs_ids by (metis DiffI imageE)
        then show ?thesis using st2(3) [OF x(1)] True by (auto simp: list_all_iff)
      qed
      moreover have "r = Inr es" "st' = st2" "q' = q" using heal f M Inr v rs True by (simp_all add: heal_future_def fetch_blob_def)
      ultimately show ?thesis using q st2(1,2) by simp
    next
      case False
      obtain p q1 where p: "report_partial_heal Q repo now k (map fst (filter snd rs)) q = (p, q1)"
        by (cases "report_partial_heal Q repo now k (map fst (filter snd rs)) q")
      have out: "r = map_ok (\<lambda>_. []) p" "st' = st2" "q' = q1"
        using heal f M Inr v rs False p by (simp_all add: heal_future_def fetch_blob_def)
      have "\<forall>i \<in> set (map fst (filter snd rs)). k \<in> dom (contents (st2 i))" using st2(3) by auto
      from report_partial_heal_ok [OF q st2(1) this p] show ?thesis
        unfolding out using st2(2) by (cases p) auto
    qed
  qed
qed

lemma heal_blob_ok:
  assumes M: "mb_blobstores M = bs" "mb_queue M = Q" "mb_repo_id M = repo" and hash: "hash_order ho"
    and q: "qwell q" and ok: "multi_ok ids_of contents well repo val D st (pending q)"
    and es: "pending_of ` set es \<subseteq> pending q" "\<forall>e \<in> set es. qe_blobstore_key e = k \<and> qe_repo_id e = repo"
    and heal: "heal_blob M ho now dl (k, es) = Some f" "f (st, q) = (r, st', q')"
  shows "qwell q' \<and> multi_ok ids_of contents well repo val D st' (pending q') \<and> pending q \<subseteq> pending q' \<and>
     (\<forall>i. dom (contents (st i)) \<subseteq> dom (contents (st' i))) \<and>
     (\<forall>xs. r = Inr xs \<longrightarrow> xs = [] \<or> xs = es \<and> (\<forall>i \<in> ids_of. k \<in> dom (contents (st' i))))"
proof -
  define seen where "seen = {b \<in> set (map qe_blobstore_id es). b \<in> ids_of}"
  have seen: "seen \<subseteq> ids_of" "\<forall>i \<in> seen. k \<in> dom (contents (st i))"
  proof -
    show "\<forall>i \<in> seen. k \<in> dom (contents (st i))"
    proof
      fix i assume "i \<in> seen"
      then obtain e where e: "e \<in> set es" "qe_blobstore_id e = i" "i \<in> ids_of" by (auto simp: seen_def)
      then have "(the (qe_id e), repo, k, i) \<in> pending q" using es by (auto simp: pending_of_def)
      then show "k \<in> dom (contents (st i))" using ok e(3) unfolding multi_ok_def by blast
    qed
  qed (auto simp: seen_def)
  show ?thesis
  proof (cases "ids_of - seen = {}")
    case True
    have "f = (\<lambda>s. (Inr es, s))" using heal(1) True M(1) by (simp add: heal_blob_def seen_def Let_def)
    then have out: "r = Inr es" "st' = st" "q' = q" using heal(2) by simp_all
    have "\<forall>i \<in> ids_of. k \<in> dom (contents (st i))" using True seen(2) by blast
    then show ?thesis unfolding out using q ok by simp
  next
    case False
    then have "f = heal_future M ho now k es seen (ids_of - seen)"
      using heal(1) M(1) by (auto simp: heal_blob_def seen_def Let_def split: if_splits)
    then show ?thesis using heal_future_ok [OF M hash q ok seen] heal(2) by simp
  qed
qed

lemma run_futures_ok:
  assumes M: "mb_blobstores M = bs" "mb_queue M = Q" "mb_repo_id M = repo" and hash: "hash_order ho"
    and fs: "\<forall>f \<in> set fs. \<exists>k es. heal_blob M ho now dl (k, es) = Some f \<and> pending_of ` set es \<subseteq> P \<and>
        (\<forall>e \<in> set es. qe_blobstore_key e = k \<and> qe_repo_id e = repo)"
    and "qwell q" "multi_ok ids_of contents well repo val D st (pending q)" "P \<subseteq> pending q"
    and "run_futures fs (st, q) = (r, st', q')"
  shows "qwell q' \<and> multi_ok ids_of contents well repo val D st' (pending q') \<and> pending q \<subseteq> pending q' \<and>
     (\<forall>i. dom (contents (st i)) \<subseteq> dom (contents (st' i))) \<and>
     (\<forall>xs. r = Inr xs \<longrightarrow> pending_of ` set xs \<subseteq> P \<and> (\<forall>e \<in> set xs. \<forall>i \<in> ids_of. qe_blobstore_key e \<in> dom (contents (st' i))))"
  using fs assms(6-)
proof (induction fs arbitrary: st q r)
  case (Cons f fs)
  obtain k es where f: "heal_blob M ho now dl (k, es) = Some f" "pending_of ` set es \<subseteq> P"
    "\<forall>e \<in> set es. qe_blobstore_key e = k \<and> qe_repo_id e = repo" using Cons.prems(1) by auto
  obtain r1 st1 q1 where r1: "f (st, q) = (r1, st1, q1)" by (cases "f (st, q)") auto
  have es: "pending_of ` set es \<subseteq> pending q" using f(2) Cons.prems(4) by blast
  note one = heal_blob_ok [OF M hash Cons.prems(2,3) es f(3,1) r1]
  show ?case
  proof (cases r1)
    case (Inl e)
    then have "r = Inl e" "st' = st1" "q' = q1" using Cons.prems(5) r1 by simp_all
    then show ?thesis using one by simp
  next
    case (Inr xs1)
    obtain r2 where r2: "run_futures fs (st1, q1) = (r2, st', q')" "r = map_ok (\<lambda>xs. xs1 @ xs) r2"
      using Cons.prems(5) r1 Inr by (auto split: prod.splits)
    have rest: "\<forall>f \<in> set fs. \<exists>k es. heal_blob M ho now dl (k, es) = Some f \<and> pending_of ` set es \<subseteq> P \<and>
        (\<forall>e \<in> set es. qe_blobstore_key e = k \<and> qe_repo_id e = repo)" using Cons.prems(1) by simp
    have sub: "P \<subseteq> pending q1" using one Cons.prems(4) by blast
    have rec: "qwell q' \<and> multi_ok ids_of contents well repo val D st' (pending q') \<and> pending q1 \<subseteq> pending q' \<and>
     (\<forall>i. dom (contents (st1 i)) \<subseteq> dom (contents (st' i))) \<and>
     (\<forall>xs. r2 = Inr xs \<longrightarrow> pending_of ` set xs \<subseteq> P \<and> (\<forall>e \<in> set xs. \<forall>i \<in> ids_of. qe_blobstore_key e \<in> dom (contents (st' i))))"
      by (rule Cons.IH [OF rest _ _ sub r2(1)]) (use one in blast)+
    note one_grow = one [THEN conjunct2, THEN conjunct2, THEN conjunct2, THEN conjunct1, THEN spec]
      and one_rows = one [THEN conjunct2, THEN conjunct2, THEN conjunct1]
      and rec_grow = rec [THEN conjunct2, THEN conjunct2, THEN conjunct2, THEN conjunct1, THEN spec]
      and rec_rows = rec [THEN conjunct2, THEN conjunct2, THEN conjunct1]
      and rec_out = rec [THEN conjunct2, THEN conjunct2, THEN conjunct2, THEN conjunct2, THEN spec, THEN mp]
    have "xs1 = [] \<or> xs1 = es \<and> (\<forall>i \<in> ids_of. k \<in> dom (contents (st1 i)))" using one Inr by blast
    then have all: "xs1 = [] \<or> xs1 = es \<and> (\<forall>i \<in> ids_of. k \<in> dom (contents (st' i)))" using rec_grow by (meson subsetD)
    have xs1: "pending_of ` set xs1 \<subseteq> P" "\<forall>e \<in> set xs1. \<forall>i \<in> ids_of. qe_blobstore_key e \<in> dom (contents (st' i))"
    proof -
      show "pending_of ` set xs1 \<subseteq> P" using all f(2) by (cases "xs1 = []") simp_all
      show "\<forall>e \<in> set xs1. \<forall>i \<in> ids_of. qe_blobstore_key e \<in> dom (contents (st' i))"
      proof (intro ballI)
        fix e i assume e: "e \<in> set xs1" and i: "i \<in> ids_of"
        then have "xs1 = es" "k \<in> dom (contents (st' i))" using all by auto
        then show "qe_blobstore_key e \<in> dom (contents (st' i))" using e f(3) by simp
      qed
    qed
    have grow: "dom (contents (st i)) \<subseteq> dom (contents (st' i))" for i
      by (rule subset_trans [of _ "dom (contents (st1 i))"]) (simp_all only: one_grow rec_grow)
    have rows: "pending q \<subseteq> pending q'" using one_rows rec_rows by (rule subset_trans)
    have out: "pending_of ` set xs \<subseteq> P \<and> (\<forall>e \<in> set xs. \<forall>i \<in> ids_of. qe_blobstore_key e \<in> dom (contents (st' i)))"
      if r: "r = Inr xs" for xs
    proof -
      obtain xs2 where xs2: "r2 = Inr xs2" "xs = xs1 @ xs2" using r r2(2) by (cases r2) simp_all
      then have "pending_of ` set xs2 \<subseteq> P \<and> (\<forall>e \<in> set xs2. \<forall>i \<in> ids_of. qe_blobstore_key e \<in> dom (contents (st' i)))"
        by (intro rec_out)
      then show ?thesis unfolding xs2(2) set_append image_Un Un_subset_iff ball_Un using xs1 by (elim conjE, intro conjI)
    qed
    show ?thesis
      by (intro conjI allI impI) (rule rec [THEN conjunct1] rec [THEN conjunct2, THEN conjunct1] rows grow | rule out [THEN conjunct1], assumption
        | rule out [THEN conjunct2], assumption)+
  qed
qed simp

lemma heal_ok:
  assumes M: "mb_blobstores M = bs" "mb_queue M = Q" "mb_repo_id M = repo" and hash: "hash_order ho" "\<forall>fs. set (xo fs) = set fs"
    and q: "qwell q" and ok: "multi_ok ids_of contents well repo val D st (pending q)"
    and heal: "heal M ho xo limit now (st, q) = (r, st', q')"
  shows "qwell q' \<and> multi_ok ids_of contents well repo val D st' (pending q')"
proof -
  define dl where "dl = DateTime (timestamp_secs now - ENTRY_HEALING_MIN_AGE) (subsec_nanos now) (tz_offset_secs now)"
  obtain g q1 where g: "q_iter Q repo dl limit q = (g, q1)" by (cases "q_iter Q repo dl limit q")
  note it = iter_ok [OF q g]
  show ?thesis
  proof (cases g)
    case (Inl e)
    then have "st' = st" "q' = q1" using heal g M by (simp_all add: heal_def dl_def [symmetric])
    then show ?thesis using it ok by simp
  next
    case (Inr es)
    have es: "pending_of ` set es \<subseteq> pending q" "\<forall>e \<in> set es. qe_repo_id e = repo" using it Inr by (auto simp: pending_of_def)
    let ?fs = "xo (List.map_filter (heal_blob M ho now dl) (group_by_key es))"
    have fs: "\<forall>f \<in> set ?fs. \<exists>k gs. heal_blob M ho now dl (k, gs) = Some f \<and> pending_of ` set gs \<subseteq> pending q \<and>
        (\<forall>e \<in> set gs. qe_blobstore_key e = k \<and> qe_repo_id e = repo)"
    proof
      fix f assume "f \<in> set ?fs"
      then obtain x where x: "x \<in> set (group_by_key es)" "heal_blob M ho now dl x = Some f"
        using hash(2) by (auto simp: List.map_filter_def)
      then have "set (snd x) \<subseteq> set es" "\<forall>e \<in> set (snd x). qe_blobstore_key e = fst x" using group_by_key_ok by blast+
      then show "\<exists>k gs. heal_blob M ho now dl (k, gs) = Some f \<and> pending_of ` set gs \<subseteq> pending q \<and>
        (\<forall>e \<in> set gs. qe_blobstore_key e = k \<and> qe_repo_id e = repo)"
        using x(2) es by (intro exI [of _ "fst x"] exI [of _ "snd x"]) auto
    qed
    obtain c st1 q2 where c: "run_futures ?fs (st, q1) = (c, st1, q2)" by (cases "run_futures ?fs (st, q1)") auto
    have it': "qwell q1" "multi_ok ids_of contents well repo val D st (pending q1)" "pending q \<subseteq> pending q1" using it ok by auto
    note run = run_futures_ok [OF M hash(1) fs it' c]
    show ?thesis
    proof (cases c)
      case (Inl e)
      then have "st' = st1" "q' = q2" using heal g M Inr c by (simp_all add: heal_def dl_def [symmetric])
      then show ?thesis using run by simp
    next
      case cleaned: (Inr xs)
      obtain d q3 where d: "q_del Q xs q2 = (d, q3)" by (cases "q_del Q xs q2")
      have out: "st' = st1" "q' = q3" using heal g M Inr c cleaned d by (simp_all add: heal_def dl_def [symmetric])
      have xs: "pending_of ` set xs \<subseteq> pending q2" "\<forall>e \<in> set xs. \<forall>i \<in> ids_of. qe_blobstore_key e \<in> dom (contents (st1 i))"
      proof -
        note all = run [THEN conjunct2, THEN conjunct2, THEN conjunct2, THEN conjunct2, THEN spec, THEN mp, OF cleaned]
        have "pending q1 \<subseteq> pending q2" by (rule run [THEN conjunct2, THEN conjunct2, THEN conjunct1])
        then show "pending_of ` set xs \<subseteq> pending q2" using all [THEN conjunct1] it'(3) by (metis subset_trans)
        show "\<forall>e \<in> set xs. \<forall>i \<in> ids_of. qe_blobstore_key e \<in> dom (contents (st1 i))" by (rule all [THEN conjunct2])
      qed
      have q2: "qwell q2" by (rule run [THEN conjunct1])
      note del = del_ok [OF q2 xs(1) d]
      have "multi_ok ids_of contents well repo val D st1 (pending q3)"
      proof (rule multi_ok_delete)
        show "multi_ok ids_of contents well repo val D st1 (pending q2)" by (rule run [THEN conjunct2, THEN conjunct1])
        show "pending q3 \<subseteq> pending q2" by (rule del [THEN conjunct2, THEN conjunct1])
        have gone: "pending q2 - pending_of ` set xs \<subseteq> pending q3" by (rule del [THEN conjunct2, THEN conjunct2, THEN conjunct1])
        fix j k i assume "(j, repo, k, i) \<in> pending q2 - pending q3"
        then have "(j, repo, k, i) \<in> pending_of ` set xs" using gone by (simp only: subset_iff Diff_iff) blast
        then obtain e where "e \<in> set xs" "pending_of e = (j, repo, k, i)" by (metis imageE)
        then show "\<forall>b \<in> ids_of. k \<in> dom (contents (st1 b))" using xs(2) by (auto simp: pending_of_def)
      qed
      then show ?thesis unfolding out using del [THEN conjunct1] by (intro conjI)
    qed
  qed
qed

lemma multi_get_ok:
  assumes M: "mb_blobstores M = bs" "mb_queue M = Q" "mb_repo_id M = repo" "bs \<noteq> []" and co: "\<forall>rs. mset (co rs) = mset rs"
    and q: "qwell q" and ok: "multi_ok ids_of contents well repo val D st (pending q)"
    and get: "multi_get M co k (st, q) = (r, st', q')"
  shows "qwell q' \<and> multi_ok ids_of contents well repo val D st' (pending q') \<and> answers val D (GetOp k) (Got r)"
proof -
  obtain rs st1 where rs: "start_requests (\<lambda>B. bs_get B k) bs st = (rs, st1)" by (cases "start_requests (\<lambda>B. bs_get B k) bs st")
  define r0 where "r0 = select_loop (\<lambda>value. value \<noteq> None) None (length bs) (co rs) []"
  obtain r1 q1 where c: "consult_queue Q repo k None r0 q = (r1, q1)" by (cases "consult_queue Q repo k None r0 q")
  have "multi_get M co k (st, q) = (r1, st1, q1)"
    using M(1-3) rs c by (simp add: multi_get_def base_get_def r0_def)
  then have out: "r = r1" "st' = st1" "q' = q1" using get by simp_all
  have f: "\<forall>(i, B) \<in> set bs. \<forall>s r s'. well s \<longrightarrow> bs_get B k s = (r, s') \<longrightarrow>
      well s' \<and> contents s' = contents s \<and> (\<forall>v. r = Inr v \<longrightarrow> v = contents s k)" unfolding Ball_def split_paired_All prod.case by (intro allI impI) (rule store_get)
  note sel = select_ok [where ans = "\<lambda>x. x" and k = k and co = co and hit = "\<lambda>value. value \<noteq> None" and none = None,
      OF ok co [rule_format] rs r0_def f refl refl]
  have found: "r0 = Inr v \<Longrightarrow> v = None \<and> k \<notin> D \<or> v = Some (val k)" for v
    using sel(2,3) [where v = v] by (cases v) simp_all
  have "qwell q1 \<and> pending q1 = pending q \<and> (\<forall>v. r1 = Inr v \<longrightarrow> r0 = Inr v \<or> v = None \<and> k \<notin> D)"
    by (rule consult_ok [OF q ok c M(4)]) (rule sel(4) [OF _ M(4)])
  then show ?thesis unfolding out using sel(1) found by auto
qed

lemma multi_is_present_ok:
  assumes M: "mb_blobstores M = bs" "mb_queue M = Q" "mb_repo_id M = repo" "bs \<noteq> []" and co: "\<forall>rs. mset (co rs) = mset rs"
    and q: "qwell q" and ok: "multi_ok ids_of contents well repo val D st (pending q)"
    and get: "multi_is_present M co k (st, q) = (r, st', q')"
  shows "qwell q' \<and> multi_ok ids_of contents well repo val D st' (pending q') \<and> answers val D (IsPresentOp k) (Present r)"
proof -
  obtain rs st1 where rs: "start_requests (\<lambda>B. bs_is_present B k) bs st = (rs, st1)"
    by (cases "start_requests (\<lambda>B. bs_is_present B k) bs st")
  define r0 where "r0 = select_loop (\<lambda>value. value) False (length bs) (co rs) []"
  obtain r1 q1 where c: "consult_queue Q repo k False r0 q = (r1, q1)" by (cases "consult_queue Q repo k False r0 q")
  have "multi_is_present M co k (st, q) = (r1, st1, q1)"
    using M(1-3) rs c by (simp add: multi_is_present_def base_is_present_def r0_def)
  then have out: "r = r1" "st' = st1" "q' = q1" using get by simp_all
  have none: "False = (None \<noteq> (None :: bytes option))" by simp
  have f: "\<forall>(i, B) \<in> set bs. \<forall>s r s'. well s \<longrightarrow> bs_is_present B k s = (r, s') \<longrightarrow>
      well s' \<and> contents s' = contents s \<and> (\<forall>v. r = Inr v \<longrightarrow> v = (contents s k \<noteq> None))" unfolding Ball_def split_paired_All prod.case by (intro allI impI) (rule store_is_present)
  note sel = select_ok [where ans = "\<lambda>x. x \<noteq> None" and k = k and co = co and hit = "\<lambda>value. value" and none = False,
      OF ok co [rule_format] rs r0_def f refl none]
  have "qwell q1 \<and> pending q1 = pending q \<and> (\<forall>v. r1 = Inr v \<longrightarrow> r0 = Inr v \<or> v = False \<and> k \<notin> D)"
    by (rule consult_ok [OF q ok c M(4)]) (rule sel(4) [OF _ M(4)])
  then show ?thesis unfolding out using sel(1) sel(3) [where v = False] by auto
qed

lemma multi_put_ok:
  assumes M: "mb_blobstores M = bs" "mb_queue M = Q" "mb_repo_id M = repo" and cs: "set cs \<subseteq> set bs"
    and q: "qwell q" and ok: "multi_ok ids_of contents well repo val D st (pending q)"
    and put: "multi_put M now cs k (val k) (st, q) = (r, st', q')"
  shows "qwell q' \<and> multi_ok ids_of contents well repo val (if r = Some (Inr ()) then insert k D else D) st' (pending q')"
proof -
  obtain rs st1 q1 where rs: "put_requests (queue_on_put Q repo now) k (val k) cs (st, q) = (rs, st1, q1)"
    by (cases "put_requests (queue_on_put Q repo now) k (val k) cs (st, q)") auto
  note one = put_requests_ok [OF q ok cs rs]
  have "st' = st1" "q' = q1" using put rs M by (simp_all add: multi_put_def base_put_def)
  moreover have "(r = Some (Inr ())) = (Inr () \<in> set rs)"
    using put rs M by (auto simp: multi_put_def base_put_def split: if_splits) (metis last_in_set)
  ultimately show ?thesis using one by simp
qed

end

section \<open>Runs\<close>

text \<open>The requests of clients, the requests of a \<open>put\<close> that complete after it has returned, and the healer, in
  any order. A client's request is recorded with its answer.\<close>

inductive multi_step ::
    "('s, 'q) MultiplexedBlobstore \<Rightarrow> (bytes \<Rightarrow> bytes) \<Rightarrow> (blob_op \<times> blob_answer) list \<Rightarrow> (nat \<Rightarrow> 's) \<times> 'q \<Rightarrow> (nat \<Rightarrow> 's) \<times> 'q \<Rightarrow> bool"
  for M :: "('s, 'q) MultiplexedBlobstore" and val :: "bytes \<Rightarrow> bytes" where
  step_get: "\<forall>rs. mset (co rs) = mset rs \<Longrightarrow> multi_get M co k s = (r, s') \<Longrightarrow> multi_step M val [(GetOp k, Got r)] s s'"
| step_is_present: "\<forall>rs. mset (co rs) = mset rs \<Longrightarrow> multi_is_present M co k s = (p, s') \<Longrightarrow>
     multi_step M val [(IsPresentOp k, Present p)] s s'"
| step_put: "set completed \<subseteq> set (mb_blobstores M) \<Longrightarrow> multi_put M now completed k (val k) s = (Some u, s') \<Longrightarrow>
     multi_step M val [(PutOp k (val k), Stored u)] s s'"
| step_put_waiting: "set completed \<subseteq> set (mb_blobstores M) \<Longrightarrow> multi_put M now completed k (val k) s = (None, s') \<Longrightarrow>
     multi_step M val [] s s'"
| step_put_late: "b \<in> set (mb_blobstores M) \<Longrightarrow>
     put_request (queue_on_put (mb_queue M) (mb_repo_id M) now) k (val k) b s = (u, s') \<Longrightarrow> multi_step M val [] s s'"
| step_heal: "hash_order ho \<Longrightarrow> \<forall>fs. set (xo fs) = set fs \<Longrightarrow> heal M ho xo limit now s = (u, s') \<Longrightarrow> multi_step M val [] s s'"

inductive multi_run ::
    "('s, 'q) MultiplexedBlobstore \<Rightarrow> (bytes \<Rightarrow> bytes) \<Rightarrow> (blob_op \<times> blob_answer) list \<Rightarrow> (nat \<Rightarrow> 's) \<times> 'q \<Rightarrow> (nat \<Rightarrow> 's) \<times> 'q \<Rightarrow> bool"
  for M :: "('s, 'q) MultiplexedBlobstore" and val :: "bytes \<Rightarrow> bytes" where
  run_nil: "multi_run M val [] s s"
| run_step: "multi_step M val h s s1 \<Longrightarrow> multi_run M val hs s1 s' \<Longrightarrow> multi_run M val (h @ hs) s s'"

fun stored_in :: "(blob_op \<times> blob_answer) list \<Rightarrow> bytes set" where
  "stored_in [] = {}"
| "stored_in ((op, a) # hs) = stored_by op a \<union> stored_in hs"

definition history_ok :: "(bytes \<Rightarrow> bytes) \<Rightarrow> bytes set \<Rightarrow> (blob_op \<times> blob_answer) list \<Rightarrow> bool" where
  "history_ok val D hs \<longleftrightarrow> run_answers val D (map fst hs) (map snd hs)"

lemma history_ok_append:
  "history_ok val D (h @ hs) \<longleftrightarrow> history_ok val D h \<and> history_ok val (D \<union> stored_in h) hs"
  by (induction h arbitrary: D) (auto simp: history_ok_def Un_assoc)

lemma stored_in_append [simp]: "stored_in (h @ hs) = stored_in h \<union> stored_in hs"
  by (induction h) (auto simp: Un_assoc)

lemma multi_ok_weaken:
  "multi_ok ids contents well repo val D st rows \<Longrightarrow> D' \<subseteq> D \<Longrightarrow> multi_ok ids contents well repo val D' st rows"
  unfolding multi_ok_def by (elim conjE, intro conjI) (assumption, assumption, meson subsetD)

context multiplexed
begin

lemma multi_step_ok:
  assumes step: "multi_step M val h s s'" and M: "mb_blobstores M = bs" "mb_queue M = Q" "bs \<noteq> []"
    and q: "qwell (snd s)" and ok: "multi_ok ids_of contents well (mb_repo_id M) val D (fst s) (pending (snd s))"
  shows "qwell (snd s') \<and> multi_ok ids_of contents well (mb_repo_id M) val (D \<union> stored_in h) (fst s') (pending (snd s')) \<and> history_ok val D h"
proof -
  obtain st q st' q' where s: "s = (st, q)" "s' = (st', q')" by fastforce
  note pre = q [unfolded s(1) snd_conv] ok [unfolded s(1) fst_conv snd_conv]
  show ?thesis
    using step [unfolded s]
  proof cases
    case (step_get co k r)
    then show ?thesis using multi_get_ok [OF M(1,2) refl M(3) step_get(2) pre step_get(3)] by (simp add: history_ok_def s)
  next
    case (step_is_present co k p)
    then show ?thesis using multi_is_present_ok [OF M(1,2) refl M(3) step_is_present(2) pre step_is_present(3)] by (simp add: history_ok_def s)
  next
    case (step_put cs now k u)
    have cs: "set cs \<subseteq> set bs" using step_put(2) M(1) by simp
    show ?thesis using multi_put_ok [OF M(1,2) refl cs pre step_put(3)] step_put(1) by (cases u) (auto simp: history_ok_def s)
  next
    case (step_put_waiting cs now k)
    have cs: "set cs \<subseteq> set bs" using step_put_waiting(2) M(1) by simp
    show ?thesis using multi_put_ok [OF M(1,2) refl cs pre step_put_waiting(3)] step_put_waiting(1) by (simp add: history_ok_def s)
  next
    case (step_put_late b now k u)
    have b: "b \<in> set bs" using step_put_late(2) M(1) by simp
    have "qwell q' \<and> multi_ok ids_of contents well (mb_repo_id M) val (if u = Inr () then insert k D else D) st' (pending q')"
      using put_request_ok [OF pre b] step_put_late(3) M(2) by simp
    moreover have "D \<subseteq> (if u = Inr () then insert k D else D)" by auto
    ultimately show ?thesis using step_put_late(1) multi_ok_weaken by (simp add: history_ok_def s) blast
  next
    case (step_heal ho xo limit now u)
    then show ?thesis using heal_ok [OF M(1,2) refl step_heal(2,3) pre step_heal(4)] by (simp add: history_ok_def s)
  qed
qed

lemma multi_run_ok:
  assumes "multi_run M val hs s s'" "mb_blobstores M = bs" "mb_queue M = Q" "bs \<noteq> []"
    "qwell (snd s)" "multi_ok ids_of contents well (mb_repo_id M) val D (fst s) (pending (snd s))"
  shows "qwell (snd s') \<and> multi_ok ids_of contents well (mb_repo_id M) val (D \<union> stored_in hs) (fst s') (pending (snd s')) \<and> history_ok val D hs"
  using assms
proof (induction arbitrary: D rule: multi_run.induct)
  case (run_nil s)
  then show ?case by (simp add: history_ok_def)
next
  case (run_step h s s1 hs s')
  note one = multi_step_ok [OF run_step.hyps(1) run_step.prems]
  note rest = run_step.IH [OF run_step.prems(1-3) one [THEN conjunct1] one [THEN conjunct2, THEN conjunct1]]
  show ?case using one rest by (simp add: history_ok_append Un_assoc)
qed

end

interpretation sql_multiplexed: multiplexed "SqlBlobstoreSyncQueue ch ro" sql_pending "sql_queue_ok ro"
    "map (\<lambda>i. (i, EagerMemblob)) [0..<n]" "\<lambda>hash. hash" "\<lambda>_. True" for ch ro n
  by unfold_locales (auto simp: EagerMemblob_def EagerMemblob_get_def EagerMemblob_put_def is_present_default_def comp_def)



definition sample_multiplexed :: "(memblob, sync_queue_db) MultiplexedBlobstore" where
  "sample_multiplexed = \<lparr>mb_repo_id = 0, mb_blobstores = [(0, EagerMemblob), (1, EagerMemblob)],
     mb_queue = SqlBlobstoreSyncQueue \<lparr>offset_in_range = \<lambda>_. True, secs_in_range = \<lambda>_. True\<rparr> (\<lambda>rs. rs)\<rparr>"

lemmas sample_multiplexed_simps = sample_multiplexed_def SqlBlobstoreSyncQueue_def EagerMemblob_def EagerMemblob_get_def EagerMemblob_put_def
  multi_put_def base_put_def put_request_def queue_on_put_def entry_new_def sql_queue_add_def InsertEntry_def
  multi_get_def base_get_def consult_queue_def

lemma sample_multiplexed_run:
  "\<exists>s'. multi_run sample_multiplexed (\<lambda>_. [7]) [(PutOp [1] [7], Stored (Inr ())), (GetOp [1], Got (Inr (Some [7])))]
      (\<lambda>_. Map.empty, \<lparr>sq_rows = [], sq_autoincrement = 0\<rparr>) s'"
proof -
  let ?val = "\<lambda>_. [7] :: bytes" and ?s = "(\<lambda>_. Map.empty, \<lparr>sq_rows = [], sq_autoincrement = 0\<rparr>)"
  let ?put = "multi_put sample_multiplexed (DateTime 0 0 0) [(1, EagerMemblob)] [1] [7] ?s"
  let ?get = "multi_get sample_multiplexed (\<lambda>rs. rs) [1] (snd ?put)"
  have "fst ?put = Some (Inr ())" by (simp add: sample_multiplexed_simps)
  then have "multi_step sample_multiplexed ?val [(PutOp [1] (?val [1]), Stored (Inr ()))] ?s (snd ?put)"
    by (intro step_put [where completed = "[(1, EagerMemblob)]" and now = "DateTime 0 0 0"] prod_eqI)
      (simp_all add: sample_multiplexed_def)
  moreover have "fst ?get = Inr (Some [7])" by (simp add: sample_multiplexed_simps)
  then have "multi_step sample_multiplexed ?val [(GetOp [1], Got (Inr (Some [7])))] (snd ?put) (snd ?get)"
    by (intro step_get [where co = "\<lambda>rs. rs"] prod_eqI) simp_all
  ultimately show ?thesis using run_step [OF _ run_step [OF _ run_nil]] by fastforce
qed


end
