(* ===== verification/Topo_Sort.thy ===== *)
theory Topo_Sort
  imports Mononoke_Prelude
begin

text \<open>
  \<open>sort_topological\<close> of \<open>src/blobrepo/src/utils.rs\<close>: a depth-first search with an explicit stack of
  actions. The graph maps a node to its children; a node that is only a child is a node too. The order in
  which the hash set of all nodes is iterated is an argument.
\<close>

section \<open>The algorithm\<close>

datatype mark = Temporary | Marked

datatype 'a action = Visit (action_node: 'a) | MarkNode (action_node: 'a)

type_synonym 'a dag = "('a \<times> 'a list) list"

definition dag_nodes :: "'a dag \<Rightarrow> 'a set" where
  "dag_nodes dag = (\<Union>(n, ns) \<in> set dag. insert n (set ns))"

definition dag_children :: "'a dag \<Rightarrow> 'a \<Rightarrow> 'a list" where
  "dag_children dag n = (case map_of dag n of None \<Rightarrow> [] | Some ns \<Rightarrow> ns)"

lemma finite_dag_nodes [simp]: "finite (dag_nodes dag)"
  by (auto simp: dag_nodes_def)

lemma dag_children_nodes: "set (dag_children dag n) \<subseteq> dag_nodes dag"
proof (cases "map_of dag n")
  case (Some ns)
  then show ?thesis using map_of_SomeD [OF Some] by (force simp: dag_children_def dag_nodes_def)
qed (simp add: dag_children_def)

text \<open>The \<open>while\<close> loop on the stack, with the marks and the output; the result \<open>None\<close> is a cycle. The top of
  the stack is the head of the list; the children are pushed in order, so the last one is on top.\<close>

function sort_stack :: "'a dag \<Rightarrow> 'a action list \<Rightarrow> ('a \<rightharpoonup> mark) \<times> 'a list \<Rightarrow> (('a \<rightharpoonup> mark) \<times> 'a list) option" where
  "sort_stack dag [] (marks, output) = Some (marks, output)"
| "sort_stack dag (Visit node # stack) (marks, output) =
     (case marks node of
        Some Temporary \<Rightarrow> None
      | Some Marked \<Rightarrow> sort_stack dag stack (marks, output)
      | None \<Rightarrow> sort_stack dag (map Visit (rev (dag_children dag node)) @ MarkNode node # stack) (marks(node \<mapsto> Temporary), output))"
| "sort_stack dag (MarkNode node # stack) (marks, output) = sort_stack dag stack (marks(node \<mapsto> Marked), output @ [node])"
  by pat_completeness auto
termination
proof (relation "measures [\<lambda>(dag, stack, marks, output). card ((dag_nodes dag \<union> action_node ` set stack) - dom marks),
    \<lambda>(dag, stack, marks, output). length stack]", goal_cases)
  case (3 dag node stack marks out)
  have "card (dag_nodes dag \<union> action_node ` set stack - dom marks) \<le> card (dag_nodes dag \<union> action_node ` set (Visit node # stack) - dom marks)"
    by (intro card_mono) auto
  then show ?case by (auto simp: le_less)
next
  case (2 dag node stack marks out)
  let ?stack = "map Visit (rev (dag_children dag node)) @ MarkNode node # stack"
  have "dag_nodes dag \<union> action_node ` set ?stack - dom (marks(node \<mapsto> Temporary)) \<subset>
     dag_nodes dag \<union> action_node ` set (Visit node # stack) - dom marks"
    using 2 dag_children_nodes [of dag node] by auto
  then show ?case by (auto intro: psubset_card_mono)
next
  case (4 dag node stack marks out)
  have "card (dag_nodes dag \<union> action_node ` set stack - dom (marks(node \<mapsto> Marked)))
     \<le> card (dag_nodes dag \<union> action_node ` set (MarkNode node # stack) - dom marks)"
    by (intro card_mono) auto
  then show ?case by (auto simp: le_less)
qed simp

fun sort_nodes :: "'a dag \<Rightarrow> 'a list \<Rightarrow> ('a \<rightharpoonup> mark) \<times> 'a list \<Rightarrow> (('a \<rightharpoonup> mark) \<times> 'a list) option" where
  "sort_nodes dag [] s = Some s"
| "sort_nodes dag (node # nodes) s =
     (case sort_stack dag [Visit node] s of None \<Rightarrow> None | Some s' \<Rightarrow> sort_nodes dag nodes s')"

definition sort_topological :: "('a set \<Rightarrow> 'a list) \<Rightarrow> 'a dag \<Rightarrow> 'a list option" where
  "sort_topological ho dag = map_option (\<lambda>(marks, output). rev output) (sort_nodes dag (ho (dag_nodes dag)) (Map.empty, []))"

section \<open>Correctness\<close>

definition dag_edges :: "'a dag \<Rightarrow> ('a \<times> 'a) set" where
  "dag_edges dag = {(n, c). c \<in> set (dag_children dag n)}"

text \<open>The nodes with a mark to come, in the order of the stack, are the path the search is on: each is
  reachable from every one below it. A node that waits for its visit is a child of one on the path below it.\<close>

fun path_ok :: "'a dag \<Rightarrow> 'a action list \<Rightarrow> bool" where
  "path_ok dag [] \<longleftrightarrow> True"
| "path_ok dag (a # stack) \<longleftrightarrow>
     (\<forall>m. MarkNode m \<in> set stack \<longrightarrow> (m, action_node a) \<in> (dag_edges dag)\<^sup>+) \<and> path_ok dag stack"

definition pending_marks :: "'a action list \<Rightarrow> 'a list" where
  "pending_marks stack = map action_node (filter (\<lambda>a. case a of MarkNode _ \<Rightarrow> True | _ \<Rightarrow> False) stack)"

text \<open>The output is a topological order, from the children up.\<close>

definition children_first :: "'a dag \<Rightarrow> 'a list \<Rightarrow> bool" where
  "children_first dag out \<longleftrightarrow> (\<forall>xs n ys. out = xs @ n # ys \<longrightarrow> set (dag_children dag n) \<subseteq> set xs)"

lemma children_first_snoc:
  "children_first dag (out @ [n]) \<longleftrightarrow> children_first dag out \<and> set (dag_children dag n) \<subseteq> set out"
proof
  assume "children_first dag (out @ [n])"
  then show "children_first dag out \<and> set (dag_children dag n) \<subseteq> set out"
    unfolding children_first_def by (metis append.assoc append_Cons append_Nil)
next
  assume r: "children_first dag out \<and> set (dag_children dag n) \<subseteq> set out"
  show "children_first dag (out @ [n])"
    unfolding children_first_def
  proof (intro allI impI)
    fix xs m ys assume e: "out @ [n] = xs @ m # ys"
    show "set (dag_children dag m) \<subseteq> set xs"
    proof (cases ys rule: rev_cases)
      case Nil
      then show ?thesis using e r by simp
    next
      case (snoc ys' y)
      then have "out = xs @ m # ys'" using e by simp
      then show ?thesis using r unfolding children_first_def by blast
    qed
  qed
qed

text \<open>What holds at every round of the loop.\<close>

definition search_inv :: "'a dag \<Rightarrow> 'a action list \<Rightarrow> ('a \<rightharpoonup> mark) \<Rightarrow> 'a list \<Rightarrow> bool" where
  "search_inv dag stack marks out \<longleftrightarrow>
     path_ok dag stack \<and> (\<forall>n. marks n = Some Temporary \<longleftrightarrow> MarkNode n \<in> set stack) \<and> (\<forall>n. marks n = Some Marked \<longleftrightarrow> n \<in> set out) \<and>
     distinct out \<and> distinct (pending_marks stack) \<and> children_first dag out \<and>
     (\<forall>xs m ys. stack = xs @ MarkNode m # ys \<longrightarrow> set (dag_children dag m) \<subseteq> set out \<union> action_node ` set xs)"

lemma pending_marks_simps [simp]:
  "pending_marks [] = []" "pending_marks (Visit n # stack) = pending_marks stack"
  "pending_marks (MarkNode n # stack) = n # pending_marks stack" "pending_marks (map Visit ns @ stack) = pending_marks stack"
  by (auto simp: pending_marks_def)

lemma set_pending_marks: "n \<in> set (pending_marks stack) \<longleftrightarrow> MarkNode n \<in> set stack"
proof (induction stack)
  case (Cons a stack)
  then show ?case by (cases a) auto
qed simp

lemma path_ok_visits:
  "path_ok dag (map Visit ns @ stack) \<longleftrightarrow> (\<forall>m n. MarkNode m \<in> set stack \<longrightarrow> n \<in> set ns \<longrightarrow> (m, n) \<in> (dag_edges dag)\<^sup>+) \<and> path_ok dag stack"
  by (induction ns) auto

lemma search_visit:
  assumes inv: "search_inv dag (Visit node # stack) marks out" and new: "marks node = None"
  shows "search_inv dag (map Visit (rev (dag_children dag node)) @ MarkNode node # stack) (marks(node \<mapsto> Temporary)) out"
proof -
  have path: "\<And>m. MarkNode m \<in> set stack \<Longrightarrow> (m, node) \<in> (dag_edges dag)\<^sup>+" "path_ok dag stack"
    using inv by (auto simp: search_inv_def)
  have edge: "(node, n) \<in> (dag_edges dag)\<^sup>+" if "n \<in> set (dag_children dag node)" for n using that by (auto simp: dag_edges_def)
  have "path_ok dag (map Visit (rev (dag_children dag node)) @ MarkNode node # stack)"
    unfolding path_ok_visits using path edge by (auto intro: trancl_trans)
  moreover have "MarkNode node \<notin> set stack" using inv new by (metis list.set_intros(2) option.distinct(1) search_inv_def)
  moreover have "node \<notin> set out" using inv new by (metis option.distinct(1) search_inv_def)
  moreover have "set (dag_children dag m) \<subseteq> set out \<union> action_node ` set xs"
    if e: "map Visit (rev (dag_children dag node)) @ MarkNode node # stack = xs @ MarkNode m # ys" for xs m ys
  proof -
    have "MarkNode m \<notin> set (map Visit (rev (dag_children dag node)))" by auto
    then have no: "map Visit (rev (dag_children dag node)) \<noteq> xs @ MarkNode m # zs" for zs by (metis in_set_conv_decomp)
    then consider "xs = map Visit (rev (dag_children dag node))" "m = node"
      | zs where "xs = map Visit (rev (dag_children dag node)) @ MarkNode node # zs" "stack = zs @ MarkNode m # ys"
      using e by (auto simp: append_eq_append_conv2 append_eq_Cons_conv Cons_eq_append_conv)
    then show ?thesis
    proof cases
      case 1
      then show ?thesis by (auto simp: image_image)
    next
      case 2
      then have "set (dag_children dag m) \<subseteq> set out \<union> action_node ` set (Visit node # zs)"
        using inv unfolding search_inv_def by (metis append_Cons)
      then show ?thesis using 2(1) by auto
    qed
  qed
  ultimately show ?thesis using inv new by (auto simp: search_inv_def set_pending_marks)
qed

lemma search_skip:
  assumes inv: "search_inv dag (Visit node # stack) marks out" and old: "marks node = Some Marked"
  shows "search_inv dag stack marks out"
proof -
  have "set (dag_children dag m) \<subseteq> set out \<union> action_node ` set xs" if "stack = xs @ MarkNode m # ys" for xs m ys
  proof -
    have "set (dag_children dag m) \<subseteq> set out \<union> action_node ` set (Visit node # xs)"
      using inv that unfolding search_inv_def by (metis append_Cons)
    moreover have "node \<in> set out" using inv old by (auto simp: search_inv_def)
    ultimately show ?thesis by auto
  qed
  then show ?thesis using inv by (simp add: search_inv_def)
qed

lemma search_mark:
  assumes inv: "search_inv dag (MarkNode node # stack) marks out"
  shows "search_inv dag stack (marks(node \<mapsto> Marked)) (out @ [node])"
proof -
  have marks: "marks node = Some Temporary" "node \<notin> set out" "MarkNode node \<notin> set stack"
    using inv by (auto simp: search_inv_def set_pending_marks) (metis mark.distinct(1) option.inject)
  have "set (dag_children dag node) \<subseteq> set out" using inv unfolding search_inv_def
    by (metis append_Nil image_empty list.set(1) sup_bot.right_neutral)
  moreover have "set (dag_children dag m) \<subseteq> set (out @ [node]) \<union> action_node ` set xs" if "stack = xs @ MarkNode m # ys" for xs m ys
  proof -
    have "set (dag_children dag m) \<subseteq> set out \<union> action_node ` set (MarkNode node # xs)"
      using inv that unfolding search_inv_def by (metis append_Cons)
    then show ?thesis by auto
  qed
  ultimately show ?thesis using inv marks by (auto simp: search_inv_def children_first_snoc)
qed

lemma search_cycle:
  "search_inv dag (Visit node # stack) marks out \<Longrightarrow> marks node = Some Temporary \<Longrightarrow> (node, node) \<in> (dag_edges dag)\<^sup>+"
  by (auto simp: search_inv_def)

lemma sort_stack_ok:
  "search_inv dag stack marks out \<Longrightarrow>
     (case sort_stack dag stack (marks, out) of
        None \<Rightarrow> \<not> acyclic (dag_edges dag)
      | Some (marks', out') \<Rightarrow> search_inv dag [] marks' out' \<and> set out \<union> action_node ` set stack \<subseteq> set out' \<and>
          set out' \<subseteq> set out \<union> action_node ` set stack \<union> dag_nodes dag)"
proof (induction dag stack "(marks, out)" arbitrary: marks out rule: sort_stack.induct)
  case (2 dag node stack marks out)
  show ?case
  proof (cases "marks node")
    case None
    from "2.hyps"(1) [OF None search_visit [OF "2.prems" None]] show ?thesis
      using None dag_children_nodes [of dag node] by (auto simp: image_Un image_image split: option.splits)
  next
    case (Some k)
    show ?thesis
    proof (cases k)
      case Temporary
      then show ?thesis using Some search_cycle [OF "2.prems"] by (auto simp: acyclic_def)
    next
      case Marked
      then have k: "marks node = Some Marked" using Some by simp
      moreover have "node \<in> set out" using k "2.prems" by (auto simp: search_inv_def)
      ultimately show ?thesis using "2.hyps"(2) [OF k refl search_skip [OF "2.prems" k]] by (auto split: option.splits)
    qed
  qed
next
  case (3 dag node stack marks out)
  from "3.hyps" [OF search_mark [OF "3.prems"]] show ?case by (auto split: option.splits)
qed simp

lemma sort_nodes_ok:
  "search_inv dag [] marks out \<Longrightarrow>
     (case sort_nodes dag nodes (marks, out) of
        None \<Rightarrow> \<not> acyclic (dag_edges dag)
      | Some (marks', out') \<Rightarrow> search_inv dag [] marks' out' \<and> set out \<union> set nodes \<subseteq> set out' \<and> set out' \<subseteq> set out \<union> set nodes \<union> dag_nodes dag)"
proof (induction nodes arbitrary: marks out)
  case (Cons n nodes)
  have "search_inv dag [Visit n] marks out" using Cons.prems by (auto simp: search_inv_def Cons_eq_append_conv)
  note one = sort_stack_ok [OF this]
  show ?case
  proof (cases "sort_stack dag [Visit n] (marks, out)")
    case None
    then show ?thesis using one by simp
  next
    case (Some s)
    obtain m o' where s: "s = (m, o')" by fastforce
    have "search_inv dag [] m o'" "set out \<union> {n} \<subseteq> set o'" "set o' \<subseteq> set out \<union> {n} \<union> dag_nodes dag" using one Some s by auto
    then show ?thesis using Cons.IH [of m o'] Some s by (auto split: option.splits)
  qed
qed simp

lemma children_first_before:
  assumes "children_first dag out" "(n, c) \<in> (dag_edges dag)\<^sup>+" "out = xs @ n # ys"
  shows "c \<in> set xs"
  using assms(2)
proof (induction rule: trancl_induct)
  case (base c)
  then show ?case using assms(1,3) unfolding children_first_def dag_edges_def by blast
next
  case (step c d)
  obtain us vs where us: "xs = us @ c # vs" using step.IH by (meson split_list)
  then have "out = us @ c # (vs @ n # ys)" using assms(3) by simp
  then have "set (dag_children dag c) \<subseteq> set us" using assms(1) unfolding children_first_def by blast
  then show ?case using step.hyps(2) us by (auto simp: dag_edges_def)
qed

lemma children_first_acyclic:
  assumes "children_first dag out" "distinct out" "dag_nodes dag \<subseteq> set out"
  shows "acyclic (dag_edges dag)"
  unfolding acyclic_def
proof (intro allI notI)
  fix n assume n: "(n, n) \<in> (dag_edges dag)\<^sup>+"
  then obtain c where "(n, c) \<in> dag_edges dag" by (meson converse_tranclE)
  then obtain ns where "map_of dag n = Some ns" by (cases "map_of dag n") (auto simp: dag_edges_def dag_children_def)
  then have "n \<in> dag_nodes dag" using map_of_SomeD [of dag n ns] by (force simp: dag_nodes_def)
  then obtain xs ys where xs: "out = xs @ n # ys" using assms(3) by (meson split_list subsetD)
  then have "n \<in> set xs" using children_first_before [OF assms(1) n] by blast
  then show False using assms(2) xs by simp
qed

lemma sort_topological_ok:
  assumes "hash_order ho"
  shows "case sort_topological ho dag of
       None \<Rightarrow> \<not> acyclic (dag_edges dag)
     | Some out \<Rightarrow> distinct out \<and> set out = dag_nodes dag \<and> children_first dag (rev out)"
proof -
  have nodes: "set (ho (dag_nodes dag)) = dag_nodes dag" using assms by (simp add: hash_order_def)
  have "search_inv dag [] Map.empty []" by (simp add: search_inv_def children_first_def)
  from sort_nodes_ok [OF this, of "ho (dag_nodes dag)"] show ?thesis
    using nodes by (auto simp: sort_topological_def search_inv_def split: option.splits)
qed

text \<open>C22: \<open>sort_topological\<close> returns a list exactly when the graph has no cycle. The list has each node of the
  graph once, and every node comes before all its descendants, in whatever order the nodes are tried.\<close>

theorem sort_topological_correct:
  assumes "hash_order ho"
  shows "(sort_topological ho dag = None \<longleftrightarrow> \<not> acyclic (dag_edges dag)) \<and>
     (\<forall>out. sort_topological ho dag = Some out \<longrightarrow> distinct out \<and> set out = dag_nodes dag \<and>
        (\<forall>xs n ys. out = xs @ n # ys \<longrightarrow> (dag_edges dag)\<^sup>+ `` {n} \<subseteq> set ys))"
proof (cases "sort_topological ho dag")
  case None
  then show ?thesis using sort_topological_ok [OF assms, of dag] by simp
next
  case (Some out)
  then have out: "distinct out" "set out = dag_nodes dag" "children_first dag (rev out)"
    using sort_topological_ok [OF assms, of dag] by simp_all
  have "(dag_edges dag)\<^sup>+ `` {n} \<subseteq> set ys" if "out = xs @ n # ys" for xs n ys
  proof -
    have "rev out = rev ys @ n # rev xs" using that by simp
    then show ?thesis using children_first_before [OF out(3)] by fastforce
  qed
  moreover have "acyclic (dag_edges dag)" using children_first_acyclic [OF out(3)] out(1,2) by simp
  ultimately show ?thesis using Some out by simp
qed

theorem sort_topological_correct_witness:
  "\<exists>out. sort_topological sorted_list_of_set [(1 :: nat, [2, 3]), (2, [4]), (3, [4])] = Some out \<and> set out = {1, 2, 3, 4} \<and>
     (\<forall>xs ys. out = xs @ 2 # ys \<longrightarrow> 4 \<in> set ys)"
proof -
  let ?dag = "[(1 :: nat, [2, 3]), (2, [4]), (3, [4 :: nat])]"
  have "hash_order (sorted_list_of_set :: nat set \<Rightarrow> nat list)" by (simp add: hash_order_def)
  note sorted = sort_topological_correct [OF this, of ?dag]
  have nodes: "dag_nodes ?dag = {1, 2, 3, 4}" by (auto simp: dag_nodes_def)
  have edge: "(2, 4) \<in> (dag_edges ?dag)\<^sup>+" by (rule r_into_trancl) (simp add: dag_edges_def dag_children_def)
  have "(n, c) \<in> dag_edges ?dag \<Longrightarrow> n < c" for n c by (auto simp: dag_edges_def dag_children_def split: if_splits)
  then have "dag_edges ?dag \<subseteq> {(x, y). x < y}" by blast
  then have "acyclic (dag_edges ?dag)" by (rule acyclic_subset [rotated]) (simp add: acyclic_def trancl_def [symmetric] trans_def trancl_id)
  then have "sort_topological sorted_list_of_set ?dag \<noteq> None" using sorted by metis
  then obtain out where out: "sort_topological sorted_list_of_set ?dag = Some out" by blast
  note this_out = sorted [THEN conjunct2, THEN spec, THEN mp, OF out]
  show ?thesis by (intro exI conjI) (rule out, use this_out nodes in metis, use this_out edge in blast)
qed

end
