(* ===== verification/Blob_Repo.thy ===== *)
theory Blob_Repo
  imports Bookmarks Blobstores Range_Stream Topo_Sort
begin

text \<open>
  The repository, \<open>src/blobrepo/src/repo.rs\<close> (with \<open>alias.rs\<close>, \<open>bonsai_generation.rs\<close> and
  \<open>fetch_file_contents\<close> of \<open>file.rs\<close>): typed values on a blobstore, the changeset store and the
  bookmarks put together. This is the part that works on bonsai changesets and file contents; the
  Mercurial views of them (envelopes, manifests, filenodes) are left out.

  An operation takes the state of the repository to a result and a new state, or does not return
  (\<open>None\<close>). The Thrift serializers, BLAKE2, SHA-256 and \<open>chrono\<close> are a record of functions. The order
  in which hash maps are iterated and in which concurrent requests complete are arguments.
\<close>

section \<open>Operations on a repository\<close>

datatype repo_error =
    BlobstoreError blob_error
  | TypesError error_kind
  | ChangesetsError "ChangesetId changesets_error"
  | BookmarksError bookmarks_error
  | RevsetError "ChangesetId revset_error"
  | MissingTypedKeyEntry bytes
  | ContentBlobMissing ContentId
  | FileContentsDeserializeFailed bytes repo_error
  | BonsaiNotFound ChangesetId
  | IncorrectAliasBlobContent Sha256
  | FromUtf8Error
  | Panic string

record codec =
  bonsai_ser :: "thrift_BonsaiChangeset \<Rightarrow> bytes"
  bonsai_de :: "bytes \<Rightarrow> thrift_BonsaiChangeset option"
  contents_ser :: "thrift_FileContents \<Rightarrow> bytes"
  contents_de :: "bytes \<Rightarrow> thrift_FileContents option"
  blake2_hash :: "string \<Rightarrow> bytes \<Rightarrow> Blake2"
  sha256_hash :: "bytes \<Rightarrow> Sha256"
  codec_chrono :: chrono

record 's BlobRepo =
  repo_blobstore :: "'s Blobstore"
  repoid :: int
  repo_codec :: codec

record 's repo_state =
  rs_blobs :: 's
  rs_changesets :: "ChangesetId changesets_db"
  rs_bookmarks :: "ChangesetId bookmarks_db"

type_synonym ('w, 'e, 'a) op = "'w \<Rightarrow> (('e + 'a) \<times> 'w) option"

type_synonym ('w, 'a) repo_op = "('w, repo_error, 'a) op"

definition op_ok :: "'a \<Rightarrow> ('w, 'e, 'a) op" where
  "op_ok a w = Some (Inr a, w)"

definition op_of :: "'e + 'a \<Rightarrow> ('w, 'e, 'a) op" where
  "op_of r w = Some (r, w)"

definition op_then :: "('w, 'e, 'a) op \<Rightarrow> ('a \<Rightarrow> ('w, 'e, 'b) op) \<Rightarrow> ('w, 'e, 'b) op" where
  "op_then m f w =
     (case m w of
        None \<Rightarrow> None
      | Some (Inl e, w') \<Rightarrow> Some (Inl e, w')
      | Some (Inr a, w') \<Rightarrow> f a w')"

text \<open>\<open>join_all\<close>, and \<open>buffered\<close> with \<open>collect\<close>: the results in order, or the first error.\<close>

fun op_all :: "('x \<Rightarrow> ('w, 'e, 'a) op) \<Rightarrow> 'x list \<Rightarrow> ('w, 'e, 'a list) op" where
  "op_all f [] = op_ok []"
| "op_all f (x # xs) = op_then (f x) (\<lambda>a. op_then (op_all f xs) (\<lambda>as. op_ok (a # as)))"

text \<open>\<open>join\<close> of two futures that are polled in this order: if the first fails, the second is dropped, before or
  after it has taken effect.\<close>

definition op_join :: "bool \<Rightarrow> ('w, 'e, 'a) op \<Rightarrow> ('w, 'e, 'b) op \<Rightarrow> ('w, 'e, unit) op" where
  "op_join dropped m n w =
     (case m w of
        None \<Rightarrow> None
      | Some (Inr _, w') \<Rightarrow> op_then n (\<lambda>_. op_ok ()) w'
      | Some (Inl e, w') \<Rightarrow> if dropped then Some (Inl e, w') else map_option (\<lambda>(_, w''). (Inl e, w'')) (n w'))"

definition blob_get :: "'s BlobRepo \<Rightarrow> bytes \<Rightarrow> ('s repo_state, bytes option) repo_op" where
  "blob_get R key w =
     (case bs_get (repo_blobstore R) key (rs_blobs w) of
        (r, s) \<Rightarrow> Some (map_err BlobstoreError r, w\<lparr>rs_blobs := s\<rparr>))"

definition blob_put :: "'s BlobRepo \<Rightarrow> bytes \<Rightarrow> bytes \<Rightarrow> ('s repo_state, unit) repo_op" where
  "blob_put R key value w =
     (case bs_put (repo_blobstore R) key value (rs_blobs w) of
        (r, s) \<Rightarrow> Some (map_err BlobstoreError r, w\<lparr>rs_blobs := s\<rparr>))"

section \<open>Typed values\<close>

abbreviation bonsai_blob :: "'s BlobRepo \<Rightarrow> BonsaiChangeset \<Rightarrow> ChangesetId Blob" where
  "bonsai_blob R \<equiv> BonsaiChangeset_into_blob (bonsai_ser (repo_codec R)) (blake2_hash (repo_codec R))"

abbreviation bonsai_id :: "'s BlobRepo \<Rightarrow> BonsaiChangeset \<Rightarrow> ChangesetId" where
  "bonsai_id R \<equiv> get_changeset_id (bonsai_ser (repo_codec R)) (blake2_hash (repo_codec R))"

text \<open>\<open>BlobRepo::fetch\<close> and \<open>BlobRepo::store\<close> for changesets.\<close>

definition fetch :: "'s BlobRepo \<Rightarrow> ChangesetId \<Rightarrow> ('s repo_state, BonsaiChangeset) repo_op" where
  "fetch R key =
     op_then (blob_get R (ChangesetId_blobstore_key key)) (\<lambda>blob.
       case blob of
         None \<Rightarrow> op_of (Inl (MissingTypedKeyEntry (ChangesetId_blobstore_key key)))
       | Some data \<Rightarrow> op_of (map_err TypesError
           (BonsaiChangeset_from_blob (bonsai_de (repo_codec R)) (codec_chrono (repo_codec R))
             (blob_from_bytes (blake2_hash (repo_codec R)) data))))"

definition store :: "'s BlobRepo \<Rightarrow> BonsaiChangeset \<Rightarrow> ('s repo_state, ChangesetId) repo_op" where
  "store R value =
     (let blob = bonsai_blob R value; key = blob_id blob
      in op_then (blob_put R (ChangesetId_blobstore_key key) (blob_data blob)) (\<lambda>_. op_ok key))"

definition get_bonsai_changeset :: "'s BlobRepo \<Rightarrow> ChangesetId \<Rightarrow> ('s repo_state, BonsaiChangeset) repo_op" where
  "get_bonsai_changeset R bonsai_cs_id = fetch R bonsai_cs_id"

definition fetch_file_contents :: "'s BlobRepo \<Rightarrow> ContentId \<Rightarrow> ('s repo_state, FileContents) repo_op" where
  "fetch_file_contents R cid w =
     (let blobstore_key = ContentId_blobstore_key cid
      in map_option (\<lambda>(r, w'). (map_err (FileContentsDeserializeFailed blobstore_key) r, w'))
           (op_then (blob_get R blobstore_key) (\<lambda>bytes.
              case bytes of
                None \<Rightarrow> op_of (Inl (ContentBlobMissing cid))
              | Some b \<Rightarrow> op_of (map_err TypesError (FileContents_from_encoded_bytes (contents_de (repo_codec R)) b))) w))"

section \<open>Changesets and bookmarks\<close>

definition get_changeset_entry :: "'s BlobRepo \<Rightarrow> ChangesetId \<Rightarrow> ('s repo_state, ChangesetId ChangesetEntry option) repo_op" where
  "get_changeset_entry R cs w = Some (Inr (changesets_get (rs_changesets w) (rs_changesets w) (repoid R) cs), w)"

definition changeset_exists_by_bonsai :: "'s BlobRepo \<Rightarrow> ChangesetId \<Rightarrow> ('s repo_state, bool) repo_op" where
  "changeset_exists_by_bonsai R changesetid = op_then (get_changeset_entry R changesetid) (\<lambda>res. op_ok (res \<noteq> None))"

definition get_changeset_parents_by_bonsai :: "'s BlobRepo \<Rightarrow> ChangesetId \<Rightarrow> ('s repo_state, ChangesetId list) repo_op" where
  "get_changeset_parents_by_bonsai R changesetid =
     op_then (get_changeset_entry R changesetid) (\<lambda>maybe_bonsai.
       case maybe_bonsai of None \<Rightarrow> op_of (Inl (BonsaiNotFound changesetid)) | Some bonsai \<Rightarrow> op_ok (ce_parents bonsai))"

definition get_generation_number_by_bonsai :: "'s BlobRepo \<Rightarrow> ChangesetId \<Rightarrow> ('s repo_state, nat option) repo_op" where
  "get_generation_number_by_bonsai R cs = op_then (get_changeset_entry R cs) (\<lambda>res. op_ok (map_option ce_gen res))"

abbreviation repo_fetcher :: "'s BlobRepo \<Rightarrow> 's repo_state \<Rightarrow> ChangesetId ChangesetFetcher" where
  "repo_fetcher R w \<equiv> sql_fetcher (rs_changesets w) (repoid R)"

definition get_bonsai_bookmark :: "'s BlobRepo \<Rightarrow> string \<Rightarrow> ('s repo_state, ChangesetId option) repo_op" where
  "get_bonsai_bookmark R name w = Some (Inr (bookmarks_get (rs_bookmarks w) name (repoid R)), w)"

definition update_bookmark_transaction :: "'s BlobRepo \<Rightarrow> ChangesetId SqlBookmarksTransaction" where
  "update_bookmark_transaction R = create_transaction (repoid R)"

definition add_changeset :: "'s BlobRepo \<Rightarrow> ChangesetId ChangesetInsert \<Rightarrow> ('s repo_state, bool) repo_op" where
  "add_changeset R cs w =
     (case changesets_add (rs_changesets w) cs of
        (r, db) \<Rightarrow> Some (map_err ChangesetsError r, w\<lparr>rs_changesets := db\<rparr>))"

section \<open>Saving changesets\<close>

definition save_bonsai_changeset_object :: "'s BlobRepo \<Rightarrow> BonsaiChangeset \<Rightarrow> ('s repo_state, unit) repo_op" where
  "save_bonsai_changeset_object R bonsai_cs =
     (let blob = bonsai_blob R bonsai_cs
      in op_then (blob_put R (ChangesetId_blobstore_key (blob_id blob)) (blob_data blob)) (\<lambda>_. op_ok ()))"

text \<open>The map of the changesets by their identifiers, in the order \<open>mo\<close> in which it is iterated.\<close>

definition changesets_by_id ::
    "'s BlobRepo \<Rightarrow> ((ChangesetId \<times> BonsaiChangeset) list \<Rightarrow> (ChangesetId \<times> BonsaiChangeset) list) \<Rightarrow> BonsaiChangeset list
      \<Rightarrow> (ChangesetId \<times> BonsaiChangeset) list" where
  "changesets_by_id R mo bonsai_changesets = mo (fold (\<lambda>bcs. hm_insert (bonsai_id R bcs) bcs) bonsai_changesets [])"

definition complete_changeset ::
    "'s BlobRepo \<Rightarrow> (ChangesetId \<times> BonsaiChangeset) list \<Rightarrow> ChangesetId \<Rightarrow> ('s repo_state, unit) repo_op" where
  "complete_changeset R by_id bcs_id =
     (case map_of by_id bcs_id of
        None \<Rightarrow> op_ok ()
      | Some bcs \<Rightarrow>
          op_then (add_changeset R \<lparr>ci_repo_id = repoid R, ci_cs_id = bonsai_id R bcs, ci_parents = parents (into_mut bcs)\<rparr>)
            (\<lambda>_. op_ok ()))"

definition save_bonsai_changesets ::
    "'s BlobRepo \<Rightarrow> (ChangesetId set \<Rightarrow> ChangesetId list)
      \<Rightarrow> ((ChangesetId \<times> BonsaiChangeset) list \<Rightarrow> (ChangesetId \<times> BonsaiChangeset) list) \<Rightarrow> BonsaiChangeset list
      \<Rightarrow> ('s repo_state, unit) repo_op" where
  "save_bonsai_changesets R ho mo bonsai_changesets =
     (let by_id = changesets_by_id R mo bonsai_changesets;
          bcs_parents = map (\<lambda>(bcs_id, bcs). (bonsai_id R bcs, parents (into_mut bcs))) by_id
      in case sort_topological ho bcs_parents of
           None \<Rightarrow> op_of (Inl (Panic ''loop in commit chain!''))
         | Some topo_sorted_commits \<Rightarrow>
             op_then (op_all (\<lambda>(bcs_id, bcs). save_bonsai_changeset_object R bcs) by_id) (\<lambda>_.
             op_then (op_all (complete_changeset R by_id) (rev topo_sorted_commits)) (\<lambda>_. op_ok ())))"

section \<open>Contents by alias\<close>

definition get_sha256_alias_key :: "bytes \<Rightarrow> bytes" where
  "get_sha256_alias_key key = ascii ''alias.sha256.'' @ key"

definition get_sha256_alias :: "codec \<Rightarrow> bytes \<Rightarrow> bytes" where
  "get_sha256_alias C contents = get_sha256_alias_key (Sha256_to_hex (sha256_hash C contents))"

definition get_content_id_alias_key :: "ContentId \<Rightarrow> bytes" where
  "get_content_id_alias_key key = ascii ''alias.'' @ ContentId_blobstore_key key"

definition upload_blob ::
    "'s BlobRepo \<Rightarrow> bool \<Rightarrow> bool \<Rightarrow> ContentId Blob \<Rightarrow> bytes \<Rightarrow> ('s repo_state, ContentId) repo_op" where
  "upload_blob R alias_first dropped blob alias_key =
     (let blobstore_key = ContentId_blobstore_key (blob_id blob);
          alias_key_operation = blob_put R alias_key blobstore_key;
          blobstore_key_operation = blob_put R blobstore_key (blob_data blob)
      in op_then
           (if alias_first then op_join dropped alias_key_operation blobstore_key_operation
            else op_join dropped blobstore_key_operation alias_key_operation) (\<lambda>_. op_ok (blob_id blob)))"

definition upload_file_content_by_alias ::
    "'s BlobRepo \<Rightarrow> bool \<Rightarrow> bool \<Rightarrow> bytes \<Rightarrow> ('s repo_state, unit) repo_op" where
  "upload_file_content_by_alias R alias_first dropped raw_file_content =
     op_then (upload_blob R alias_first dropped
         (FileContents_into_blob (contents_ser (repo_codec R)) (blake2_hash (repo_codec R)) (FileContents_Bytes raw_file_content))
         (get_sha256_alias (repo_codec R) raw_file_content)) (\<lambda>_. op_ok ())"

text \<open>\<open>String::from_utf8\<close>: which byte strings are UTF-8.\<close>

definition continuation :: "byte \<Rightarrow> bool" where
  "continuation b \<longleftrightarrow> 0x80 \<le> b \<and> b \<le> 0xBF"

fun valid_utf8 :: "bytes \<Rightarrow> bool" where
  "valid_utf8 [] \<longleftrightarrow> True"
| "valid_utf8 (a # bs) \<longleftrightarrow>
     (if a \<le> 0x7F then valid_utf8 bs
      else case bs of
        [] \<Rightarrow> False
      | b # cs \<Rightarrow>
          if 0xC2 \<le> a \<and> a \<le> 0xDF then continuation b \<and> valid_utf8 cs
          else case cs of
            [] \<Rightarrow> False
          | c # ds \<Rightarrow>
              if 0xE0 \<le> a \<and> a \<le> 0xEF
              then (if a = 0xE0 then 0xA0 else 0x80) \<le> b \<and> b \<le> (if a = 0xED then 0x9F else 0xBF) \<and> continuation c \<and> valid_utf8 ds
              else case ds of
                [] \<Rightarrow> False
              | d # es \<Rightarrow>
                  0xF0 \<le> a \<and> a \<le> 0xF4 \<and> (if a = 0xF0 then 0x90 else 0x80) \<le> b \<and> b \<le> (if a = 0xF4 then 0x8F else 0xBF) \<and>
                  continuation c \<and> continuation d \<and> valid_utf8 es)"

definition content_prefix :: bytes where
  "content_prefix = ascii ''content.blake2.''"

definition content_id_of_key :: "Sha256 \<Rightarrow> bytes \<Rightarrow> repo_error + ContentId" where
  "content_id_of_key alias content_key =
     (let prefix_len = length content_prefix
      in if length content_key < prefix_len \<or> take prefix_len content_key \<noteq> content_prefix
         then Inl (IncorrectAliasBlobContent alias)
         else let blake2_hash = drop prefix_len content_key
              in if \<not> valid_utf8 blake2_hash then Inl FromUtf8Error
                 else map_ok ContentId (map_err TypesError (Blake2_from_str blake2_hash)))"

definition get_file_content_id_by_alias :: "'s BlobRepo \<Rightarrow> Sha256 \<Rightarrow> ('s repo_state, ContentId) repo_op" where
  "get_file_content_id_by_alias R alias =
     (let prefixed_key = get_sha256_alias_key (Sha256_to_hex alias)
      in op_then (blob_get R prefixed_key) (\<lambda>bytes.
           case bytes of
             None \<Rightarrow> op_of (Inl (MissingTypedKeyEntry prefixed_key))
           | Some content_key \<Rightarrow> op_of (content_id_of_key alias content_key)))"

definition get_file_content_by_alias :: "'s BlobRepo \<Rightarrow> Sha256 \<Rightarrow> ('s repo_state, FileContents) repo_op" where
  "get_file_content_by_alias R alias =
     op_then (get_file_content_id_by_alias R alias) (\<lambda>cid. fetch_file_contents R cid)"

definition put_alias_content_id_to_sha256 ::
    "'s BlobRepo \<Rightarrow> ContentId \<Rightarrow> Sha256 \<Rightarrow> ('s repo_state, unit) repo_op" where
  "put_alias_content_id_to_sha256 R cid alias_content =
     blob_put R (get_content_id_alias_key cid) (sha256_bytes alias_content)"

definition get_alias_content_id_to_sha256 :: "'s BlobRepo \<Rightarrow> ContentId \<Rightarrow> ('s repo_state, Sha256 option) repo_op" where
  "get_alias_content_id_to_sha256 R cid =
     op_then (blob_get R (get_content_id_alias_key cid)) (\<lambda>content_key_bytes.
       op_ok (case content_key_bytes of
                None \<Rightarrow> None
              | Some bytes \<Rightarrow> (case Sha256_from_bytes bytes of Inr h \<Rightarrow> Some h | Inl _ \<Rightarrow> None)))"

definition fetch_file_content_sha256_from_blobstore :: "'s BlobRepo \<Rightarrow> ContentId \<Rightarrow> ('s repo_state, Sha256) repo_op" where
  "fetch_file_content_sha256_from_blobstore R cid =
     op_then (fetch_file_contents R cid) (\<lambda>file_content. op_ok (sha256_hash (repo_codec R) (contents_bytes file_content)))"

definition get_file_sha256 :: "'s BlobRepo \<Rightarrow> ContentId \<Rightarrow> ('s repo_state, Sha256) repo_op" where
  "get_file_sha256 R cid =
     op_then (get_alias_content_id_to_sha256 R cid) (\<lambda>res.
       case res of
         Some file_content_sha256 \<Rightarrow> op_ok file_content_sha256
       | None \<Rightarrow>
           op_then (fetch_file_content_sha256_from_blobstore R cid) (\<lambda>alias.
           op_then (put_alias_content_id_to_sha256 R cid alias) (\<lambda>_. op_ok alias)))"

section \<open>Reasoning about operations\<close>

text \<open>From every state with \<open>P\<close> the operation returns, with \<open>Q\<close> of its result and the new state or with \<open>E\<close> of
  the error and the new state.\<close>

definition op_spec :: "('w \<Rightarrow> bool) \<Rightarrow> ('w, 'e, 'a) op \<Rightarrow> ('a \<Rightarrow> 'w \<Rightarrow> bool) \<Rightarrow> ('e \<Rightarrow> 'w \<Rightarrow> bool) \<Rightarrow> bool" where
  "op_spec P m Q E \<longleftrightarrow> (\<forall>w. P w \<longrightarrow> (\<exists>r w'. m w = Some (r, w') \<and> (case r of Inr a \<Rightarrow> Q a w' | Inl e \<Rightarrow> E e w')))"

lemma op_specD:
  assumes "op_spec P m Q E" "P w"
  obtains a w' where "m w = Some (Inr a, w')" "Q a w'" | e w' where "m w = Some (Inl e, w')" "E e w'"
proof -
  obtain r w' where r: "m w = Some (r, w')" "case r of Inr a \<Rightarrow> Q a w' | Inl e \<Rightarrow> E e w'" using assms unfolding op_spec_def by blast
  show thesis by (cases r) (use r that in auto)
qed

lemma op_spec_then:
  assumes "op_spec P m Q E" "\<And>a. op_spec (Q a) (f a) Q' E"
  shows "op_spec P (op_then m f) Q' E"
  unfolding op_spec_def
proof (intro allI impI)
  fix w assume "P w"
  with assms(1) show "\<exists>r w'. op_then m f w = Some (r, w') \<and> (case r of Inr a \<Rightarrow> Q' a w' | Inl e \<Rightarrow> E e w')"
  proof (rule op_specD)
    fix a w' assume a: "m w = Some (Inr a, w')" "Q a w'"
    from assms(2) a(2) show ?thesis unfolding op_spec_def using a(1) by (auto simp: op_then_def)
  qed (auto simp: op_then_def)
qed

lemma op_spec_ok: "(\<And>w. P w \<Longrightarrow> Q a w) \<Longrightarrow> op_spec P (op_ok a) Q E"
  by (auto simp: op_spec_def op_ok_def)

lemma op_spec_of: "(\<And>w. P w \<Longrightarrow> case r of Inr a \<Rightarrow> Q a w | Inl e \<Rightarrow> E e w) \<Longrightarrow> op_spec P (op_of r) Q E"
  by (auto simp: op_spec_def op_of_def)

lemma op_spec_weaken:
  "op_spec P m Q E \<Longrightarrow> (\<And>w. P' w \<Longrightarrow> P w) \<Longrightarrow> (\<And>a w. Q a w \<Longrightarrow> Q' a w) \<Longrightarrow> (\<And>e w. E e w \<Longrightarrow> E' e w) \<Longrightarrow> op_spec P' m Q' E'"
  unfolding op_spec_def by (metis (no_types, lifting) sum.case_eq_if)

lemma op_spec_join:
  assumes "op_spec P m Q E" "\<And>a. op_spec (Q a) n (\<lambda>_. Q') E" "\<And>e. op_spec (E e) n (\<lambda>_. E e) (\<lambda>_. E e)"
  shows "op_spec P (op_join dropped m n) (\<lambda>_. Q') E"
  unfolding op_spec_def
proof (intro allI impI)
  fix w assume "P w"
  with assms(1) show "\<exists>r w'. op_join dropped m n w = Some (r, w') \<and> (case r of Inr a \<Rightarrow> Q' w' | Inl e \<Rightarrow> E e w')"
  proof (rule op_specD)
    fix a w' assume a: "m w = Some (Inr a, w')" "Q a w'"
    from assms(2) a(2) show ?thesis by (rule op_specD) (auto simp: op_join_def op_then_def op_ok_def a(1))
  next
    fix e w' assume e: "m w = Some (Inl e, w')" "E e w'"
    from assms(3) e(2) show ?thesis by (rule op_specD) (use e(2) in \<open>auto simp: op_join_def e(1)\<close>)
  qed
qed

lemma op_spec_all:
  assumes "\<And>ys x zs. xs = ys @ x # zs \<Longrightarrow> op_spec (I ys) (f x) (\<lambda>_. I (ys @ [x])) E"
  shows "op_spec (I []) (op_all f xs) (\<lambda>_. I xs) E"
  using assms
proof (induction xs arbitrary: I)
  case Nil
  show ?case by (auto intro: op_spec_ok)
next
  case (Cons x xs)
  have head: "op_spec (I []) (f x) (\<lambda>_. I [x]) E" using Cons.prems [of "[]" x xs] by simp
  have tail: "op_spec (I [x]) (op_all f xs) (\<lambda>_. I (x # xs)) E"
    using Cons.IH [of "\<lambda>ys. I (x # ys)"] Cons.prems [of "x # ys" for ys] by simp
  show ?case unfolding op_all.simps by (rule op_spec_then [OF head], rule op_spec_then [OF tail], rule op_spec_ok)
qed

text \<open>What holds of a repository: the store holds only right values, and every recorded changeset has its blob.\<close>

definition repo_ok :: "'s BlobRepo \<Rightarrow> ('s \<Rightarrow> bytes \<rightharpoonup> bytes) \<Rightarrow> ('s \<Rightarrow> bool) \<Rightarrow> (bytes \<Rightarrow> bytes) \<Rightarrow> 's repo_state \<Rightarrow> bool" where
  "repo_ok R contents well val w \<longleftrightarrow>
     well (rs_blobs w) \<and> holds val (contents (rs_blobs w)) \<and> db_ok (rs_changesets w) \<and>
     (\<forall>c. view (rs_changesets w) (repoid R) c \<noteq> None \<longrightarrow> ChangesetId_blobstore_key c \<in> dom (contents (rs_blobs w)))"

text \<open>How the immutable part of a repository changes: nothing goes away.\<close>

definition grows :: "('s \<Rightarrow> bytes \<rightharpoonup> bytes) \<Rightarrow> 's repo_state \<Rightarrow> 's repo_state \<Rightarrow> bool" where
  "grows contents w w' \<longleftrightarrow> adds (rs_changesets w) (rs_changesets w') \<and> dom (contents (rs_blobs w)) \<subseteq> dom (contents (rs_blobs w'))"

lemma adds_trans: "adds b c \<Longrightarrow> adds a b \<Longrightarrow> adds a c"
  by (induction rule: adds.induct) (auto intro: adds.intros)

lemma grows_refl [simp]: "grows contents w w"
  by (simp add: grows_def adds_refl)

lemma grows_trans: "grows contents w w' \<Longrightarrow> grows contents w' w'' \<Longrightarrow> grows contents w w''"
  unfolding grows_def using adds_trans by blast

lemma repo_ok_blobs:
  assumes "repo_ok R contents well val w" "well s" "holds val (contents s)" "dom (contents (rs_blobs w)) \<subseteq> dom (contents s)"
  shows "repo_ok R contents well val (w\<lparr>rs_blobs := s\<rparr>) \<and> grows contents w (w\<lparr>rs_blobs := s\<rparr>)"
  using assms unfolding repo_ok_def grows_def by (simp add: adds_refl del: dom_def) (meson subsetD)

lemma blob_get_ok:
  assumes "blobstore (repo_blobstore R) contents well"
  shows "op_spec (\<lambda>w. w = w0 \<and> repo_ok R contents well val w) (blob_get R k)
     (\<lambda>v w. v = contents (rs_blobs w0) k \<and> repo_ok R contents well val w \<and> grows contents w0 w \<and>
        contents (rs_blobs w) = contents (rs_blobs w0) \<and> rs_changesets w = rs_changesets w0 \<and> rs_bookmarks w = rs_bookmarks w0)
     (\<lambda>e w. (\<exists>b. e = BlobstoreError b) \<and> repo_ok R contents well val w \<and> grows contents w0 w \<and>
        contents (rs_blobs w) = contents (rs_blobs w0) \<and> rs_changesets w = rs_changesets w0 \<and> rs_bookmarks w = rs_bookmarks w0)"
  unfolding op_spec_def
proof (intro allI impI)
  fix w assume w: "w = w0 \<and> repo_ok R contents well val w"
  obtain r s where r: "bs_get (repo_blobstore R) k (rs_blobs w) = (r, s)" by fastforce
  have well: "well (rs_blobs w)" using w by (auto simp: repo_ok_def)
  have ok: "well s" "contents s = contents (rs_blobs w)" "\<And>v. r = Inr v \<Longrightarrow> v = contents (rs_blobs w) k"
    using blobstore.get_ok [OF assms well r] by blast+
  have "repo_ok R contents well val (w\<lparr>rs_blobs := s\<rparr>) \<and> grows contents w (w\<lparr>rs_blobs := s\<rparr>)"
    by (rule repo_ok_blobs) (use w ok in \<open>auto simp: repo_ok_def\<close>)
  then show "\<exists>r w'. blob_get R k w = Some (r, w') \<and> (case r of
       Inr v \<Rightarrow> v = contents (rs_blobs w0) k \<and> repo_ok R contents well val w' \<and> grows contents w0 w' \<and>
        contents (rs_blobs w') = contents (rs_blobs w0) \<and> rs_changesets w' = rs_changesets w0 \<and> rs_bookmarks w' = rs_bookmarks w0
     | Inl e \<Rightarrow> (\<exists>b. e = BlobstoreError b) \<and> repo_ok R contents well val w' \<and> grows contents w0 w' \<and>
        contents (rs_blobs w') = contents (rs_blobs w0) \<and> rs_changesets w' = rs_changesets w0 \<and> rs_bookmarks w' = rs_bookmarks w0)"
    using w r ok by (cases r) (auto simp: blob_get_def)
qed

lemma blob_put_ok:
  assumes "blobstore (repo_blobstore R) contents well"
  shows "op_spec (\<lambda>w. w = w0 \<and> repo_ok R contents well val w) (blob_put R k (val k))
     (\<lambda>_ w. contents (rs_blobs w) k = Some (val k) \<and> repo_ok R contents well val w \<and> grows contents w0 w \<and>
        rs_changesets w = rs_changesets w0 \<and> rs_bookmarks w = rs_bookmarks w0)
     (\<lambda>e w. (\<exists>b. e = BlobstoreError b) \<and> repo_ok R contents well val w \<and> grows contents w0 w \<and>
        rs_changesets w = rs_changesets w0 \<and> rs_bookmarks w = rs_bookmarks w0)"
  unfolding op_spec_def
proof (intro allI impI)
  fix w assume w: "w = w0 \<and> repo_ok R contents well val w"
  obtain r s where r: "bs_put (repo_blobstore R) k (val k) (rs_blobs w) = (r, s)" by fastforce
  have well: "well (rs_blobs w)" "holds val (contents (rs_blobs w))" using w by (auto simp: repo_ok_def)
  then have "contents (rs_blobs w) k = None \<or> contents (rs_blobs w) k = Some (val k)"
    by (cases "contents (rs_blobs w) k") (auto simp: holds_def)
  from blobstore.put_ok [OF assms well(1) r this]
  have ok: "well s" "contents s = (contents (rs_blobs w))(k \<mapsto> val k) \<or> contents s = contents (rs_blobs w) \<and> r \<noteq> Inr ()" by auto
  have "holds val (contents s)" "dom (contents (rs_blobs w)) \<subseteq> dom (contents s)" using ok(2) well(2) by (auto simp: holds_def split: if_splits)
  with ok(1) w have "repo_ok R contents well val (w\<lparr>rs_blobs := s\<rparr>) \<and> grows contents w (w\<lparr>rs_blobs := s\<rparr>)"
    by (intro repo_ok_blobs) auto
  then show "\<exists>r w'. blob_put R k (val k) w = Some (r, w') \<and> (case r of
       Inr v \<Rightarrow> contents (rs_blobs w') k = Some (val k) \<and> repo_ok R contents well val w' \<and> grows contents w0 w' \<and>
        rs_changesets w' = rs_changesets w0 \<and> rs_bookmarks w' = rs_bookmarks w0
     | Inl e \<Rightarrow> (\<exists>b. e = BlobstoreError b) \<and> repo_ok R contents well val w' \<and> grows contents w0 w' \<and>
        rs_changesets w' = rs_changesets w0 \<and> rs_bookmarks w' = rs_bookmarks w0)"
    using w r ok(2) by (cases r) (auto simp: blob_put_def)
qed

section \<open>Saving is complete\<close>

lemma fold_hm_insert_ids:
  assumes "distinct (map fst m)" "\<forall>(i, b) \<in> set m. i = f b"
  shows "distinct (map fst (fold (\<lambda>b. hm_insert (f b) b) bs m)) \<and>
     (\<forall>(i, b) \<in> set (fold (\<lambda>b. hm_insert (f b) b) bs m). i = f b \<and> (b \<in> set bs \<or> (i, b) \<in> set m)) \<and>
     fst ` set (fold (\<lambda>b. hm_insert (f b) b) bs m) = f ` set bs \<union> fst ` set m"
  using assms
proof (induction bs arbitrary: m)
  case (Cons b bs)
  let ?m = "hm_insert (f b) b m"
  have m: "distinct (map fst ?m)" "\<forall>(i, b) \<in> set ?m. i = f b"
    using Cons.prems by (auto simp: hm_insert_def distinct_map_filter)
  have keys: "fst ` set ?m = insert (f b) (fst ` set m)" by (force simp: hm_insert_def)
  have sub: "x \<in> set ?m \<Longrightarrow> snd x = b \<or> x \<in> set m" for x by (auto simp: hm_insert_def)
  note IH = Cons.IH [OF m]
  let ?F = "fold (\<lambda>b. hm_insert (f b) b) bs ?m"
  have old: "x \<in> set ?F \<Longrightarrow> fst x = f (snd x) \<and> (snd x \<in> set bs \<or> x \<in> set ?m)" for x
    using IH [THEN conjunct2, THEN conjunct1] by (auto simp: case_prod_unfold)
  have "\<forall>x \<in> set ?F. fst x = f (snd x) \<and> (snd x \<in> set (b # bs) \<or> x \<in> set m)"
  proof
    fix x assume "x \<in> set ?F"
    from old [OF this] sub [of x] show "fst x = f (snd x) \<and> (snd x \<in> set (b # bs) \<or> x \<in> set m)" by auto
  qed
  then show ?case using IH [THEN conjunct1] IH [THEN conjunct2, THEN conjunct2] keys by (simp add: case_prod_unfold)
qed auto

text \<open>The order in which the map is iterated is some order.\<close>

lemma changesets_by_id_ok:
  assumes "\<forall>m. mset (mo m) = mset m" "inj_on (bonsai_id R) (set bcss)"
  shows "distinct (map fst (changesets_by_id R mo bcss)) \<and>
     set (changesets_by_id R mo bcss) = (\<lambda>b. (bonsai_id R b, b)) ` set bcss"
proof -
  define m where "m = fold (\<lambda>b. hm_insert (bonsai_id R b) b) bcss []"
  have ids: "distinct (map fst m)" "\<And>x. x \<in> set m \<Longrightarrow> fst x = bonsai_id R (snd x) \<and> snd x \<in> set bcss" "fst ` set m = bonsai_id R ` set bcss"
    using fold_hm_insert_ids [of "[]" "bonsai_id R" bcss] by (auto simp: m_def [symmetric])
  have all: "(bonsai_id R b, b) \<in> set m" if b: "b \<in> set bcss" for b
  proof -
    have "bonsai_id R b \<in> fst ` set m" unfolding ids(3) using b by (rule imageI)
    then obtain y where y: "bonsai_id R b = fst y" "y \<in> set m" by (rule imageE)
    then have "snd y = b" using ids(2) [OF y(2)] b assms(2) by (metis inj_onD)
    then show ?thesis using y by (metis prod.collapse)
  qed
  have "set m = (\<lambda>b. (bonsai_id R b, b)) ` set bcss"
  proof (intro equalityI subsetI)
    fix x assume "x \<in> set m"
    then show "x \<in> (\<lambda>b. (bonsai_id R b, b)) ` set bcss" using ids(2) [of x] by (intro image_eqI [of _ _ "snd x"]) (auto simp: prod_eq_iff)
  qed (use all in blast)
  moreover have perm: "mset (changesets_by_id R mo bcss) = mset m" using assms(1) by (simp add: changesets_by_id_def m_def)
  moreover have "distinct (map fst (changesets_by_id R mo bcss))"
    using ids(1) perm by (metis mset_map mset_eq_imp_distinct_iff)
  ultimately show ?thesis using mset_eq_setD [OF perm] by simp
qed

lemma save_object_ok:
  assumes "blobstore (repo_blobstore R) contents well"
    and "val (ChangesetId_blobstore_key (bonsai_id R b)) = blob_data (bonsai_blob R b)"
  shows "op_spec (\<lambda>w. w = w0 \<and> repo_ok R contents well val w) (save_bonsai_changeset_object R b)
     (\<lambda>_ w. contents (rs_blobs w) (ChangesetId_blobstore_key (bonsai_id R b)) = Some (blob_data (bonsai_blob R b)) \<and>
        repo_ok R contents well val w \<and> grows contents w0 w \<and> rs_changesets w = rs_changesets w0 \<and> rs_bookmarks w = rs_bookmarks w0)
     (\<lambda>e w. (\<exists>b. e = BlobstoreError b) \<and> repo_ok R contents well val w \<and> grows contents w0 w \<and>
        rs_changesets w = rs_changesets w0 \<and> rs_bookmarks w = rs_bookmarks w0)"
proof -
  let ?k = "ChangesetId_blobstore_key (bonsai_id R b)"
  have eq: "save_bonsai_changeset_object R b = op_then (blob_put R ?k (val ?k)) (\<lambda>_. op_ok ())"
    using assms(2) by (simp add: save_bonsai_changeset_object_def get_changeset_id_def Let_def)
  show ?thesis unfolding eq assms(2) [symmetric] by (rule op_spec_then [OF blob_put_ok [OF assms(1)]], rule op_spec_ok)
qed

text \<open>The two phases: all blobs are put before any row is added, and the rows are added from the parents down.\<close>

definition put_phase ::
    "'s BlobRepo \<Rightarrow> ('s \<Rightarrow> bytes \<rightharpoonup> bytes) \<Rightarrow> ('s \<Rightarrow> bool) \<Rightarrow> (bytes \<Rightarrow> bytes) \<Rightarrow> 's repo_state
      \<Rightarrow> (ChangesetId \<times> BonsaiChangeset) list \<Rightarrow> 's repo_state \<Rightarrow> bool" where
  "put_phase R contents well val w0 ys w \<longleftrightarrow> repo_ok R contents well val w \<and> grows contents w0 w \<and>
     rs_changesets w = rs_changesets w0 \<and> rs_bookmarks w = rs_bookmarks w0 \<and>
     (\<forall>y \<in> set ys. ChangesetId_blobstore_key (bonsai_id R (snd y)) \<in> dom (contents (rs_blobs w)))"

definition add_phase ::
    "'s BlobRepo \<Rightarrow> ('s \<Rightarrow> bytes \<rightharpoonup> bytes) \<Rightarrow> ('s \<Rightarrow> bool) \<Rightarrow> (bytes \<Rightarrow> bytes) \<Rightarrow> 's repo_state
      \<Rightarrow> (ChangesetId \<times> BonsaiChangeset) list \<Rightarrow> ChangesetId list \<Rightarrow> 's repo_state \<Rightarrow> bool" where
  "add_phase R contents well val w0 by_id ys w \<longleftrightarrow>
     repo_ok R contents well val w \<and> grows contents w0 w \<and> rs_bookmarks w = rs_bookmarks w0 \<and>
     (\<forall>y \<in> set by_id. ChangesetId_blobstore_key (bonsai_id R (snd y)) \<in> dom (contents (rs_blobs w))) \<and>
     (\<forall>i \<in> set ys. \<forall>b. map_of by_id i = Some b \<longrightarrow> (\<exists>g. view (rs_changesets w) (repoid R) i = Some (parents (into_mut b), g))) \<and>
     (\<forall>i ps g. view (rs_changesets w) (repoid R) i = Some (ps, g) \<longrightarrow>
        view (rs_changesets w0) (repoid R) i = Some (ps, g) \<or> (\<exists>b. map_of by_id i = Some b \<and> ps = parents (into_mut b)))"

lemma put_phase_step:
  assumes "blobstore (repo_blobstore R) contents well"
    and "val (ChangesetId_blobstore_key (bonsai_id R b)) = blob_data (bonsai_blob R b)"
  shows "op_spec (put_phase R contents well val w0 ys) (save_bonsai_changeset_object R b)
     (\<lambda>_. put_phase R contents well val w0 (ys @ [(i, b)]))
     (\<lambda>e w. (\<exists>b. e = BlobstoreError b) \<and> put_phase R contents well val w0 [] w)"
  unfolding op_spec_def
proof (intro allI impI)
  fix w assume w: "put_phase R contents well val w0 ys w"
  then have "w = w \<and> repo_ok R contents well val w" by (simp add: put_phase_def)
  with save_object_ok [where val = val and b = b, OF assms, of w] show "\<exists>r w'. save_bonsai_changeset_object R b w = Some (r, w') \<and>
     (case r of Inr _ \<Rightarrow> put_phase R contents well val w0 (ys @ [(i, b)]) w'
      | Inl e \<Rightarrow> (\<exists>b. e = BlobstoreError b) \<and> put_phase R contents well val w0 [] w')"
  proof (rule op_specD)
    fix u w' assume r: "save_bonsai_changeset_object R b w = Some (Inr u, w')"
      "contents (rs_blobs w') (ChangesetId_blobstore_key (bonsai_id R b)) = Some (blob_data (bonsai_blob R b)) \<and>
        repo_ok R contents well val w' \<and> grows contents w w' \<and> rs_changesets w' = rs_changesets w \<and> rs_bookmarks w' = rs_bookmarks w"
    have sub: "dom (contents (rs_blobs w)) \<subseteq> dom (contents (rs_blobs w'))" using r(2) by (simp add: grows_def)
    have kept: "ChangesetId_blobstore_key (bonsai_id R (snd y)) \<in> dom (contents (rs_blobs w'))" if "y \<in> set ys" for y
      by (rule subsetD [OF sub]) (use w that in \<open>simp add: put_phase_def\<close>)
    have "put_phase R contents well val w0 (ys @ [(i, b)]) w'"
      using w r(2) grows_trans [of contents w0 w w'] kept domI [of "contents (rs_blobs w')"] by (simp add: put_phase_def)
    then show ?thesis using r(1) by simp
  next
    fix e w' assume r: "save_bonsai_changeset_object R b w = Some (Inl e, w')"
      "(\<exists>b. e = BlobstoreError b) \<and> repo_ok R contents well val w' \<and> grows contents w w' \<and> rs_changesets w' = rs_changesets w \<and> rs_bookmarks w' = rs_bookmarks w"
    then show ?thesis using w grows_trans [of contents w0 w w'] by (auto simp: put_phase_def)
  qed
qed

lemma store_add_known:
  assumes "\<forall>p \<in> set (ci_parents cs). s (ci_repo_id cs) p \<noteq> None" "\<forall>qs g. s (ci_repo_id cs) (ci_cs_id cs) = Some (qs, g) \<longrightarrow> qs = ci_parents cs"
  obtains b s' where "store_add s cs = (Inr b, s')" "\<exists>g. s' (ci_repo_id cs) (ci_cs_id cs) = Some (ci_parents cs, g)"
    "\<And>repo c. (repo, c) \<noteq> (ci_repo_id cs, ci_cs_id cs) \<Longrightarrow> s' repo c = s repo c"
proof -
  have none: "missing_parents s (ci_repo_id cs) (ci_parents cs) = {}" using assms(1) by (auto simp: missing_parents_def)
  show thesis
  proof (cases "s (ci_repo_id cs) (ci_cs_id cs)")
    case None
    then show ?thesis using none by (intro that [of True "snd (store_add s cs)"]) (auto simp: store_add_def Let_def)
  next
    case (Some e)
    then show ?thesis using none assms(2) by (intro that [of False s]) (cases e; auto simp: store_add_def Let_def)+
  qed
qed

lemma add_phase_step:
  assumes ids: "\<forall>y \<in> set by_id. fst y = bonsai_id R (snd y)"
    and same: "\<forall>y \<in> set by_id. \<forall>ps g. view (rs_changesets w0) (repoid R) (fst y) = Some (ps, g) \<longrightarrow> ps = parents (into_mut (snd y))"
    and known: "\<And>b p. map_of by_id i = Some b \<Longrightarrow> p \<in> set (parents (into_mut b)) \<Longrightarrow>
      view (rs_changesets w0) (repoid R) p \<noteq> None \<or> p \<in> set ys \<and> map_of by_id p \<noteq> None"
    and db: "db_ok (rs_changesets w0)"
  shows "op_spec (add_phase R contents well val w0 by_id ys) (complete_changeset R by_id i)
     (\<lambda>_. add_phase R contents well val w0 by_id (ys @ [i])) (\<lambda>_ _. False)"
  unfolding op_spec_def
proof (intro allI impI)
  fix w assume w: "add_phase R contents well val w0 by_id ys w"
  show "\<exists>r w'. complete_changeset R by_id i w = Some (r, w') \<and>
     (case r of Inr _ \<Rightarrow> add_phase R contents well val w0 by_id (ys @ [i]) w' | Inl _ \<Rightarrow> False)"
  proof (cases "map_of by_id i")
    case None
    then show ?thesis using w by (auto simp: complete_changeset_def op_ok_def add_phase_def)
  next
    case (Some b)
    then have ib: "(i, b) \<in> set by_id" by (rule map_of_SomeD)
    let ?cs = "\<lparr>ci_repo_id = repoid R, ci_cs_id = i, ci_parents = parents (into_mut b)\<rparr>" and ?db = "rs_changesets w"
    have grow: "adds (rs_changesets w0) ?db" using w by (simp add: add_phase_def grows_def)
    have kn: "\<forall>p \<in> set (ci_parents ?cs). view ?db (ci_repo_id ?cs) p \<noteq> None"
    proof
      fix p assume "p \<in> set (ci_parents ?cs)"
      then have "view (rs_changesets w0) (repoid R) p \<noteq> None \<or> p \<in> set ys \<and> map_of by_id p \<noteq> None" using known [OF Some] by simp
      then show "view ?db (ci_repo_id ?cs) p \<noteq> None" using adds_view [OF grow db] w unfolding add_phase_def by fastforce
    qed
    have ag: "\<forall>qs g. view ?db (ci_repo_id ?cs) (ci_cs_id ?cs) = Some (qs, g) \<longrightarrow> qs = ci_parents ?cs"
    proof (intro allI impI)
      fix qs g assume "view ?db (ci_repo_id ?cs) (ci_cs_id ?cs) = Some (qs, g)"
      then have "view (rs_changesets w0) (repoid R) i = Some (qs, g) \<or> (\<exists>b. map_of by_id i = Some b \<and> qs = parents (into_mut b))"
        using w by (simp add: add_phase_def)
      then show "qs = ci_parents ?cs" using Some same ib by fastforce
    qed
    obtain u s' where s': "store_add (view ?db) ?cs = (Inr u, s')" "\<exists>g. s' (repoid R) i = Some (parents (into_mut b), g)"
      "\<And>repo c. (repo, c) \<noteq> (repoid R, i) \<Longrightarrow> s' repo c = view ?db repo c" using store_add_known [where s = "view ?db" and cs = ?cs, OF kn ag] by auto
    obtain r db' where add: "changesets_add ?db ?cs = (r, db')" by fastforce
    have dbok: "db_ok ?db" using w by (simp add: add_phase_def repo_ok_def)
    then have "store_add (view ?db) ?cs = (r, view db')" using changesets_add_refines [OF _ add] by (simp add: db_ok_def)
    then have v: "r = Inr u" "view db' = s'" using s'(1) by auto
    have "bonsai_id R b = i" using ids ib by force
    then have run: "complete_changeset R by_id i w = Some (Inr (), w\<lparr>rs_changesets := db'\<rparr>)"
      using Some add v(1) by (simp add: complete_changeset_def op_then_def add_changeset_def op_ok_def)
    have blob: "ChangesetId_blobstore_key i \<in> dom (contents (rs_blobs w))"
      using w ib ids unfolding add_phase_def by fastforce
    have "adds (rs_changesets w0) db'" using grow add by (rule adds_step)
    moreover have "db_ok db'" using changesets_add_ok [OF dbok add] .
    moreover have "ChangesetId_blobstore_key c \<in> dom (contents (rs_blobs w))" if "view db' (repoid R) c \<noteq> None" for c
      using that w blob s'(3) [of "repoid R" c] v(2) by (cases "c = i") (auto simp: add_phase_def repo_ok_def)
    ultimately have ok: "repo_ok R contents well val (w\<lparr>rs_changesets := db'\<rparr>)" "grows contents w0 (w\<lparr>rs_changesets := db'\<rparr>)"
      using w by (simp_all add: add_phase_def repo_ok_def grows_def)
    have "\<exists>g. view db' (repoid R) j = Some (parents (into_mut c), g)" if "j \<in> set (ys @ [i])" "map_of by_id j = Some c" for j c
      using that w Some s'(2) s'(3) [of "repoid R" j] v(2) by (cases "j = i") (auto simp: add_phase_def)
    moreover have "view (rs_changesets w0) (repoid R) j = Some (ps, g) \<or> (\<exists>c. map_of by_id j = Some c \<and> ps = parents (into_mut c))"
      if "view db' (repoid R) j = Some (ps, g)" for j ps g
      using that w Some s'(2) s'(3) [of "repoid R" j] v(2) by (cases "j = i") (auto simp: add_phase_def)
    ultimately have "add_phase R contents well val w0 by_id (ys @ [i]) (w\<lparr>rs_changesets := db'\<rparr>)"
      using ok w unfolding add_phase_def by simp
    then show ?thesis using run by simp
  qed
qed

text \<open>Changesets that can be saved: identifiers and keys tell them apart, as the hash promises, their parents are
  stored or saved with them, and what is already recorded of them agrees.\<close>

definition saveable :: "'s BlobRepo \<Rightarrow> (bytes \<Rightarrow> bytes) \<Rightarrow> 's repo_state \<Rightarrow> BonsaiChangeset list \<Rightarrow> bool" where
  "saveable R val w bcss \<longleftrightarrow>
     inj_on (bonsai_id R) (set bcss) \<and> (\<forall>b \<in> set bcss. val (ChangesetId_blobstore_key (bonsai_id R b)) = blob_data (bonsai_blob R b)) \<and>
     (\<forall>b \<in> set bcss. \<forall>p \<in> set (parents (into_mut b)). view (rs_changesets w) (repoid R) p \<noteq> None \<or> p \<in> bonsai_id R ` set bcss) \<and>
     (\<forall>b \<in> set bcss. \<forall>ps g. view (rs_changesets w) (repoid R) (bonsai_id R b) = Some (ps, g) \<longrightarrow> ps = parents (into_mut b)) \<and>
     acyclic {(bonsai_id R b, p) | b p. b \<in> set bcss \<and> p \<in> set (parents (into_mut b))}"

abbreviation parents_dag :: "'s BlobRepo \<Rightarrow> (ChangesetId \<times> BonsaiChangeset) list \<Rightarrow> ChangesetId dag" where
  "parents_dag R by_id \<equiv> map (\<lambda>(bcs_id, bcs). (bonsai_id R bcs, parents (into_mut bcs))) by_id"

lemma parents_dag_ok:
  assumes "distinct (map fst by_id)" "set by_id = (\<lambda>b. (bonsai_id R b, b)) ` set bcss"
  shows "map_of by_id i = Some b \<Longrightarrow> dag_children (parents_dag R by_id) i = parents (into_mut b)"
    "dag_edges (parents_dag R by_id) = {(bonsai_id R b, p) | b p. b \<in> set bcss \<and> p \<in> set (parents (into_mut b))}"
    "bonsai_id R ` set bcss \<subseteq> dag_nodes (parents_dag R by_id)"
proof -
  have eq: "parents_dag R by_id = map (\<lambda>(i, b). (i, parents (into_mut b))) by_id"
    by (rule map_cong [OF refl]) (use assms(2) in auto)
  have m: "map_of (parents_dag R by_id) i = map_option (\<lambda>b. parents (into_mut b)) (map_of by_id i)" for i
    by (simp only: eq map_of_map o_apply)
  have iff: "map_of by_id i = Some b \<longleftrightarrow> b \<in> set bcss \<and> i = bonsai_id R b" for i b
    using assms by (auto simp: map_of_eq_Some_iff)
  have iff': "Some b = map_of by_id i \<longleftrightarrow> b \<in> set bcss \<and> i = bonsai_id R b" for i b using iff [of i b] by metis
  show "map_of by_id i = Some b \<Longrightarrow> dag_children (parents_dag R by_id) i = parents (into_mut b)" by (simp add: dag_children_def m)
  show "dag_edges (parents_dag R by_id) = {(bonsai_id R b, p) | b p. b \<in> set bcss \<and> p \<in> set (parents (into_mut b))}"
    by (auto simp: dag_edges_def dag_children_def m iff iff' split: option.splits)
  show "bonsai_id R ` set bcss \<subseteq> dag_nodes (parents_dag R by_id)" using assms(2) by (force simp: dag_nodes_def)
qed

lemma put_phase_all:
  assumes B: "blobstore (repo_blobstore R) contents well" and save: "saveable R val w0 bcss"
    and by_id: "set by_id = (\<lambda>b. (bonsai_id R b, b)) ` set bcss"
  shows "op_spec (put_phase R contents well val w0 []) (op_all (\<lambda>(bcs_id, bcs). save_bonsai_changeset_object R bcs) by_id)
     (\<lambda>_. put_phase R contents well val w0 by_id) (\<lambda>e w. (\<exists>b. e = BlobstoreError b) \<and> put_phase R contents well val w0 [] w)"
proof (rule op_spec_all)
  fix ys x zs assume x: "by_id = ys @ x # zs"
  obtain i b where ib: "x = (i, b)" by fastforce
  have "x \<in> set by_id" using x by simp
  then have "b \<in> set bcss" using by_id ib by auto
  then have "val (ChangesetId_blobstore_key (bonsai_id R b)) = blob_data (bonsai_blob R b)" using save by (simp add: saveable_def)
  from put_phase_step [where val = val and b = b, OF B this] show "op_spec (put_phase R contents well val w0 ys)
      ((\<lambda>(bcs_id, bcs). save_bonsai_changeset_object R bcs) x) (\<lambda>_. put_phase R contents well val w0 (ys @ [x]))
      (\<lambda>e w. (\<exists>b. e = BlobstoreError b) \<and> put_phase R contents well val w0 [] w)" by (simp add: ib)
qed

lemma add_phase_all:
  assumes save: "saveable R val w0 bcss" and db: "db_ok (rs_changesets w0)"
    and by_id: "distinct (map fst by_id)" "set by_id = (\<lambda>b. (bonsai_id R b, b)) ` set bcss"
    and order: "children_first (parents_dag R by_id) is"
  shows "op_spec (put_phase R contents well val w0 by_id) (op_all (complete_changeset R by_id) is)
     (\<lambda>_. add_phase R contents well val w0 by_id is) (\<lambda>_ _. False)"
proof (rule op_spec_weaken [OF op_spec_all [where I = "add_phase R contents well val w0 by_id"]])
  fix ys i zs assume i: "is = ys @ i # zs"
  show "op_spec (add_phase R contents well val w0 by_id ys) (complete_changeset R by_id i)
     (\<lambda>_. add_phase R contents well val w0 by_id (ys @ [i])) (\<lambda>_ _. False)"
  proof (rule add_phase_step)
    fix b p assume b: "map_of by_id i = Some b" "p \<in> set (parents (into_mut b))"
    have "set (dag_children (parents_dag R by_id) i) \<subseteq> set ys" using order i unfolding children_first_def by blast
    then have "p \<in> set ys" using b(2) unfolding parents_dag_ok(1) [OF by_id b(1)] by (rule subsetD)
    moreover have "b \<in> set bcss" using map_of_SomeD [OF b(1)] by_id(2) by auto
    then have "view (rs_changesets w0) (repoid R) p \<noteq> None \<or> p \<in> fst ` set by_id"
      using save b(2) unfolding saveable_def by_id(2) by (auto simp: image_image)
    ultimately show "view (rs_changesets w0) (repoid R) p \<noteq> None \<or> p \<in> set ys \<and> map_of by_id p \<noteq> None"
      by (auto simp: map_of_eq_None_iff)
  qed (use save db by_id(2) in \<open>auto simp: saveable_def\<close>)
qed (auto simp: put_phase_def add_phase_def)

lemma add_phase_final:
  assumes save: "saveable R val w0 bcss" and by_id: "distinct (map fst by_id)" "set by_id = (\<lambda>b. (bonsai_id R b, b)) ` set bcss"
    and w: "add_phase R contents well val w0 by_id is w" and b: "b \<in> set bcss" "bonsai_id R b \<in> set is"
  shows "(\<exists>g. view (rs_changesets w) (repoid R) (bonsai_id R b) = Some (parents (into_mut b), g)) \<and>
     contents (rs_blobs w) (ChangesetId_blobstore_key (bonsai_id R b)) = Some (blob_data (bonsai_blob R b))"
proof -
  have m: "map_of by_id (bonsai_id R b) = Some b" "(bonsai_id R b, b) \<in> set by_id" using by_id b(1) by (auto simp: map_of_eq_Some_iff)
  then have "\<exists>g. view (rs_changesets w) (repoid R) (bonsai_id R b) = Some (parents (into_mut b), g)"
    using w b(2) unfolding add_phase_def by blast
  moreover have "ChangesetId_blobstore_key (bonsai_id R b) \<in> dom (contents (rs_blobs w))"
    using w m(2) unfolding add_phase_def by force
  then have "contents (rs_blobs w) (ChangesetId_blobstore_key (bonsai_id R b)) = Some (val (ChangesetId_blobstore_key (bonsai_id R b)))"
    using w by (auto simp: add_phase_def repo_ok_def holds_def)
  ultimately show ?thesis using save b by (simp add: saveable_def)
qed

text \<open>Only the changesets that are saved get new rows.\<close>

definition new_rows :: "'s BlobRepo \<Rightarrow> 's repo_state \<Rightarrow> BonsaiChangeset list \<Rightarrow> 's repo_state \<Rightarrow> bool" where
  "new_rows R w0 bcss w \<longleftrightarrow> (\<forall>i ps g. view (rs_changesets w) (repoid R) i = Some (ps, g) \<longrightarrow>
     view (rs_changesets w0) (repoid R) i = Some (ps, g) \<or> (\<exists>b \<in> set bcss. i = bonsai_id R b \<and> ps = parents (into_mut b)))"

lemma save_ok:
  assumes B: "blobstore (repo_blobstore R) contents well" and orders: "hash_order ho" "\<forall>m. mset (mo m) = mset m"
    and save: "saveable R val w0 bcss" and w0: "repo_ok R contents well val w0"
  shows "op_spec (\<lambda>w. w = w0) (save_bonsai_changesets R ho mo bcss)
     (\<lambda>_ w. repo_ok R contents well val w \<and> grows contents w0 w \<and> rs_bookmarks w = rs_bookmarks w0 \<and>
        (\<forall>b \<in> set bcss. (\<exists>g. view (rs_changesets w) (repoid R) (bonsai_id R b) = Some (parents (into_mut b), g)) \<and>
           contents (rs_blobs w) (ChangesetId_blobstore_key (bonsai_id R b)) = Some (blob_data (bonsai_blob R b))) \<and>
        new_rows R w0 bcss w)
     (\<lambda>e w. (\<exists>b. e = BlobstoreError b) \<and> repo_ok R contents well val w \<and> grows contents w0 w \<and>
        rs_changesets w = rs_changesets w0 \<and> rs_bookmarks w = rs_bookmarks w0)"
proof -
  define by_id where "by_id = changesets_by_id R mo bcss"
  have by_id: "distinct (map fst by_id)" "set by_id = (\<lambda>b. (bonsai_id R b, b)) ` set bcss"
    using changesets_by_id_ok [OF orders(2) save [unfolded saveable_def, THEN conjunct1]] by (simp_all add: by_id_def)
  note dag = parents_dag_ok [OF by_id]
  have "acyclic (dag_edges (parents_dag R by_id))" using save by (simp add: dag(2) saveable_def)
  then obtain s where s: "sort_topological ho (parents_dag R by_id) = Some s" "set s = dag_nodes (parents_dag R by_id)"
    "children_first (parents_dag R by_id) (rev s)" using sort_topological_ok [OF orders(1), of "parents_dag R by_id"]
    by (auto split: option.splits)
  have run: "save_bonsai_changesets R ho mo bcss =
     op_then (op_all (\<lambda>(bcs_id, bcs). save_bonsai_changeset_object R bcs) by_id) (\<lambda>_.
     op_then (op_all (complete_changeset R by_id) (rev s)) (\<lambda>_. op_ok ()))"
    using s(1) by (simp add: save_bonsai_changesets_def by_id_def [symmetric] Let_def)
  have db: "db_ok (rs_changesets w0)" using w0 by (simp add: repo_ok_def)
  let ?E = "\<lambda>e w. (\<exists>b. e = BlobstoreError b) \<and> put_phase R contents well val w0 [] w"
  have adds: "op_spec (put_phase R contents well val w0 by_id) (op_all (complete_changeset R by_id) (rev s))
     (\<lambda>_. add_phase R contents well val w0 by_id (rev s)) ?E"
    by (rule op_spec_weaken [OF add_phase_all [OF save db by_id s(3)]]) simp_all
  have "op_spec (put_phase R contents well val w0 []) (save_bonsai_changesets R ho mo bcss) (\<lambda>_. add_phase R contents well val w0 by_id (rev s)) ?E"
    unfolding run by (rule op_spec_then [OF put_phase_all [OF B save by_id(2)]], rule op_spec_then [OF adds], rule op_spec_ok)
  then show ?thesis
  proof (rule op_spec_weaken)
    show "put_phase R contents well val w0 [] w" if "w = w0" for w using that w0 by (simp add: put_phase_def)
    fix u w assume w: "add_phase R contents well val w0 by_id (rev s) w"
    have "bonsai_id R b \<in> set (rev s)" if "b \<in> set bcss" for b using s(2) dag(3) that by auto
    moreover have rows: "new_rows R w0 bcss w" unfolding new_rows_def
    proof (intro allI impI)
      fix i ps g assume "view (rs_changesets w) (repoid R) i = Some (ps, g)"
      then have "view (rs_changesets w0) (repoid R) i = Some (ps, g) \<or> (\<exists>b. map_of by_id i = Some b \<and> ps = parents (into_mut b))"
        using w unfolding add_phase_def by blast
      then show "view (rs_changesets w0) (repoid R) i = Some (ps, g) \<or> (\<exists>b \<in> set bcss. i = bonsai_id R b \<and> ps = parents (into_mut b))"
        using by_id(2) by (auto dest!: map_of_SomeD)
    qed
    ultimately show "repo_ok R contents well val w \<and> grows contents w0 w \<and> rs_bookmarks w = rs_bookmarks w0 \<and>
        (\<forall>b \<in> set bcss. (\<exists>g. view (rs_changesets w) (repoid R) (bonsai_id R b) = Some (parents (into_mut b), g)) \<and>
           contents (rs_blobs w) (ChangesetId_blobstore_key (bonsai_id R b)) = Some (blob_data (bonsai_blob R b))) \<and>
        new_rows R w0 bcss w"
      using add_phase_final [OF save by_id w] w rows by (simp add: add_phase_def)
  qed (auto simp: put_phase_def)
qed

section \<open>Reading back\<close>

definition same_repo :: "('s \<Rightarrow> bytes \<rightharpoonup> bytes) \<Rightarrow> 's repo_state \<Rightarrow> 's repo_state \<Rightarrow> bool" where
  "same_repo contents w w' \<longleftrightarrow>
     contents (rs_blobs w') = contents (rs_blobs w) \<and> rs_changesets w' = rs_changesets w \<and> rs_bookmarks w' = rs_bookmarks w"

lemma same_repo_trans: "same_repo contents a b \<Longrightarrow> same_repo contents b c \<Longrightarrow> same_repo contents a c"
  by (simp add: same_repo_def)

lemma blob_get_known:
  assumes "blobstore (repo_blobstore R) contents well" "repo_ok R contents well val w0" "k \<in> dom (contents (rs_blobs w0))"
  shows "op_spec (\<lambda>w. w = w0) (blob_get R k)
     (\<lambda>blob w. blob = Some (val k) \<and> repo_ok R contents well val w \<and> same_repo contents w0 w)
     (\<lambda>e w. (\<exists>b. e = BlobstoreError b) \<and> repo_ok R contents well val w \<and> same_repo contents w0 w)"
proof -
  have "contents (rs_blobs w0) k = Some (val k)" using assms(2,3) by (auto simp: repo_ok_def holds_def)
  then show ?thesis by - (rule op_spec_weaken [OF blob_get_ok [OF assms(1)]], use assms(2) in \<open>auto simp: same_repo_def\<close>)
qed

text \<open>What the right value of the key of a changeset decodes to.\<close>

definition decoded :: "'s BlobRepo \<Rightarrow> (bytes \<Rightarrow> bytes) \<Rightarrow> ChangesetId \<Rightarrow> error_kind + BonsaiChangeset" where
  "decoded R val c = BonsaiChangeset_from_blob (bonsai_de (repo_codec R)) (codec_chrono (repo_codec R))
     (blob_from_bytes (blake2_hash (repo_codec R)) (val (ChangesetId_blobstore_key c)))"

lemma fetch_ok:
  assumes B: "blobstore (repo_blobstore R) contents well" and w0: "repo_ok R contents well val w0"
    "ChangesetId_blobstore_key c \<in> dom (contents (rs_blobs w0))"
  shows "op_spec (\<lambda>w. w = w0) (get_bonsai_changeset R c)
     (\<lambda>b w. decoded R val c = Inr b \<and> repo_ok R contents well val w \<and> same_repo contents w0 w)
     (\<lambda>e w. ((\<exists>b. e = BlobstoreError b) \<or> (\<exists>d. e = TypesError d \<and> decoded R val c = Inl d)) \<and>
        repo_ok R contents well val w \<and> same_repo contents w0 w)"
proof -
  let ?k = "ChangesetId_blobstore_key c" and ?Q = "\<lambda>b w. decoded R val c = Inr b \<and> repo_ok R contents well val w \<and> same_repo contents w0 w"
    and ?E = "\<lambda>e w. ((\<exists>b. e = BlobstoreError b) \<or> (\<exists>d. e = TypesError d \<and> decoded R val c = Inl d)) \<and>
        repo_ok R contents well val w \<and> same_repo contents w0 w"
  have get: "op_spec (\<lambda>w. w = w0) (blob_get R ?k) (\<lambda>blob w. blob = Some (val ?k) \<and> repo_ok R contents well val w \<and> same_repo contents w0 w) ?E"
    by (rule op_spec_weaken [OF blob_get_known [OF B w0]]) auto
  show ?thesis unfolding get_bonsai_changeset_def fetch_def
  proof (rule op_spec_then [OF get])
    fix blob
    show "op_spec (\<lambda>w. blob = Some (val ?k) \<and> repo_ok R contents well val w \<and> same_repo contents w0 w)
       (case blob of
         None \<Rightarrow> op_of (Inl (MissingTypedKeyEntry ?k))
       | Some data \<Rightarrow> op_of (map_err TypesError
           (BonsaiChangeset_from_blob (bonsai_de (repo_codec R)) (codec_chrono (repo_codec R))
             (blob_from_bytes (blake2_hash (repo_codec R)) data)))) ?Q ?E"
    proof (cases "blob = Some (val ?k)")
      case True
      then show ?thesis by (cases "decoded R val c") (auto simp: op_spec_def op_of_def decoded_def)
    qed (simp add: op_spec_def)
  qed
qed

lemma decoded_saved:
  assumes "bonsai_mut_ok (codec_chrono (repo_codec R)) (into_mut b)" "bonsai_consistent (into_mut b)" "whole_second_dates (into_mut b)"
    "bonsai_de (repo_codec R) (blob_data (bonsai_blob R b)) = Some (BonsaiChangeset_into_thrift b)"
    "val (ChangesetId_blobstore_key (bonsai_id R b)) = blob_data (bonsai_blob R b)"
  shows "decoded R val (bonsai_id R b) = Inr b"
  using BonsaiChangeset_thrift_roundtrip [OF assms(1-3)] assms(4,5)
  by (simp add: decoded_def BonsaiChangeset_from_blob_def BonsaiChangeset_into_blob_def blob_from_bytes_def Let_def)

text \<open>C23: saving changesets whose parents are in the repository or among them. The call returns. If it succeeds,
  every changeset is recorded with its parents and reads back as it was saved; what was recorded before is
  kept and bookmarks do not move. If it fails, the blobstore has failed, and no row has been added: a
  changeset is never recorded before its blob and its parents are stored.\<close>

theorem save_bonsai_changesets_correct:
  assumes "blobstore (repo_blobstore R) contents well" "hash_order ho" "\<forall>m. mset (mo m) = mset m"
    and "saveable R val w bcss" "repo_ok R contents well val w"
    and "\<forall>b \<in> set bcss. bonsai_de (repo_codec R) (blob_data (bonsai_blob R b)) = Some (BonsaiChangeset_into_thrift b)"
    and "\<forall>b \<in> set bcss. bonsai_mut_ok (codec_chrono (repo_codec R)) (into_mut b) \<and> bonsai_consistent (into_mut b) \<and> whole_second_dates (into_mut b)"
  shows "\<exists>r w'. save_bonsai_changesets R ho mo bcss w = Some (r, w') \<and> repo_ok R contents well val w' \<and>
     rs_bookmarks w' = rs_bookmarks w \<and> (\<forall>repo c e. view (rs_changesets w) repo c = Some e \<longrightarrow> view (rs_changesets w') repo c = Some e) \<and>
     (case r of
        Inl e \<Rightarrow> (\<exists>b. e = BlobstoreError b) \<and> rs_changesets w' = rs_changesets w
      | Inr _ \<Rightarrow> \<forall>b \<in> set bcss. (\<exists>g. view (rs_changesets w') (repoid R) (bonsai_id R b) = Some (parents (into_mut b), g)) \<and>
          (\<exists>f w''. get_bonsai_changeset R (bonsai_id R b) w' = Some (f, w'') \<and> (f = Inr b \<or> (\<exists>e. f = Inl (BlobstoreError e)))))"
proof (rule op_specD [OF save_ok [OF assms(1-5)] refl])
  have db: "db_ok (rs_changesets w)" using assms(5) by (simp add: repo_ok_def)
  fix u w' assume run: "save_bonsai_changesets R ho mo bcss w = Some (Inr u, w')"
    and w': "repo_ok R contents well val w' \<and> grows contents w w' \<and> rs_bookmarks w' = rs_bookmarks w \<and>
      (\<forall>b \<in> set bcss. (\<exists>g. view (rs_changesets w') (repoid R) (bonsai_id R b) = Some (parents (into_mut b), g)) \<and>
         contents (rs_blobs w') (ChangesetId_blobstore_key (bonsai_id R b)) = Some (blob_data (bonsai_blob R b))) \<and> new_rows R w bcss w'"
  have "\<exists>f w''. get_bonsai_changeset R (bonsai_id R b) w' = Some (f, w'') \<and> (f = Inr b \<or> (\<exists>e. f = Inl (BlobstoreError e)))"
    if b: "b \<in> set bcss" for b
  proof -
    have dec: "decoded R val (bonsai_id R b) = Inr b" using decoded_saved [of R b val] assms(4,6,7) b by (simp add: saveable_def)
    have w'_ok: "repo_ok R contents well val w'" "ChangesetId_blobstore_key (bonsai_id R b) \<in> dom (contents (rs_blobs w'))" using w' b by blast+
    show ?thesis by (rule op_specD [OF fetch_ok [OF assms(1) w'_ok] refl]) (use dec in auto)
  qed
  moreover have "view (rs_changesets w) repo c = Some e \<longrightarrow> view (rs_changesets w') repo c = Some e" for repo c e
    using adds_view [OF _ db] w' by (simp add: grows_def)
  ultimately show ?thesis using run w' by simp
qed (use assms(5) in auto)

text \<open>An order of sets of identifiers, and a repository in memory.\<close>

definition cs_order :: "ChangesetId set \<Rightarrow> ChangesetId list" where
  "cs_order S = map (\<lambda>bs. ChangesetId (Blake2 bs)) (sorted_list_of_set ((\<lambda>c. blake2_bytes (cs_blake2 c)) ` S))"

lemma hash_order_cs_order: "hash_order cs_order"
proof -
  have "set (cs_order S) = S" if "finite S" for S
  proof -
    have "set (cs_order S) = (\<lambda>c. ChangesetId (Blake2 (blake2_bytes (cs_blake2 c)))) ` S"
      using that by (simp add: cs_order_def image_image)
    also have "\<dots> = (\<lambda>c. c) ` S" by (rule image_cong) simp_all
    finally show ?thesis by simp
  qed
  moreover have "distinct (cs_order S)" for S by (simp add: cs_order_def distinct_map inj_on_def)
  ultimately show ?thesis by (simp add: hash_order_def)
qed

definition sample_bonsai :: "ChangesetId list \<Rightarrow> (MPath, FileChange option) btree_map \<Rightarrow> BonsaiChangeset" where
  "sample_bonsai ps fcs = BonsaiChangeset \<lparr>parents = ps, author = [], author_date = DateTime 0 0 0, committer = None,
     committer_date = None, message = [], extra = [], file_changes = fcs\<rparr>"

definition sample_codec :: codec where
  "sample_codec = \<lparr>bonsai_ser = \<lambda>_. [1], bonsai_de = \<lambda>_. Some (BonsaiChangeset_into_thrift (sample_bonsai [] [])),
     contents_ser = \<lambda>c. case c of TBytes b \<Rightarrow> b | TUnknownContents _ \<Rightarrow> [], contents_de = \<lambda>b. Some (TBytes b),
     blake2_hash = \<lambda>_ _. Blake2 (replicate 32 7), sha256_hash = \<lambda>_. Sha256 (replicate 32 8),
     codec_chrono = \<lparr>offset_in_range = \<lambda>_. True, secs_in_range = \<lambda>_. True\<rparr>\<rparr>"

definition sample_repo :: "memblob BlobRepo" where
  "sample_repo = \<lparr>repo_blobstore = EagerMemblob, repoid = 0, repo_codec = sample_codec\<rparr>"

definition sample_state :: "memblob repo_state" where
  "sample_state = \<lparr>rs_blobs = Map.empty, rs_changesets = empty_db, rs_bookmarks = empty_bookmarks_db\<rparr>"

lemma sample_state_ok: "repo_ok sample_repo (\<lambda>hash. hash) (\<lambda>_. True) val sample_state"
  by (simp add: repo_ok_def sample_state_def holds_def db_ok_empty) (simp add: empty_db_def view_def)

theorem save_bonsai_changesets_correct_witness:
  "\<exists>r w'. save_bonsai_changesets sample_repo cs_order (\<lambda>m. m) [sample_bonsai [] []] sample_state = Some (r, w') \<and>
     (r = Inr () \<longrightarrow> view (rs_changesets w') (repoid sample_repo) (bonsai_id sample_repo (sample_bonsai [] [])) \<noteq> None)"
proof -
  have mem: "blobstore (repo_blobstore sample_repo) (\<lambda>hash. hash) (\<lambda>_. True)" by (simp add: sample_repo_def mem.blobstore_axioms)
  have id: "bonsai_id sample_repo b = ChangesetId (Blake2 (replicate 32 7))" "blob_data (bonsai_blob sample_repo b) = [1]" for b
    by (simp_all add: get_changeset_id_def BonsaiChangeset_into_blob_def Let_def ChangesetId_from_data_def sample_repo_def sample_codec_def)
  have saveable: "saveable sample_repo (\<lambda>_. [1]) sample_state [sample_bonsai [] []]"
    by (simp add: saveable_def id sample_bonsai_def acyclic_def) (simp add: sample_state_def empty_db_def view_def)
  have de: "\<forall>b \<in> set [sample_bonsai [] []]. bonsai_de (repo_codec sample_repo) (blob_data (bonsai_blob sample_repo b)) = Some (BonsaiChangeset_into_thrift b)"
    by (simp add: sample_repo_def sample_codec_def)
  have "\<forall>b \<in> set [sample_bonsai [] []]. bonsai_mut_ok (codec_chrono (repo_codec sample_repo)) (into_mut b) \<and> bonsai_consistent (into_mut b) \<and> whole_second_dates (into_mut b)"
    by (simp add: sample_bonsai_def bonsai_mut_ok_def bonsai_consistent_def whole_second_dates_def date_ok_def whole_seconds_def
        path_conflict_free_def sample_repo_def sample_codec_def)
  from save_bonsai_changesets_correct [OF mem hash_order_cs_order _ saveable sample_state_ok de this, of "\<lambda>m. m"]
  show ?thesis by simp (elim exE conjE, intro exI conjI, assumption, auto split: sum.splits)
qed

section \<open>Contents by alias\<close>

lemma valid_utf8_ascii: "\<forall>b \<in> set bs. b \<le> 0x7F \<Longrightarrow> valid_utf8 bs"
  by (induction bs) simp_all

lemma hex_ascii: "b \<in> set (Blake2_to_hex h) \<Longrightarrow> b \<le> 0x7F"
proof -
  have all: "\<forall>n < 16. HEX_CHARS ! n \<le> 0x7F" unfolding HEX_CHARS_def by code_simp
  show "b \<in> set (Blake2_to_hex h) \<Longrightarrow> b \<le> 0x7F"
    using all unat_nibble_hi unat_nibble_lo by (auto simp: Blake2_to_hex_def hex_of_byte_def)
qed

lemma content_id_of_key_ok: "content_ok c \<Longrightarrow> content_id_of_key alias (ContentId_blobstore_key c) = Inr c"
proof -
  assume c: "content_ok c"
  have "Blake2_from_str (Blake2_to_hex (content_blake2 c)) = Inr (content_blake2 c)"
    using parse_hex_to_hex [of "blake2_bytes (content_blake2 c)" "[]"] c length_to_hex [of "blake2_bytes (content_blake2 c)"]
    by (simp add: Blake2_from_str_def Blake2_to_hex_def blake2_ok_def)
  then show ?thesis using valid_utf8_ascii [of "Blake2_to_hex (content_blake2 c)"] hex_ascii
    by (simp add: content_id_of_key_def content_prefix_def ContentId_blobstore_key_def Let_def)
qed

lemma blob_put_dom:
  assumes "blobstore (repo_blobstore R) contents well"
  shows "op_spec (\<lambda>w. repo_ok R contents well val w \<and> K \<subseteq> dom (contents (rs_blobs w))) (blob_put R k (val k))
     (\<lambda>_ w. repo_ok R contents well val w \<and> insert k K \<subseteq> dom (contents (rs_blobs w)))
     (\<lambda>e w. (\<exists>b. e = BlobstoreError b) \<and> repo_ok R contents well val w \<and> K \<subseteq> dom (contents (rs_blobs w)))"
  unfolding op_spec_def
proof (intro allI impI)
  fix w assume w: "repo_ok R contents well val w \<and> K \<subseteq> dom (contents (rs_blobs w))"
  then have "w = w \<and> repo_ok R contents well val w" by blast
  with blob_put_ok [OF assms, of _ _ k]
  show "\<exists>r w'. blob_put R k (val k) w = Some (r, w') \<and>
      (case r of Inr a \<Rightarrow> repo_ok R contents well val w' \<and> insert k K \<subseteq> dom (contents (rs_blobs w'))
       | Inl e \<Rightarrow> (\<exists>b. e = BlobstoreError b) \<and> repo_ok R contents well val w' \<and> K \<subseteq> dom (contents (rs_blobs w')))"
    by (rule op_specD) (use w in \<open>auto simp: grows_def\<close>)
qed

text \<open>The right values of the three keys about some contents.\<close>

definition aliased :: "codec \<Rightarrow> (bytes \<Rightarrow> bytes) \<Rightarrow> bytes \<Rightarrow> bool" where
  "aliased C val raw \<longleftrightarrow>
     (let cid = ContentId_from_data (blake2_hash C) raw; sha = sha256_hash C raw
      in content_ok cid \<and> length (sha256_bytes sha) = 32 \<and>
         contents_de C (contents_ser C (TBytes raw)) = Some (TBytes raw) \<and>
         val (get_sha256_alias_key (Sha256_to_hex sha)) = ContentId_blobstore_key cid \<and>
         val (ContentId_blobstore_key cid) = contents_ser C (TBytes raw) \<and>
         val (get_content_id_alias_key cid) = sha256_bytes sha)"

definition alias_keys :: "codec \<Rightarrow> bytes \<Rightarrow> bytes set" where
  "alias_keys C raw = {get_sha256_alias C raw, ContentId_blobstore_key (ContentId_from_data (blake2_hash C) raw)}"

lemma upload_ok:
  assumes B: "blobstore (repo_blobstore R) contents well" and al: "aliased (repo_codec R) val raw"
  shows "op_spec (repo_ok R contents well val) (upload_file_content_by_alias R alias_first dropped raw)
     (\<lambda>_ w. repo_ok R contents well val w \<and> alias_keys (repo_codec R) raw \<subseteq> dom (contents (rs_blobs w)))
     (\<lambda>e w. (\<exists>b. e = BlobstoreError b) \<and> repo_ok R contents well val w)"
proof -
  let ?c = "ContentId_blobstore_key (ContentId_from_data (blake2_hash (repo_codec R)) raw)" and ?a = "get_sha256_alias (repo_codec R) raw"
    and ?E = "\<lambda>e w. (\<exists>b. e = BlobstoreError b) \<and> repo_ok R contents well val w"
  have vals: "val ?a = ?c" "val ?c = contents_ser (repo_codec R) (TBytes raw)"
    using al by (simp_all add: aliased_def Let_def get_sha256_alias_def)
  have put: "op_spec (\<lambda>w. repo_ok R contents well val w \<and> K \<subseteq> dom (contents (rs_blobs w))) (blob_put R k (val k))
      (\<lambda>_ w. repo_ok R contents well val w \<and> insert k K \<subseteq> dom (contents (rs_blobs w))) ?E" for K k
    by (rule op_spec_weaken [OF blob_put_dom [OF B]]) auto
  have fail: "op_spec (?E e) (blob_put R k (val k)) (\<lambda>_. ?E e) (\<lambda>_. ?E e)" for e k
    by (cases "\<exists>b. e = BlobstoreError b")
      (auto simp: op_spec_def [where P = "\<lambda>w. False"] intro: op_spec_weaken [OF blob_put_dom [OF B, of val "{}"]])
  have join: "op_spec (repo_ok R contents well val) (op_join dropped (blob_put R k (val k)) (blob_put R k' (val k')))
      (\<lambda>_ w. repo_ok R contents well val w \<and> {k', k} \<subseteq> dom (contents (rs_blobs w))) ?E" for k k'
    by (rule op_spec_join [OF op_spec_weaken [OF put [of "{}"]] put fail]) auto
  have both: "op_spec (repo_ok R contents well val)
      (if alias_first then op_join dropped (blob_put R ?a ?c) (blob_put R ?c (contents_ser (repo_codec R) (TBytes raw)))
       else op_join dropped (blob_put R ?c (contents_ser (repo_codec R) (TBytes raw))) (blob_put R ?a ?c))
      (\<lambda>_ w. repo_ok R contents well val w \<and> alias_keys (repo_codec R) raw \<subseteq> dom (contents (rs_blobs w))) ?E"
    using join [of ?a ?c] join [of ?c ?a] vals by (cases alias_first) (simp_all add: alias_keys_def conj_commute)
  show ?thesis
    unfolding upload_file_content_by_alias_def upload_blob_def Let_def FileContents_into_blob_def FileContents_into_thrift_def
      Blob.simps FileContents.sel
    by (rule op_spec_then [OF op_spec_then [OF both]]; rule op_spec_ok; assumption)
qed

lemma fetch_file_contents_ok:
  assumes B: "blobstore (repo_blobstore R) contents well" and al: "aliased (repo_codec R) val raw"
    and cid: "cid = ContentId_from_data (blake2_hash (repo_codec R)) raw"
  shows "op_spec (\<lambda>w. repo_ok R contents well val w \<and> ContentId_blobstore_key cid \<in> dom (contents (rs_blobs w))) (fetch_file_contents R cid)
     (\<lambda>c w. c = FileContents_Bytes raw \<and> repo_ok R contents well val w)
     (\<lambda>e w. (\<exists>b. e = FileContentsDeserializeFailed (ContentId_blobstore_key cid) (BlobstoreError b)) \<and> repo_ok R contents well val w)"
  unfolding op_spec_def
proof (intro allI impI, elim conjE)
  fix w assume w: "repo_ok R contents well val w" "ContentId_blobstore_key cid \<in> dom (contents (rs_blobs w))"
  have v: "contents_de (repo_codec R) (val (ContentId_blobstore_key cid)) = Some (TBytes raw)"
    using al cid by (simp add: aliased_def Let_def)
  show "\<exists>r w'. fetch_file_contents R cid w = Some (r, w') \<and>
      (case r of Inr c \<Rightarrow> c = FileContents_Bytes raw \<and> repo_ok R contents well val w'
       | Inl e \<Rightarrow> (\<exists>b. e = FileContentsDeserializeFailed (ContentId_blobstore_key cid) (BlobstoreError b)) \<and> repo_ok R contents well val w')"
    by (rule op_specD [OF blob_get_known [OF B w] refl])
      (use v in \<open>auto simp: fetch_file_contents_def Let_def op_then_def op_of_def FileContents_from_encoded_bytes_def\<close>)
qed

text \<open>The errors that the blobstore gives, as the operations on contents wrap them.\<close>

definition blob_failure :: "repo_error \<Rightarrow> bool" where
  "blob_failure e \<longleftrightarrow> (\<exists>b. e = BlobstoreError b) \<or> (\<exists>k b. e = FileContentsDeserializeFailed k (BlobstoreError b))"

lemma get_by_alias_ok:
  assumes B: "blobstore (repo_blobstore R) contents well" and al: "aliased (repo_codec R) val raw"
    and w: "repo_ok R contents well val w" "alias_keys (repo_codec R) raw \<subseteq> dom (contents (rs_blobs w))"
  shows "op_spec (\<lambda>v. v = w) (get_file_content_by_alias R (sha256_hash (repo_codec R) raw))
     (\<lambda>c w. c = FileContents_Bytes raw \<and> repo_ok R contents well val w)
     (\<lambda>e w. blob_failure e \<and> repo_ok R contents well val w)"
proof -
  let ?sha = "sha256_hash (repo_codec R) raw" and ?cid = "ContentId_from_data (blake2_hash (repo_codec R)) raw"
    and ?E = "\<lambda>e w. blob_failure e \<and> repo_ok R contents well val w"
  let ?k = "get_sha256_alias_key (Sha256_to_hex ?sha)"
  have known: "?k \<in> dom (contents (rs_blobs w))" "ContentId_blobstore_key ?cid \<in> dom (contents (rs_blobs w))"
    using w(2) by (simp_all add: alias_keys_def get_sha256_alias_def)
  have key: "content_id_of_key ?sha (val ?k) = Inr ?cid" using al by (simp add: aliased_def Let_def content_id_of_key_ok)
  have find: "op_spec (\<lambda>v. v = w) (get_file_content_id_by_alias R ?sha)
      (\<lambda>c v. c = ?cid \<and> repo_ok R contents well val v \<and> ContentId_blobstore_key ?cid \<in> dom (contents (rs_blobs v))) ?E"
    unfolding op_spec_def
    by (intro allI impI, rule op_specD [OF blob_get_known [OF B w(1) known(1)]], assumption)
      (use key known(2) in \<open>auto simp: get_file_content_id_by_alias_def Let_def op_then_def op_of_def blob_failure_def same_repo_def\<close>)
  have "op_spec (\<lambda>w. c = ?cid \<and> repo_ok R contents well val w \<and> ContentId_blobstore_key ?cid \<in> dom (contents (rs_blobs w)))
      (fetch_file_contents R c) (\<lambda>c w. c = FileContents_Bytes raw \<and> repo_ok R contents well val w) ?E" for c
    by (cases "c = ?cid") (auto simp: op_spec_def [where P = "\<lambda>w. False"] blob_failure_def
        intro!: op_spec_weaken [OF fetch_file_contents_ok [OF B al refl]])
  with find show ?thesis unfolding get_file_content_by_alias_def by (rule op_spec_then)
qed

lemma get_alias_content_id_ok:
  assumes B: "blobstore (repo_blobstore R) contents well" and al: "aliased (repo_codec R) val raw"
    and cid: "cid = ContentId_from_data (blake2_hash (repo_codec R)) raw" and w: "repo_ok R contents well val w"
  shows "op_spec (\<lambda>v. v = w) (get_alias_content_id_to_sha256 R cid)
     (\<lambda>r v. (r = None \<or> r = Some (sha256_hash (repo_codec R) raw)) \<and> repo_ok R contents well val v \<and> same_repo contents w v)
     (\<lambda>e v. blob_failure e \<and> repo_ok R contents well val v)"
proof -
  have v: "Sha256_from_bytes (val (get_content_id_alias_key cid)) = Inr (sha256_hash (repo_codec R) raw)"
    using al cid by (simp add: aliased_def Let_def Sha256_from_bytes_def)
  let ?k = "get_content_id_alias_key cid"
  have known: "contents (rs_blobs w) ?k = None \<or> contents (rs_blobs w) ?k = Some (val ?k)"
    using w by (cases "contents (rs_blobs w) ?k") (auto simp: repo_ok_def holds_def)
  have get: "op_spec (\<lambda>v. v = w) (blob_get R ?k)
      (\<lambda>r v. (r = None \<or> r = Some (val ?k)) \<and> repo_ok R contents well val v \<and> same_repo contents w v) (\<lambda>e v. blob_failure e \<and> repo_ok R contents well val v)"
    by (rule op_spec_weaken [OF blob_get_ok [OF B, of w val ?k]]) (use w known in \<open>auto simp: blob_failure_def same_repo_def\<close>)
  show ?thesis unfolding get_alias_content_id_to_sha256_def by (rule op_spec_then [OF get], rule op_spec_ok) (use v in auto)
qed

lemma get_file_sha256_ok:
  assumes B: "blobstore (repo_blobstore R) contents well" and al: "aliased (repo_codec R) val raw"
    and cid: "cid = ContentId_from_data (blake2_hash (repo_codec R)) raw"
    and w: "repo_ok R contents well val w" "ContentId_blobstore_key cid \<in> dom (contents (rs_blobs w))"
  shows "op_spec (\<lambda>v. v = w) (get_file_sha256 R cid)
     (\<lambda>h v. h = sha256_hash (repo_codec R) raw \<and> repo_ok R contents well val v) (\<lambda>e v. blob_failure e \<and> repo_ok R contents well val v)"
proof -
  let ?sha = "sha256_hash (repo_codec R) raw" and ?E = "\<lambda>e v. blob_failure e \<and> repo_ok R contents well val v"
  have put: "op_spec (\<lambda>v. a = ?sha \<and> repo_ok R contents well val v) (put_alias_content_id_to_sha256 R cid a) (\<lambda>_ v. a = ?sha \<and> repo_ok R contents well val v) ?E" for a
  proof (cases "a = ?sha")
    case True
    then have "put_alias_content_id_to_sha256 R cid a = blob_put R (get_content_id_alias_key cid) (val (get_content_id_alias_key cid))"
      using al cid by (simp add: put_alias_content_id_to_sha256_def aliased_def Let_def)
    then show ?thesis using True by (auto intro!: op_spec_weaken [OF blob_put_dom [OF B, of val "{}"]] simp: blob_failure_def)
  qed (simp add: op_spec_def)
  have fetch: "op_spec (\<lambda>v. repo_ok R contents well val v \<and> ContentId_blobstore_key cid \<in> dom (contents (rs_blobs v)))
      (fetch_file_content_sha256_from_blobstore R cid) (\<lambda>a v. a = ?sha \<and> repo_ok R contents well val v) ?E"
    unfolding fetch_file_content_sha256_from_blobstore_def
    by (rule op_spec_then [OF op_spec_weaken [OF fetch_file_contents_ok [OF B al cid], where E' = ?E]], assumption, assumption)
      (auto simp: blob_failure_def intro: op_spec_ok)
  have compute: "op_spec (\<lambda>v. repo_ok R contents well val v \<and> ContentId_blobstore_key cid \<in> dom (contents (rs_blobs v)))
      (op_then (fetch_file_content_sha256_from_blobstore R cid) (\<lambda>alias.
           op_then (put_alias_content_id_to_sha256 R cid alias) (\<lambda>_. op_ok alias))) (\<lambda>h v. h = ?sha \<and> repo_ok R contents well val v) ?E"
    by (rule op_spec_then [OF fetch op_spec_then [OF put]]) (rule op_spec_ok)
  show ?thesis
    unfolding get_file_sha256_def
  proof (rule op_spec_then [OF get_alias_content_id_ok [OF B al cid w(1)]])
    fix r
    show "op_spec (\<lambda>v. (r = None \<or> r = Some ?sha) \<and> repo_ok R contents well val v \<and> same_repo contents w v)
        (case r of Some file_content_sha256 \<Rightarrow> op_ok file_content_sha256
         | None \<Rightarrow> op_then (fetch_file_content_sha256_from_blobstore R cid) (\<lambda>alias.
             op_then (put_alias_content_id_to_sha256 R cid alias) (\<lambda>_. op_ok alias)))
        (\<lambda>h v. h = ?sha \<and> repo_ok R contents well val v) ?E"
      using w(2) by (cases r) (auto simp: same_repo_def intro!: op_spec_ok op_spec_weaken [OF compute])
  qed
qed

text \<open>C24: contents uploaded with their SHA-256 as an alias. The upload returns in either order of its two writes
  and fails only when the blobstore does. Once it has succeeded, \<open>get_file_content_by_alias\<close> of the SHA-256 gives
  the bytes back, \<open>get_file_sha256\<close> of the content identifier gives the SHA-256, whether its own alias is already
  stored or is computed and stored by the call, and both fail only when the blobstore does.\<close>

theorem upload_by_alias_correct:
  assumes "blobstore (repo_blobstore R) contents well" "aliased (repo_codec R) val raw" "repo_ok R contents well val w"
  shows "\<exists>r w1. upload_file_content_by_alias R alias_first dropped raw w = Some (r, w1) \<and> repo_ok R contents well val w1 \<and>
     (case r of
        Inl e \<Rightarrow> blob_failure e
      | Inr _ \<Rightarrow>
          (\<exists>c w2. get_file_content_by_alias R (sha256_hash (repo_codec R) raw) w1 = Some (c, w2) \<and> repo_ok R contents well val w2 \<and>
             (case c of Inl e \<Rightarrow> blob_failure e | Inr fc \<Rightarrow> fc = FileContents_Bytes raw)) \<and>
          (\<exists>h w3. get_file_sha256 R (ContentId_from_data (blake2_hash (repo_codec R)) raw) w1 = Some (h, w3) \<and> repo_ok R contents well val w3 \<and>
             (case h of Inl e \<Rightarrow> blob_failure e | Inr sha \<Rightarrow> sha = sha256_hash (repo_codec R) raw)))"
proof (rule op_specD [OF upload_ok [OF assms(1,2)] assms(3)])
  let ?cid = "ContentId_from_data (blake2_hash (repo_codec R)) raw"
  fix u w1 assume run: "upload_file_content_by_alias R alias_first dropped raw w = Some (Inr u, w1)"
    and w1: "repo_ok R contents well val w1 \<and> alias_keys (repo_codec R) raw \<subseteq> dom (contents (rs_blobs w1))"
  have k: "ContentId_blobstore_key ?cid \<in> dom (contents (rs_blobs w1))" using w1 by (simp add: alias_keys_def)
  have "\<exists>c w2. get_file_content_by_alias R (sha256_hash (repo_codec R) raw) w1 = Some (c, w2) \<and> repo_ok R contents well val w2 \<and>
      (case c of Inl e \<Rightarrow> blob_failure e | Inr fc \<Rightarrow> fc = FileContents_Bytes raw)"
    by (rule op_specD [OF get_by_alias_ok [OF assms(1,2) conjunct1 [OF w1] conjunct2 [OF w1]] refl]) auto
  moreover have "\<exists>h w3. get_file_sha256 R ?cid w1 = Some (h, w3) \<and> repo_ok R contents well val w3 \<and>
      (case h of Inl e \<Rightarrow> blob_failure e | Inr sha \<Rightarrow> sha = sha256_hash (repo_codec R) raw)"
    by (rule op_specD [OF get_file_sha256_ok [OF assms(1,2) refl conjunct1 [OF w1] k] refl]) auto
  ultimately show ?thesis using run w1 by simp
qed (auto simp: blob_failure_def)

theorem upload_by_alias_correct_witness:
  "\<exists>r w1. upload_file_content_by_alias sample_repo True False [3, 1] sample_state = Some (r, w1) \<and>
     (case r of
        Inl e \<Rightarrow> blob_failure e
      | Inr _ \<Rightarrow> \<exists>c w2. get_file_content_by_alias sample_repo (sha256_hash (repo_codec sample_repo) [3, 1]) w1 = Some (c, w2) \<and>
          (case c of Inl e \<Rightarrow> blob_failure e | Inr fc \<Rightarrow> fc = FileContents_Bytes [3, 1]))"
proof -
  have mem: "blobstore (repo_blobstore sample_repo) (\<lambda>hash. hash) (\<lambda>_. True)" by (simp add: sample_repo_def mem.blobstore_axioms)
  let ?c = "ContentId_blobstore_key (ContentId (Blake2 (replicate 32 7)))"
  let ?a = "get_sha256_alias_key (Sha256_to_hex (Sha256 (replicate 32 8)))"
  let ?val = "\<lambda>k. if k = ?a then ?c else if k = ?c then [3, 1] else replicate 32 8"
  have ne: "?a \<noteq> ?c" "get_content_id_alias_key (ContentId (Blake2 (replicate 32 7))) \<noteq> ?a" "get_content_id_alias_key (ContentId (Blake2 (replicate 32 7))) \<noteq> ?c"
    by (simp_all add: get_sha256_alias_key_def ContentId_blobstore_key_def get_content_id_alias_key_def ascii_def)
  have "aliased (repo_codec sample_repo) ?val [3, 1]" using ne
    by (simp add: aliased_def Let_def sample_repo_def sample_codec_def ContentId_from_data_def blake2_ok_def)
  from upload_by_alias_correct [OF mem this sample_state_ok, of True False] show ?thesis
    by - (elim exE conjE, intro exI conjI, assumption, auto split: sum.splits)
qed

end
