(* ===== verification/Pushrebase_Files.thy ===== *)
theory Pushrebase_Files
  imports Bonsai "HOL-Library.Sublist"
begin

text \<open>
  The part of \<open>src/bundle2_resolver/pushrebase/src/lib.rs\<close> that computes on changesets without the
  repository: which files of two sets of changed files are in conflict, which files a changeset touches,
  and the changeset that results when the parents of a changeset are replaced.
\<close>

section \<open>Errors\<close>

record PushrebaseConflict =
  left :: MPath
  right :: MPath

section \<open>Changed files\<close>

definition extract_conflict_files_from_bonsai_changeset :: "BonsaiChangeset \<Rightarrow> MPath list" where
  "extract_conflict_files_from_bonsai_changeset bcs =
     concat (map (\<lambda>(path, maybe_file_change).
       (case maybe_file_change of
          None \<Rightarrow> []
        | Some file_change \<Rightarrow> (case copy_from file_change of None \<Rightarrow> [] | Some (copy_from_path, _) \<Rightarrow> [copy_from_path])) @ [path])
       (file_changes (into_mut bcs)))"

text \<open>The loop over the two sorted lists; a state \<open>(Some(l), Some(r))\<close> is two lists that start with \<open>l\<close> and \<open>r\<close>.\<close>

function intersect_loop :: "MPath list \<Rightarrow> MPath list \<Rightarrow> PushrebaseConflict list" where
  "intersect_loop [] rs = []"
| "intersect_loop (l # ls) [] = []"
| "intersect_loop (l # ls) (r # rs) =
     (if l = r then \<lparr>left = l, right = r\<rparr> # intersect_loop ls rs
      else if l < r then (if is_prefix_of l (elements r) then [\<lparr>left = l, right = r\<rparr>] else []) @ intersect_loop ls (r # rs)
      else (if is_prefix_of r (elements l) then [\<lparr>left = l, right = r\<rparr>] else []) @ intersect_loop (l # ls) rs)"
  by pat_completeness auto
termination by (relation "measure (\<lambda>(ls, rs). length ls + length rs)") auto

definition intersect_changed_files :: "MPath list \<Rightarrow> MPath list \<Rightarrow> PushrebaseConflict list + unit" where
  "intersect_changed_files left_files right_files =
     (let conflicts = intersect_loop (sort left_files) (sort right_files)
      in if conflicts = [] then Inr () else Inl conflicts)"

text \<open>Two paths are in conflict when one is the other or a directory of the other.\<close>

definition in_conflict :: "MPath \<Rightarrow> MPath \<Rightarrow> bool" where
  "in_conflict l r \<longleftrightarrow> prefix (elements l) (elements r) \<or> prefix (elements r) (elements l)"

lemma prefix_le: "prefix xs ys \<Longrightarrow> xs \<le> (ys :: 'a::linorder list)"
proof (induction xs arbitrary: ys)
  case (Cons x xs)
  then show ?case by (cases ys) auto
qed simp

lemma intersect_loop_sound:
  "c \<in> set (intersect_loop ls rs) \<Longrightarrow> left c \<in> set ls \<and> right c \<in> set rs \<and> in_conflict (left c) (right c)"
  by (induction ls rs rule: intersect_loop.induct) (auto simp: in_conflict_def is_prefix_of_iff split: if_splits)

text \<open>The least path of one list meets its first possible conflict in the other list at once, because the paths
  between a directory and a file below it are all below the directory.\<close>

lemma intersect_loop_complete:
  "sorted ls \<Longrightarrow> sorted rs \<Longrightarrow> intersect_loop ls rs = [] \<Longrightarrow> l \<in> set ls \<Longrightarrow> r \<in> set rs \<Longrightarrow> \<not> in_conflict l r"
proof (induction ls rs rule: intersect_loop.induct)
  case (3 a ls b rs)
  have le: "prefix (elements p) (elements q) \<Longrightarrow> p \<le> q" for p q by (simp add: less_eq_MPath_def prefix_le)
  show ?case
  proof (cases a b rule: linorder_cases)
    case less
    then have np: "\<not> prefix (elements a) (elements b)" and rest: "intersect_loop ls (b # rs) = []"
      using "3.prems"(3) by (auto simp: is_prefix_of_iff split: if_splits)
    show ?thesis
    proof (cases "l = a")
      case True
      have "b \<le> r" using "3.prems" by auto
      then have "\<not> prefix (elements a) (elements r)" using prefix_elements_between [of a r b] np less_imp_le [OF less] by blast
      moreover have "\<not> prefix (elements r) (elements a)" using le [of r a] less \<open>b \<le> r\<close> by auto
      ultimately show ?thesis using True by (simp add: in_conflict_def)
    next
      case False
      then show ?thesis using "3.IH"(2) "3.prems" less rest by auto
    qed
  next
    case equal
    then show ?thesis using "3.prems"(3) by simp
  next
    case greater
    then have np: "\<not> prefix (elements b) (elements a)" and rest: "intersect_loop (a # ls) rs = []"
      using "3.prems"(3) by (auto simp: is_prefix_of_iff split: if_splits)
    show ?thesis
    proof (cases "r = b")
      case True
      have "a \<le> l" using "3.prems" by auto
      then have "\<not> prefix (elements b) (elements l)" using prefix_elements_between [of b l a] np less_imp_le [OF greater] by blast
      moreover have "\<not> prefix (elements l) (elements b)" using le [of l b] greater \<open>a \<le> l\<close> by auto
      ultimately show ?thesis using True by (simp add: in_conflict_def)
    next
      case False
      then show ?thesis using "3.IH"(3) "3.prems" greater rest by auto
    qed
  qed
qed simp_all

text \<open>CX: \<open>intersect_changed_files\<close> against its specification. Although it walks once over the two sorted lists and
  compares a path of one only with the next path of the other, it succeeds exactly when no path on one side is
  equal to, or a directory of, a path on the other, for lists in any order and with repetitions. Each conflict
  that it reports is between a path on the left and a path on the right that are in conflict.\<close>

theorem intersect_changed_files_correct:
  "(intersect_changed_files ls rs = Inr () \<longleftrightarrow> \<not> (\<exists>l \<in> set ls. \<exists>r \<in> set rs. in_conflict l r)) \<and>
   (\<forall>cs. intersect_changed_files ls rs = Inl cs \<longrightarrow>
      cs \<noteq> [] \<and> (\<forall>c \<in> set cs. left c \<in> set ls \<and> right c \<in> set rs \<and> in_conflict (left c) (right c)))"
proof -
  have sound: "left c \<in> set ls \<and> right c \<in> set rs \<and> in_conflict (left c) (right c)"
    if "c \<in> set (intersect_loop (sort ls) (sort rs))" for c using intersect_loop_sound [OF that] by simp
  have "intersect_loop (sort ls) (sort rs) = [] \<longleftrightarrow> \<not> (\<exists>l \<in> set ls. \<exists>r \<in> set rs. in_conflict l r)"
  proof
    assume "intersect_loop (sort ls) (sort rs) = []"
    from intersect_loop_complete [OF _ _ this] show "\<not> (\<exists>l \<in> set ls. \<exists>r \<in> set rs. in_conflict l r)" by simp
  next
    assume "\<not> (\<exists>l \<in> set ls. \<exists>r \<in> set rs. in_conflict l r)"
    with sound show "intersect_loop (sort ls) (sort rs) = []" by (cases "intersect_loop (sort ls) (sort rs)") auto
  qed
  then show ?thesis using sound by (auto simp: intersect_changed_files_def Let_def)
qed

theorem intersect_changed_files_correct_witness:
  "\<exists>cs. intersect_changed_files [MPath [MPathElement [98]], MPath [MPathElement [97], MPathElement [99]]] [MPath [MPathElement [97]]] = Inl cs \<and>
     (\<forall>c \<in> set cs. right c = MPath [MPathElement [97]])"
  using intersect_changed_files_correct [of "[MPath [MPathElement [98]], MPath [MPathElement [97], MPathElement [99]]]" "[MPath [MPathElement [97]]]"]
  by (cases "intersect_changed_files [MPath [MPathElement [98]], MPath [MPathElement [97], MPathElement [99]]] [MPath [MPathElement [97]]]")
    (simp_all add: in_conflict_def)

section \<open>Rebasing a changeset\<close>

type_synonym remapping = "(ChangesetId \<times> ChangesetId \<times> Timestamp) list"

definition remap :: "remapping \<Rightarrow> ChangesetId \<Rightarrow> ChangesetId" where
  "remap remapping p = (case map_of remapping p of Some (cs, _) \<Rightarrow> cs | None \<Rightarrow> p)"

definition mutation_keys :: "bytes list" where
  "mutation_keys = map ascii [''mutpred'', ''mutuser'', ''mutdate'', ''mutop'', ''mutsplit'']"

definition remap_copy :: "remapping \<Rightarrow> FileChange \<Rightarrow> FileChange" where
  "remap_copy remapping file_change =
     \<lparr>content_id = content_id file_change, file_type = file_type file_change, fc_size = fc_size file_change,
      copy_from = map_option (\<lambda>(path, cs). (path, remap remapping cs)) (copy_from file_change)\<rparr>"

definition rebased_date :: "chrono \<Rightarrow> DateTime \<Rightarrow> Timestamp option \<Rightarrow> error_kind + DateTime" where
  "rebased_date ch date timestamp =
     (case timestamp of
        Some timestamp \<Rightarrow> from_timestamp ch (timestamp_seconds timestamp) (tz_offset_secs date)
      | None \<Rightarrow> Inr date)"

definition rebase_changeset :: "chrono \<Rightarrow> BonsaiChangeset \<Rightarrow> remapping \<Rightarrow> Timestamp option \<Rightarrow> error_kind + BonsaiChangeset" where
  "rebase_changeset ch bonsai remapping timestamp =
     (let bcs = into_mut bonsai
      in and_then (rebased_date ch (author_date bcs) timestamp) (\<lambda>newdate.
           freeze (bcs\<lparr>parents := map (remap remapping) (parents bcs), author_date := newdate,
             extra := fold btm_remove mutation_keys (extra bcs),
             file_changes := map (\<lambda>(path, file_change_opt). (path, map_option (remap_copy remapping) file_change_opt)) (file_changes bcs)\<rparr>)))"

text \<open>A changeset that the repository may hold.\<close>

definition bonsai_wf :: "chrono \<Rightarrow> BonsaiChangeset \<Rightarrow> bool" where
  "bonsai_wf ch b \<longleftrightarrow> bonsai_mut_ok ch (into_mut b) \<and> bonsai_consistent (into_mut b) \<and> whole_second_dates (into_mut b)"

lemma remap_ok: "\<forall>(i, j, t) \<in> set m. cs_ok j \<Longrightarrow> cs_ok c \<Longrightarrow> cs_ok (remap m c)"
  by (auto simp: remap_def dest!: map_of_SomeD split: option.splits)

lemma rebased_date_ok:
  assumes "date_ok ch d"
  shows "case rebased_date ch d ts of
      Inl e \<Rightarrow> \<exists>t. ts = Some t \<and> \<not> secs_in_range ch (timestamp_seconds t)
    | Inr d' \<Rightarrow> date_ok ch d' \<and> d' = (case ts of None \<Rightarrow> d | Some t \<Rightarrow> DateTime (timestamp_seconds t) 0 (tz_offset_secs d))"
  using assms by (auto simp: rebased_date_def from_timestamp_def date_ok_def split: option.splits)

lemma rebased_files:
  fixes fcs :: "(MPath, FileChange option) btree_map"
  shows "map fst (map (\<lambda>(p, c). (p, map_option (remap_copy m) c)) fcs) = map fst fcs"
    "map (\<lambda>(p, c). (p, c \<noteq> None)) (map (\<lambda>(p, c). (p, map_option (remap_copy m) c)) fcs) = map (\<lambda>(p, c). (p, c \<noteq> None)) fcs"
  by (auto simp: case_prod_unfold)

lemma rebased_wf:
  assumes b: "bonsai_wf ch b" and m: "\<forall>(i, j, t) \<in> set m. cs_ok j" and d: "date_ok ch d" "whole_seconds d"
  shows "bonsai_wf ch (BonsaiChangeset ((into_mut b)\<lparr>parents := map (remap m) (parents (into_mut b)), author_date := d, extra := e,
      file_changes := map (\<lambda>(p, c). (p, map_option (remap_copy m) c)) (file_changes (into_mut b))\<rparr>))"
proof -
  have copy: "file_change_ok fc \<Longrightarrow> file_change_ok (remap_copy m fc)" for fc
    using remap_ok [OF m] by (auto simp: file_change_ok_def remap_copy_def)
  let ?b = "into_mut b" and ?fcs = "map (\<lambda>(p, c). (p, map_option (remap_copy m) c)) (file_changes (into_mut b))"
  have ok: "\<forall>p \<in> set (parents ?b). cs_ok p" "btm_ok (file_changes ?b)" "\<forall>d. committer_date ?b = Some d \<longrightarrow> date_ok ch d"
    "\<forall>(p, c) \<in> set (file_changes ?b). valid_mpath p \<and> (\<forall>fc. c = Some fc \<longrightarrow> file_change_ok fc)"
    "\<forall>(p, c) \<in> set (file_changes ?b). \<forall>fc q cs. c = Some fc \<longrightarrow> copy_from fc = Some (q, cs) \<longrightarrow> cs \<in> set (parents ?b)"
    using b by (simp_all add: bonsai_wf_def bonsai_mut_ok_def bonsai_consistent_def)
  have files: "valid_mpath p \<and> (\<forall>fc. c = Some fc \<longrightarrow> file_change_ok fc)" if "(p, c) \<in> set ?fcs" for p c
    using that ok(4) copy by auto
  have copies: "cs \<in> remap m ` set (parents ?b)" if fc: "(p, Some fc) \<in> set ?fcs" "copy_from fc = Some (q, cs)" for p fc q cs
  proof -
    obtain fc' where fc': "(p, Some fc') \<in> set (file_changes ?b)" "fc = remap_copy m fc'" using fc(1) by (auto dest!: sym [of "Some fc"])
    then obtain cs' where "copy_from fc' = Some (q, cs')" "cs = remap m cs'" using fc(2) by (auto simp: remap_copy_def)
    then show ?thesis using ok(5) fc'(1) by blast
  qed
  have ps: "cs_ok p" if "p \<in> set (map (remap m) (parents ?b))" for p using that ok(1) remap_ok [OF m] by auto
  have pcf: "path_conflict_free (map (\<lambda>(p, c). (p, c \<noteq> None)) ?fcs)"
    unfolding rebased_files using b by (simp add: bonsai_wf_def bonsai_consistent_def)
  have keys: "btm_ok ?fcs" unfolding rebased_files by (rule ok(2))
  show ?thesis unfolding bonsai_wf_def
  proof (intro conjI)
    show "bonsai_mut_ok ch (into_mut (BonsaiChangeset (?b\<lparr>parents := map (remap m) (parents ?b), author_date := d, extra := e, file_changes := ?fcs\<rparr>)))"
      using ps ok(3) files keys d unfolding bonsai_mut_ok_def by (auto simp del: map_map set_map)
    show "bonsai_consistent (into_mut (BonsaiChangeset (?b\<lparr>parents := map (remap m) (parents ?b), author_date := d, extra := e, file_changes := ?fcs\<rparr>)))"
      using pcf copies unfolding bonsai_consistent_def by (auto simp del: map_map set_map simp: set_map [of "remap m"])
    show "whole_second_dates (into_mut (BonsaiChangeset (?b\<lparr>parents := map (remap m) (parents ?b), author_date := d, extra := e, file_changes := ?fcs\<rparr>)))"
      using b d by (simp add: bonsai_wf_def whole_second_dates_def)
  qed
qed

lemma map_of_removed: "btm_ok m \<Longrightarrow> map_of (fold btm_remove ks m) k = (if k \<in> set ks then None else map_of m k)"
  by (induction ks arbitrary: m) (auto simp: btree_simps)

lemma rebase_changeset_cases:
  assumes b: "bonsai_wf ch b" and m: "\<forall>(i, j, t) \<in> set m. cs_ok j"
  shows "case rebase_changeset ch b m ts of
      Inl e \<Rightarrow> \<exists>t. ts = Some t \<and> \<not> secs_in_range ch (timestamp_seconds t)
    | Inr b' \<Rightarrow> bonsai_wf ch b' \<and>
        into_mut b' = (into_mut b)\<lparr>parents := map (remap m) (parents (into_mut b)),
          author_date := (case ts of None \<Rightarrow> author_date (into_mut b)
            | Some t \<Rightarrow> DateTime (timestamp_seconds t) 0 (tz_offset_secs (author_date (into_mut b)))),
          extra := fold btm_remove mutation_keys (extra (into_mut b)),
          file_changes := map (\<lambda>(p, c). (p, map_option (remap_copy m) c)) (file_changes (into_mut b))\<rparr>"
proof -
  have d: "date_ok ch (author_date (into_mut b))" "whole_seconds (author_date (into_mut b))"
    using b by (simp_all add: bonsai_wf_def bonsai_mut_ok_def whole_second_dates_def)
  show ?thesis
  proof (cases "rebased_date ch (author_date (into_mut b)) ts")
    case (Inl e)
    then show ?thesis using rebased_date_ok [OF d(1), of ts] by (simp add: rebase_changeset_def Let_def)
  next
    case (Inr d')
    then have d': "date_ok ch d'" "d' = (case ts of None \<Rightarrow> author_date (into_mut b)
        | Some t \<Rightarrow> DateTime (timestamp_seconds t) 0 (tz_offset_secs (author_date (into_mut b))))"
      using rebased_date_ok [OF d(1), of ts] by auto
    then have "whole_seconds d'" using d(2) by (auto simp: whole_seconds_def split: option.splits)
    note wf = rebased_wf [OF b m d'(1) this, of "fold btm_remove mutation_keys (extra (into_mut b))"]
    then have "freeze ((into_mut b)\<lparr>parents := map (remap m) (parents (into_mut b)), author_date := d',
        extra := fold btm_remove mutation_keys (extra (into_mut b)),
        file_changes := map (\<lambda>(p, c). (p, map_option (remap_copy m) c)) (file_changes (into_mut b))\<rparr>) =
      Inr (BonsaiChangeset ((into_mut b)\<lparr>parents := map (remap m) (parents (into_mut b)), author_date := d',
        extra := fold btm_remove mutation_keys (extra (into_mut b)),
        file_changes := map (\<lambda>(p, c). (p, map_option (remap_copy m) c)) (file_changes (into_mut b))\<rparr>))"
      by (subst freeze_iff) (simp_all add: bonsai_wf_def bonsai_mut_ok_def)
    then show ?thesis using Inr wf d'(2) by (simp add: rebase_changeset_def Let_def)
  qed
qed

text \<open>CX: rebasing a well-formed changeset. It fails only when the new date is out of range: \<open>freeze\<close> never
  refuses the result, because parents and copy sources are replaced alike. The result is well-formed again;
  its parents are the remapped parents in the same order, each file keeps its contents and type and has its
  copy source moved to the new parent, the mutation keys are gone from the extras and nothing else is, and
  author, message and committer stay.\<close>

theorem rebase_changeset_correct:
  assumes "bonsai_wf ch b" "\<forall>(i, j, t) \<in> set m. cs_ok j" "btm_ok (extra (into_mut b))"
  shows "case rebase_changeset ch b m ts of
      Inl e \<Rightarrow> \<exists>t. ts = Some t \<and> \<not> secs_in_range ch (timestamp_seconds t)
    | Inr b' \<Rightarrow> bonsai_wf ch b' \<and> parents (into_mut b') = map (remap m) (parents (into_mut b)) \<and>
        author (into_mut b') = author (into_mut b) \<and> message (into_mut b') = message (into_mut b) \<and>
        committer (into_mut b') = committer (into_mut b) \<and> committer_date (into_mut b') = committer_date (into_mut b) \<and>
        (ts = None \<longrightarrow> author_date (into_mut b') = author_date (into_mut b)) \<and>
        (\<forall>k. map_of (extra (into_mut b')) k = (if k \<in> set mutation_keys then None else map_of (extra (into_mut b)) k)) \<and>
        (\<forall>p. map_of (file_changes (into_mut b')) p = map_option (map_option (remap_copy m)) (map_of (file_changes (into_mut b)) p))"
proof -
  have files: "map_of (map (\<lambda>(p, c). (p, map_option (remap_copy m) c)) fcs) p = map_option (map_option (remap_copy m)) (map_of fcs p)"
    for fcs :: "(MPath, FileChange option) btree_map" and p by (simp add: map_of_map)
  show ?thesis using rebase_changeset_cases [OF assms(1,2), of ts] assms(3)
    by (auto simp: files map_of_removed split: sum.splits)
qed

theorem rebase_changeset_correct_witness:
  "\<exists>b'. rebase_changeset \<lparr>offset_in_range = \<lambda>_. True, secs_in_range = \<lambda>_. True\<rparr>
     (BonsaiChangeset \<lparr>parents = [ChangesetId (Blake2 (replicate 32 1))], author = [], author_date = DateTime 0 0 0, committer = None,
        committer_date = None, message = [], extra = [(ascii ''mutop'', [1])], file_changes = []\<rparr>)
     [(ChangesetId (Blake2 (replicate 32 1)), ChangesetId (Blake2 (replicate 32 2)), Timestamp 0)] None = Inr b' \<and>
     parents (into_mut b') = [ChangesetId (Blake2 (replicate 32 2))] \<and> map_of (extra (into_mut b')) (ascii ''mutop'') = None"
proof -
  let ?ch = "\<lparr>offset_in_range = \<lambda>_. True, secs_in_range = \<lambda>_. True\<rparr>"
  let ?b = "BonsaiChangeset \<lparr>parents = [ChangesetId (Blake2 (replicate 32 1))], author = [], author_date = DateTime 0 0 0, committer = None,
        committer_date = None, message = [], extra = [(ascii ''mutop'', [1])], file_changes = []\<rparr>"
  let ?m = "[(ChangesetId (Blake2 (replicate 32 1)), ChangesetId (Blake2 (replicate 32 2)), Timestamp 0)]"
  have wf: "bonsai_wf ?ch ?b" "\<forall>(i, j, t) \<in> set ?m. cs_ok j" "btm_ok (extra (into_mut ?b))"
    by (simp_all add: bonsai_wf_def bonsai_mut_ok_def bonsai_consistent_def whole_second_dates_def date_ok_def whole_seconds_def
        path_conflict_free_def blake2_ok_def)
  from rebase_changeset_correct [OF wf, of None]
  show ?thesis by (cases "rebase_changeset ?ch ?b ?m None") (simp_all add: remap_def mutation_keys_def)
qed

end
