(* ===== verification/Pushrebase_Ops.thy ===== *)
theory Pushrebase_Ops
  imports Blob_Repo Pushrebase_Files
begin

text \<open>
  Pushrebase, \<open>src/bundle2_resolver/pushrebase/src/lib.rs\<close>: the commits that a client has pushed are
  rebased onto a bookmark on the server, which then moves to the new head. Other clients move bookmarks
  and add changesets meanwhile; the bookmark is moved by compare and swap and the rebase is tried again
  when the bookmark has moved.

  The steps of the other clients in each attempt are an argument: a change of the repository before the
  bookmark is read and one before the transaction is committed. What they do at other times is part of
  these two steps, because everything else that is read never changes once it is written. The clock, the
  orders of hash maps, the delays of futures, and the operations on Mercurial data (the Mercurial hash of
  a changeset and the difference of two manifests) are arguments too.
\<close>

section \<open>Loops and streams\<close>

text \<open>\<open>loop_fn\<close> of the futures library, and a stream that is collected.\<close>

datatype ('a, 's) Loop = Break 'a | Continue 's

partial_function (option) loop_fn :: "('s \<Rightarrow> ('w, 'e, ('a, 's) Loop) op) \<Rightarrow> 's \<Rightarrow> 'w \<Rightarrow> (('e + 'a) \<times> 'w) option" where
  [code]: "loop_fn func s w =
     Option.bind (func s w) (\<lambda>(r, w'). case r of
         Inl e \<Rightarrow> Some (Inl e, w')
       | Inr l \<Rightarrow> (case l of Break a \<Rightarrow> Some (Inr a, w') | Continue s' \<Rightarrow> loop_fn func s' w'))"

partial_function (option) collect_stream :: "('s \<Rightarrow> ('a, 'e) poll option \<times> 's) \<Rightarrow> 's \<Rightarrow> ('e + 'a list) option" where
  [code]: "collect_stream it s =
     (case it s of (r, s') \<Rightarrow>
        (case r of
           None \<Rightarrow> collect_stream it s'
         | Some p \<Rightarrow>
             (case p of
                NotReady \<Rightarrow> collect_stream it s'
              | Failed e \<Rightarrow> Some (Inl e)
              | Ready x \<Rightarrow> (case x of
                    None \<Rightarrow> Some (Inr [])
                  | Some y \<Rightarrow> Option.bind (collect_stream it s') (\<lambda>ys. Some (map_ok ((#) y) ys))))))"

definition op_err :: "('e \<Rightarrow> 'f) \<Rightarrow> ('w, 'e, 'a) op \<Rightarrow> ('w, 'f, 'a) op" where
  "op_err f m w = map_option (\<lambda>(r, w'). (map_err f r, w')) (m w)"

section \<open>Errors and parameters\<close>

datatype ErrorKind =
    BonsaiNotFoundForHgChangeset bytes
  | PushrebaseBookmarkNotFound string
  | PushrebaseTooManyHeads
  | PushrebaseNoCommonRoot string "ChangesetId set"
  | RootNotFound ChangesetId
  | NoRoots
  | TooManyRebaseAttempts

datatype PushrebaseError =
    Conflicts "PushrebaseConflict list"
  | PotentialCaseConflict MPath
  | RebaseOverMerge
  | RootTooFarBehind
  | PushrebaseKind ErrorKind
  | PushrebaseRepo repo_error
  | PushrebasePanic string

type_synonym ('s, 'a) push_op = "('s repo_state, PushrebaseError, 'a) op"

record PushrebaseSuccessResult =
  pr_head :: ChangesetId
  retry_num :: nat
  rebased_changesets :: "ChangesetId list"

record OntoBookmarkParams =
  bookmark :: string
  create_if_not_exists :: bool

record PushrebaseParams =
  rewritedates :: bool
  recursion_limit :: nat

record 's services =
  sv_start :: "(nat, ChangesetId revset_error) input \<Rightarrow> (nat, ChangesetId revset_error) input"
  sv_edges :: "ChangesetId edge_delays"
  sv_ids :: "ChangesetId set \<Rightarrow> ChangesetId list"
  sv_nodes :: "ChangesetId HashGen set \<Rightarrow> ChangesetId HashGen list"
  sv_by_id :: "(ChangesetId \<times> BonsaiChangeset) list \<Rightarrow> (ChangesetId \<times> BonsaiChangeset) list"
  sv_remapping :: "remapping \<Rightarrow> remapping"
  sv_moves :: "ChangesetId move list \<Rightarrow> ChangesetId move list"
  sv_lower :: "bytes \<Rightarrow> bytes option"
  sv_to_json :: "commit_timestamps \<Rightarrow> string option"
  get_hg_from_bonsai_changeset :: "ChangesetId \<Rightarrow> ('s repo_state, bytes) repo_op"
  get_bonsai_from_hg :: "bytes \<Rightarrow> ('s repo_state, ChangesetId option) repo_op"
  find_changed_files_between_manifests :: "ChangesetId \<Rightarrow> ChangesetId \<Rightarrow> ('s repo_state, MPath list) repo_op"

text \<open>What happens around one attempt: the steps of other clients and the readings of the clock.\<close>

record 's surroundings =
  before_read :: "'s repo_state \<Rightarrow> 's repo_state"
  before_commit :: "'s repo_state \<Rightarrow> 's repo_state"
  clock :: Timestamp
  commit_clock :: Timestamp

definition meanwhile :: "('s repo_state \<Rightarrow> 's repo_state) \<Rightarrow> ('s, unit) push_op" where
  "meanwhile others w = Some (Inr (), others w)"

definition MAX_REBASE_ATTEMPTS :: nat where
  "MAX_REBASE_ATTEMPTS = 100"

section \<open>The pushed set\<close>

definition fetch_bonsai_changesets :: "'s services \<Rightarrow> 's BlobRepo \<Rightarrow> bytes list \<Rightarrow> ('s, BonsaiChangeset list) push_op" where
  "fetch_bonsai_changesets S R commit_ids =
     op_all (\<lambda>hg_cs. op_then (op_err PushrebaseRepo (get_bonsai_from_hg S hg_cs)) (\<lambda>bcs_cs.
       case bcs_cs of
         None \<Rightarrow> op_of (Inl (PushrebaseKind (BonsaiNotFoundForHgChangeset hg_cs)))
       | Some bcs_id \<Rightarrow> op_err PushrebaseRepo (get_bonsai_changeset R bcs_id))) commit_ids"

definition find_only_head_or_fail :: "'s BlobRepo \<Rightarrow> BonsaiChangeset list \<Rightarrow> PushrebaseError + ChangesetId" where
  "find_only_head_or_fail R commits =
     (let commits_set = remdups (map (bonsai_id R) commits);
          left = fold (\<lambda>commit s. fold removeAll (parents (into_mut commit)) s) commits commits_set
      in case left of [h] \<Rightarrow> Inr h | _ \<Rightarrow> Inl (PushrebaseKind PushrebaseTooManyHeads))"

definition find_roots :: "'s BlobRepo \<Rightarrow> BonsaiChangeset list \<Rightarrow> ChangesetId list" where
  "find_roots R commits =
     concat (map (\<lambda>commit. filter (\<lambda>p. p \<notin> set (map (bonsai_id R) commits)) (parents (into_mut commit))) commits)"

section \<open>The closest root\<close>

definition get_bookmark_value :: "'s BlobRepo \<Rightarrow> string \<Rightarrow> ('s, ChangesetId option) push_op" where
  "get_bookmark_value R bookmark_name = op_err PushrebaseRepo (get_bonsai_bookmark R bookmark_name)"

definition closest_ancestor_step ::
    "'s BlobRepo \<Rightarrow> PushrebaseParams \<Rightarrow> string \<Rightarrow> ChangesetId set \<Rightarrow> ChangesetId list \<times> nat
      \<Rightarrow> ('s, (ChangesetId, ChangesetId list \<times> nat) Loop) push_op" where
  "closest_ancestor_step R config bookmark_name roots = (\<lambda>(queue, depth).
     if recursion_limit config \<le> depth then op_of (Inl RootTooFarBehind)
     else case queue of
       [] \<Rightarrow> op_of (Inl (PushrebaseKind (PushrebaseNoCommonRoot bookmark_name roots)))
     | cs_id # queue' \<Rightarrow>
         if cs_id \<in> roots then op_ok (Break cs_id)
         else op_then (op_err PushrebaseRepo (get_changeset_parents_by_bonsai R cs_id)) (\<lambda>ps.
           case ps of
             [] \<Rightarrow> op_ok (Continue (queue', depth + 1))
           | [parent] \<Rightarrow> op_ok (Continue (queue' @ [parent], depth + 1))
           | _ \<Rightarrow> op_of (Inl RebaseOverMerge)))"

definition find_closest_ancestor_root ::
    "'s BlobRepo \<Rightarrow> PushrebaseParams \<Rightarrow> string \<Rightarrow> ChangesetId set \<Rightarrow> ChangesetId \<Rightarrow> ('s, ChangesetId) push_op" where
  "find_closest_ancestor_root R config bookmark_name roots onto_bookmark_cs_id =
     loop_fn (closest_ancestor_step R config bookmark_name roots) ([onto_bookmark_cs_id], 0)"

text \<open>\<open>max_by_key\<close> gives the last of several maximal elements.\<close>

definition max_by_generation :: "(ChangesetId \<times> nat) list \<Rightarrow> (ChangesetId \<times> nat) option" where
  "max_by_generation xs =
     fold (\<lambda>x best. case best of None \<Rightarrow> Some x | Some b \<Rightarrow> if snd b \<le> snd x then Some x else Some b) xs None"

definition find_closest_root ::
    "'s services \<Rightarrow> 's BlobRepo \<Rightarrow> PushrebaseParams \<Rightarrow> OntoBookmarkParams \<Rightarrow> ChangesetId list \<Rightarrow> ('s, ChangesetId) push_op" where
  "find_closest_root S R config onto roots =
     op_then (get_bookmark_value R (bookmark onto)) (\<lambda>maybe_id.
       case maybe_id of
         Some cs_id \<Rightarrow> find_closest_ancestor_root R config (bookmark onto) (set roots) cs_id
       | None \<Rightarrow>
           if create_if_not_exists onto
           then op_then (op_all (\<lambda>root. op_then (op_err PushrebaseRepo (get_generation_number_by_bonsai R root)) (\<lambda>maybe_gen_num.
                    case maybe_gen_num of
                      None \<Rightarrow> op_of (Inl (PushrebaseKind (RootNotFound root)))
                    | Some gen_num \<Rightarrow> op_ok (root, gen_num))) (sv_ids S (set roots)))
                  (\<lambda>roots_with_gen_nums. case max_by_generation roots_with_gen_nums of
                      None \<Rightarrow> op_of (Inl (PushrebaseKind NoRoots))
                    | Some (cs_id, _) \<Rightarrow> op_ok cs_id)
           else op_of (Inl (PushrebaseKind (PushrebaseBookmarkNotFound (bookmark onto)))))"

section \<open>Ranges and changed files\<close>

definition range_ids :: "'s services \<Rightarrow> 's BlobRepo \<Rightarrow> ChangesetId \<Rightarrow> ChangesetId \<Rightarrow> ('s, ChangesetId list) push_op" where
  "range_ids S R ancestor descendant w =
     map_option (\<lambda>r. (map_err (\<lambda>e. PushrebaseRepo (RevsetError e)) r, w))
       (collect_stream (range_iter (repo_fetcher R w) (sv_edges S) (sv_ids S) (sv_nodes S))
         (range_new (repo_fetcher R w) (sv_start S) (sv_edges S) ancestor descendant))"

definition fetch_bonsai_range ::
    "'s services \<Rightarrow> 's BlobRepo \<Rightarrow> ChangesetId \<Rightarrow> ChangesetId \<Rightarrow> ('s, BonsaiChangeset list) push_op" where
  "fetch_bonsai_range S R ancestor descendant =
     op_then (range_ids S R ancestor descendant) (op_all (\<lambda>id. op_err PushrebaseRepo (get_bonsai_changeset R id)))"

text \<open>The future of the changed files of one changeset of the range; the left side is a panic.\<close>

definition file_changes_fut ::
    "'s services \<Rightarrow> bool \<Rightarrow> ChangesetId set \<Rightarrow> ChangesetId \<times> BonsaiChangeset \<Rightarrow> string + ('s, MPath list) push_op" where
  "file_changes_fut S reject_merges ids = (\<lambda>(id, bcs).
     case parents (into_mut bcs) of
       [] \<Rightarrow> Inr (op_ok (extract_conflict_files_from_bonsai_changeset bcs))
     | [_] \<Rightarrow> Inr (op_ok (extract_conflict_files_from_bonsai_changeset bcs))
     | [p0_id, p1_id] \<Rightarrow>
         if reject_merges then Inr (op_of (Inl RebaseOverMerge))
         else if p0_id \<in> ids \<and> p1_id \<in> ids then Inr (op_ok (extract_conflict_files_from_bonsai_changeset bcs))
         else if p0_id \<in> ids then Inr (op_err PushrebaseRepo (find_changed_files_between_manifests S id p0_id))
         else if p1_id \<in> ids then Inr (op_err PushrebaseRepo (find_changed_files_between_manifests S id p1_id))
         else Inl ''`RangeNodeStream` produced invalid result''
     | _ \<Rightarrow> Inl ''pushrebase supports only two parents'')"

definition find_changed_files ::
    "'s services \<Rightarrow> 's BlobRepo \<Rightarrow> ChangesetId \<Rightarrow> ChangesetId \<Rightarrow> bool \<Rightarrow> ('s, MPath list) push_op" where
  "find_changed_files S R ancestor descendant reject_merges =
     op_then (op_then (range_ids S R ancestor descendant)
         (op_all (\<lambda>bcs_id. op_then (op_err PushrebaseRepo (get_bonsai_changeset R bcs_id)) (\<lambda>bcs. op_ok (bcs_id, bcs))))) (\<lambda>id_to_bcs.
       case collect_ok (file_changes_fut S reject_merges (set (map fst id_to_bcs))) (filter (\<lambda>(id, _). id \<noteq> ancestor) id_to_bcs) of
         Inl panicked \<Rightarrow> op_of (Inl (PushrebasePanic panicked))
       | Inr futs \<Rightarrow> op_then (op_all (\<lambda>fut. fut) futs) (\<lambda>file_changes. op_ok (sorted_list_of_set (set (concat file_changes)))))"

section \<open>Rebasing\<close>

definition get_onto_bookmark_value :: "'s BlobRepo \<Rightarrow> OntoBookmarkParams \<Rightarrow> ('s, ChangesetId option) push_op" where
  "get_onto_bookmark_value R onto =
     op_then (get_bookmark_value R (bookmark onto)) (\<lambda>maybe_bookmark_value.
       case maybe_bookmark_value of
         Some bookmark_value \<Rightarrow> op_ok (Some bookmark_value)
       | None \<Rightarrow> if create_if_not_exists onto then op_ok None
                 else op_of (Inl (PushrebaseKind (PushrebaseBookmarkNotFound (bookmark onto)))))"

definition find_rebased_set :: "'s services \<Rightarrow> 's BlobRepo \<Rightarrow> ChangesetId \<Rightarrow> ChangesetId \<Rightarrow> ('s, BonsaiChangeset list) push_op" where
  "find_rebased_set S R root head =
     op_then (op_then (range_ids S R root head) (op_all (\<lambda>bcs_id. op_err PushrebaseRepo (get_bonsai_changeset R bcs_id))))
       (\<lambda>nodes. op_ok (rev (filter (\<lambda>node. bonsai_id R node \<noteq> root) nodes)))"

text \<open>The loop over the rebased set.\<close>

fun rebase_all ::
    "'s BlobRepo \<Rightarrow> Timestamp option \<Rightarrow> BonsaiChangeset list \<Rightarrow> remapping \<times> BonsaiChangeset list
      \<Rightarrow> error_kind + remapping \<times> BonsaiChangeset list" where
  "rebase_all R date [] st = Inr st"
| "rebase_all R date (bcs_old # bcss) (remapping, rebased) =
     and_then (rebase_changeset (codec_chrono (repo_codec R)) bcs_old remapping date) (\<lambda>bcs_new.
       rebase_all R date bcss
         (hm_insert (bonsai_id R bcs_old) (bonsai_id R bcs_new, Timestamp_from_DateTime (author_date (into_mut bcs_new))) remapping,
          rebased @ [bcs_new]))"

definition create_rebased_changesets ::
    "'s services \<Rightarrow> 's BlobRepo \<Rightarrow> Timestamp \<Rightarrow> PushrebaseParams \<Rightarrow> ChangesetId \<Rightarrow> ChangesetId \<Rightarrow> ChangesetId
      \<Rightarrow> ('s, ChangesetId \<times> remapping) push_op" where
  "create_rebased_changesets S R now config root head onto =
     op_then (find_rebased_set S R root head) (\<lambda>rebased_set.
       case rebase_all R (if rewritedates config then Some now else None) rebased_set ([(root, onto, now)], []) of
         Inl e \<Rightarrow> op_of (Inl (PushrebaseRepo (TypesError e)))
       | Inr (remapping, rebased) \<Rightarrow>
           op_then (op_err PushrebaseRepo (save_bonsai_changesets R (sv_ids S) (sv_by_id S) rebased)) (\<lambda>_.
             op_ok (remap remapping head, filter (\<lambda>(id_old, _). id_old \<noteq> root) remapping)))"

definition create_bookmark_update_reason ::
    "'s services \<Rightarrow> string option \<Rightarrow> remapping \<Rightarrow> ('s, BookmarkUpdateReason) push_op" where
  "create_bookmark_update_reason S maybe_raw_bundle2_id rebased =
     (case maybe_raw_bundle2_id of
        Some bundle_id \<Rightarrow>
          op_then (op_all (\<lambda>(id_old, _, timestamp).
              op_then (op_err PushrebaseRepo (get_hg_from_bonsai_changeset S id_old)) (\<lambda>hg_cs_id. op_ok (hg_cs_id, timestamp)))
            (sv_remapping S rebased)) (\<lambda>timestamps.
          op_ok (Pushrebase (Some (with_timestamps (BundleReplayData_new bundle_id) (fold (\<lambda>(k, v). hm_insert k v) timestamps [])))))
      | None \<Rightarrow> op_ok (Pushrebase None))"

definition commit_transaction ::
    "'s services \<Rightarrow> Timestamp \<Rightarrow> ChangesetId SqlBookmarksTransaction \<Rightarrow> ('s, bool) push_op" where
  "commit_transaction S now txn w =
     (case commit (sv_to_json S) (sv_moves S) now txn (rs_bookmarks w) of
        (r, db) \<Rightarrow> Some (map_err (\<lambda>e. PushrebaseRepo (BookmarksError e)) r, w\<lparr>rs_bookmarks := db\<rparr>))"

definition commit_and_report ::
    "'s services \<Rightarrow> 's surroundings \<Rightarrow> bookmarks_error + ChangesetId SqlBookmarksTransaction \<Rightarrow> ChangesetId \<Rightarrow> remapping
      \<Rightarrow> ('s, (ChangesetId \<times> ChangesetId list) option) push_op" where
  "commit_and_report S sur txn new_value rebased =
     op_then (op_of (map_err (\<lambda>e. PushrebaseRepo (BookmarksError e)) txn)) (\<lambda>txn.
     op_then (meanwhile (before_commit sur)) (\<lambda>_.
     op_then (commit_transaction S (commit_clock sur) txn) (\<lambda>success.
     op_ok (if success then Some (new_value, map (\<lambda>(_, cs_id, _). cs_id) (sv_remapping S rebased)) else None))))"

definition try_update_bookmark ::
    "'s services \<Rightarrow> 's BlobRepo \<Rightarrow> 's surroundings \<Rightarrow> string \<Rightarrow> ChangesetId \<Rightarrow> ChangesetId \<Rightarrow> string option \<Rightarrow> remapping
      \<Rightarrow> ('s, (ChangesetId \<times> ChangesetId list) option) push_op" where
  "try_update_bookmark S R sur bookmark_name old_value new_value maybe_raw_bundle2_id rebased =
     op_then (create_bookmark_update_reason S maybe_raw_bundle2_id rebased) (\<lambda>reason.
       commit_and_report S sur (tx_update (update_bookmark_transaction R) bookmark_name new_value old_value reason) new_value rebased)"

definition try_create_bookmark ::
    "'s services \<Rightarrow> 's BlobRepo \<Rightarrow> 's surroundings \<Rightarrow> string \<Rightarrow> ChangesetId \<Rightarrow> string option \<Rightarrow> remapping
      \<Rightarrow> ('s, (ChangesetId \<times> ChangesetId list) option) push_op" where
  "try_create_bookmark S R sur bookmark_name new_value maybe_raw_bundle2_id rebased =
     op_then (create_bookmark_update_reason S maybe_raw_bundle2_id rebased) (\<lambda>reason.
       commit_and_report S sur (tx_create (update_bookmark_transaction R) bookmark_name new_value reason) new_value rebased)"

definition do_rebase ::
    "'s services \<Rightarrow> 's BlobRepo \<Rightarrow> 's surroundings \<Rightarrow> PushrebaseParams \<Rightarrow> ChangesetId \<Rightarrow> ChangesetId \<Rightarrow> ChangesetId option \<Rightarrow> string
      \<Rightarrow> string option \<Rightarrow> ('s, (ChangesetId \<times> ChangesetId list) option) push_op" where
  "do_rebase S R sur config root head bookmark_val onto_bookmark maybe_raw_bundle2_id =
     op_then (create_rebased_changesets S R (clock sur) config root head (case bookmark_val of Some b \<Rightarrow> b | None \<Rightarrow> root))
       (\<lambda>(new_head, rebased). case bookmark_val of
          Some bookmark_val \<Rightarrow> try_update_bookmark S R sur onto_bookmark bookmark_val new_head maybe_raw_bundle2_id rebased
        | None \<Rightarrow> try_create_bookmark S R sur onto_bookmark new_head maybe_raw_bundle2_id rebased)"

section \<open>The loop\<close>

definition bonsai_case_changes :: "BonsaiChangeset \<Rightarrow> (MPath \<times> bool) list" where
  "bonsai_case_changes bcs = map (\<lambda>(path, change). (path, change \<noteq> None)) (file_changes (into_mut bcs))"

definition check_case ::
    "'s services \<Rightarrow> BonsaiChangeset list \<Rightarrow> BonsaiChangeset list \<Rightarrow> PushrebaseError + unit" where
  "check_case S server_bcs client_bcs =
     (case check_case_conflicts (\<lambda>bcs. changes_apply (sv_lower S) (bonsai_case_changes bcs)) (rev server_bcs @ rev client_bcs) of
        Some path \<Rightarrow> Inl (PotentialCaseConflict path)
      | None \<Rightarrow> Inr ())"

definition rebase_attempt ::
    "'s services \<Rightarrow> 's BlobRepo \<Rightarrow> (nat \<Rightarrow> 's surroundings) \<Rightarrow> PushrebaseParams \<Rightarrow> OntoBookmarkParams \<Rightarrow> ChangesetId \<Rightarrow> ChangesetId
      \<Rightarrow> MPath list \<Rightarrow> BonsaiChangeset list \<Rightarrow> string option \<Rightarrow> ChangesetId \<times> nat
      \<Rightarrow> ('s, (PushrebaseSuccessResult, ChangesetId \<times> nat) Loop) push_op" where
  "rebase_attempt S R surs config onto head root client_cf client_bcs maybe_raw_bundle2_id = (\<lambda>(latest_rebase_attempt, retry).
     op_then (meanwhile (before_read (surs retry))) (\<lambda>_.
     op_then (get_onto_bookmark_value R onto) (\<lambda>bookmark_val.
     let target = (case bookmark_val of Some b \<Rightarrow> b | None \<Rightarrow> root) in
     op_then (fetch_bonsai_range S R latest_rebase_attempt target) (\<lambda>server_bcs.
     op_then (op_of (check_case S server_bcs client_bcs)) (\<lambda>_.
     op_then (find_changed_files S R latest_rebase_attempt target True) (\<lambda>server_cf.
     op_then (op_of (map_err Conflicts (intersect_changed_files server_cf client_cf))) (\<lambda>_.
     op_then (do_rebase S R (surs retry) config root head bookmark_val (bookmark onto) maybe_raw_bundle2_id) (\<lambda>update_res.
       case update_res of
         Some (new_head, changesets) \<Rightarrow>
           op_ok (Break \<lparr>pr_head = new_head, retry_num = retry, rebased_changesets = changesets\<rparr>)
       | None \<Rightarrow>
           if retry < MAX_REBASE_ATTEMPTS then op_ok (Continue (target, retry + 1))
           else op_of (Inl (PushrebaseKind TooManyRebaseAttempts))))))))))"

definition rebase_in_loop ::
    "'s services \<Rightarrow> 's BlobRepo \<Rightarrow> (nat \<Rightarrow> 's surroundings) \<Rightarrow> PushrebaseParams \<Rightarrow> OntoBookmarkParams \<Rightarrow> ChangesetId \<Rightarrow> ChangesetId
      \<Rightarrow> MPath list \<Rightarrow> BonsaiChangeset list \<Rightarrow> string option \<Rightarrow> ('s, PushrebaseSuccessResult) push_op" where
  "rebase_in_loop S R surs config onto head root client_cf client_bcs maybe_raw_bundle2_id =
     loop_fn (rebase_attempt S R surs config onto head root client_cf client_bcs maybe_raw_bundle2_id) (root, 0)"

definition do_pushrebase ::
    "'s services \<Rightarrow> 's BlobRepo \<Rightarrow> (nat \<Rightarrow> 's surroundings) \<Rightarrow> PushrebaseParams \<Rightarrow> OntoBookmarkParams \<Rightarrow> bytes list \<Rightarrow> string option
      \<Rightarrow> ('s, PushrebaseSuccessResult) push_op" where
  "do_pushrebase S R surs config onto pushed_set maybe_raw_bundle2_id =
     op_then (fetch_bonsai_changesets S R pushed_set) (\<lambda>pushed.
     op_then (op_of (find_only_head_or_fail R pushed)) (\<lambda>head.
     op_then (find_closest_root S R config onto (find_roots R pushed)) (\<lambda>root.
     op_then (find_changed_files S R root head False) (\<lambda>client_cf.
     op_then (fetch_bonsai_range S R root head) (\<lambda>client_bcs.
     rebase_in_loop S R surs config onto head root client_cf client_bcs maybe_raw_bundle2_id)))))"

section \<open>Loops and streams return\<close>

lemma loop_fn_ok:
  assumes "wf r" and step: "\<And>s. op_spec (I s) (f s) (\<lambda>l w. case l of Break a \<Rightarrow> Q a w | Continue s' \<Rightarrow> I s' w \<and> (s', s) \<in> r) E"
  shows "op_spec (I s) (loop_fn f s) Q E"
  using assms(1)
proof (induction s rule: wf_induct_rule)
  case (less s)
  show ?case unfolding op_spec_def
  proof (intro allI impI)
    fix w assume "I s w"
    from step this show "\<exists>x w'. loop_fn f s w = Some (x, w') \<and> (case x of Inr a \<Rightarrow> Q a w' | Inl e \<Rightarrow> E e w')"
    proof (rule op_specD)
      fix l w' assume l: "f s w = Some (Inr l, w')" "case l of Break a \<Rightarrow> Q a w' | Continue s' \<Rightarrow> I s' w' \<and> (s', s) \<in> r"
      show ?thesis
      proof (cases l)
        case (Break a)
        then show ?thesis using l by (subst loop_fn.simps) simp
      next
        case (Continue s')
        then have "I s' w'" "(s', s) \<in> r" using l(2) by simp_all
        with less.IH have "\<exists>x w''. loop_fn f s' w' = Some (x, w'') \<and> (case x of Inr a \<Rightarrow> Q a w'' | Inl e \<Rightarrow> E e w'')"
          unfolding op_spec_def by blast
        then show ?thesis using l(1) Continue by (subst loop_fn.simps) simp
      qed
    next
      fix e w' assume "f s w = Some (Inl e, w')" "E e w'"
      then show ?thesis by (subst loop_fn.simps) simp
    qed
  qed
qed

lemma collect_drive: "drive n it s = Some r \<Longrightarrow> collect_stream it s = Some r"
proof (induction n arbitrary: s r)
  case (Suc n)
  obtain p s' where it: "it s = (p, s')" by fastforce
  show ?case using Suc.prems Suc.IH [of s'] it
    by (subst collect_stream.simps) (auto split: option.splits poll.splits)
qed simp

lemma op_spec_err: "op_spec P m Q (\<lambda>e. E (f e)) \<Longrightarrow> op_spec P (op_err f m) Q E"
  unfolding op_spec_def op_err_def by (fastforce split: sum.splits)

section \<open>The closest root is found\<close>

text \<open>The changesets on the line of single parents from a changeset.\<close>

fun first_line :: "'c ChangesetFetcher \<Rightarrow> 'c \<Rightarrow> nat \<Rightarrow> 'c option" where
  "first_line F c 0 = Some c"
| "first_line F c (Suc k) =
     (case first_line F c k of
        Some x \<Rightarrow> (case fetched_parents F x of [p] \<Rightarrow> Some p | _ \<Rightarrow> None)
      | None \<Rightarrow> None)"

lemma first_line_ancestor:
  assumes "c \<in> known_in db repo"
  shows "first_line (sql_fetcher db repo) c k = Some x \<Longrightarrow> x \<in> ancestors (sql_fetcher db repo) c \<and> x \<in> known_in db repo"
proof (induction k arbitrary: x)
  case 0
  then show ?case using assms sqlg.ancestor_step(1) by simp
next
  case (Suc k)
  then obtain y where y: "first_line (sql_fetcher db repo) c k = Some y" "fetched_parents (sql_fetcher db repo) y = [x]"
    by (auto split: option.splits list.splits)
  then have "x \<in> ancestors (sql_fetcher db repo) y" by (auto intro: sqlg.ancestor_step)
  with sqlg.ancestors_trans [of y db repo c x] Suc.IH [OF y(1)] have "x \<in> ancestors (sql_fetcher db repo) c" by blast
  then show ?case using sqlg.ancestor_facts(1) [OF assms] by blast
qed

lemma first_line_None: "first_line F c k = None \<Longrightarrow> k \<le> j \<Longrightarrow> first_line F c j = None"
  by (induction j) (auto simp: le_Suc_eq)

lemma parents_op:
  assumes "c \<in> known_in (rs_changesets w) (repoid R)"
  shows "get_changeset_parents_by_bonsai R c w = Some (Inr (fetched_parents (repo_fetcher R w) c), w)"
  using sqlg.parents_known [OF assms]
  by (auto simp: get_changeset_parents_by_bonsai_def get_changeset_entry_def op_then_def op_ok_def op_of_def simple_fetcher_def
      split: option.splits)

definition closest_inv :: "'s BlobRepo \<Rightarrow> ChangesetId set \<Rightarrow> ChangesetId \<Rightarrow> 's repo_state \<Rightarrow> ChangesetId list \<times> nat \<Rightarrow> bool" where
  "closest_inv R roots c w = (\<lambda>(queue, depth).
     queue = (case first_line (repo_fetcher R w) c depth of None \<Rightarrow> [] | Some x \<Rightarrow> [x]) \<and>
     (\<forall>j < depth. \<forall>x. first_line (repo_fetcher R w) c j = Some x \<longrightarrow> x \<notin> roots))"

definition closest_result ::
    "'s BlobRepo \<Rightarrow> nat \<Rightarrow> string \<Rightarrow> ChangesetId set \<Rightarrow> ChangesetId \<Rightarrow> 's repo_state \<Rightarrow> PushrebaseError + ChangesetId \<Rightarrow> bool" where
  "closest_result R limit name roots c w r =
     (case r of
        Inr root \<Rightarrow> root \<in> roots \<and> root \<in> ancestors (repo_fetcher R w) c \<and>
          (\<exists>k < limit. first_line (repo_fetcher R w) c k = Some root \<and> (\<forall>j < k. \<forall>x. first_line (repo_fetcher R w) c j = Some x \<longrightarrow> x \<notin> roots))
      | Inl e \<Rightarrow>
          e = RootTooFarBehind \<and> (\<forall>k < limit. \<forall>x. first_line (repo_fetcher R w) c k = Some x \<longrightarrow> x \<notin> roots) \<or>
          e = RebaseOverMerge \<and> (\<exists>k < limit. \<exists>x. first_line (repo_fetcher R w) c k = Some x \<and> 2 \<le> length (fetched_parents (repo_fetcher R w) x) \<and>
            (\<forall>j \<le> k. \<forall>y. first_line (repo_fetcher R w) c j = Some y \<longrightarrow> y \<notin> roots)) \<or>
          e = PushrebaseKind (PushrebaseNoCommonRoot name roots) \<and> (\<forall>k x. first_line (repo_fetcher R w) c k = Some x \<longrightarrow> x \<notin> roots))"

lemma closest_step_ok:
  assumes c: "c \<in> known_in (rs_changesets w) (repoid R)" and inv: "closest_inv R roots c w s"
  shows "\<exists>r. closest_ancestor_step R config name roots s w = Some (r, w) \<and>
     (case r of
        Inl e \<Rightarrow> closest_result R (recursion_limit config) name roots c w (Inl e)
      | Inr (Break a) \<Rightarrow> closest_result R (recursion_limit config) name roots c w (Inr a)
      | Inr (Continue s') \<Rightarrow> closest_inv R roots c w s' \<and> recursion_limit config - snd s' < recursion_limit config - snd s)"
proof -
  obtain queue depth where s: "s = (queue, depth)" by fastforce
  let ?line = "first_line (repo_fetcher R w) c" and ?limit = "recursion_limit config"
  have q: "queue = (case ?line depth of None \<Rightarrow> [] | Some x \<Rightarrow> [x])" and before: "\<forall>j < depth. \<forall>x. ?line j = Some x \<longrightarrow> x \<notin> roots"
    using inv s by (auto simp: closest_inv_def)
  show ?thesis
  proof (cases "?limit \<le> depth")
    case True
    then have "x \<notin> roots" if "?line k = Some x" "k < ?limit" for k x using before that order_less_le_trans [OF that(2) True] by blast
    then show ?thesis using s True by (auto simp: closest_ancestor_step_def op_of_def closest_result_def)
  next
    case deep: False
    show ?thesis
    proof (cases "?line depth")
      case None
      then have "x \<notin> roots" if "?line k = Some x" for k x using before that first_line_None [of "repo_fetcher R w" c depth k]
        by (cases "k < depth") auto
      then show ?thesis using s q None deep by (auto simp: closest_ancestor_step_def op_of_def closest_result_def)
    next
      case (Some x)
      note x = first_line_ancestor [OF c Some]
      show ?thesis
      proof (cases "x \<in> roots")
        case True
        have "depth < ?limit" using deep by simp
        then have "\<exists>k < ?limit. ?line k = Some x \<and> (\<forall>j < k. \<forall>x. ?line j = Some x \<longrightarrow> x \<notin> roots)" using Some before by blast
        then show ?thesis using s q Some deep x True by (simp add: closest_ancestor_step_def op_ok_def closest_result_def)
      next
        case False
        then have upto: "\<forall>j \<le> depth. \<forall>y. ?line j = Some y \<longrightarrow> y \<notin> roots" using before Some by (auto simp: le_less)
        then have next_inv: "closest_inv R roots c w (case ?line (Suc depth) of None \<Rightarrow> [] | Some x \<Rightarrow> [x], Suc depth)"
          by (simp add: closest_inv_def less_Suc_eq_le)
        have run: "closest_ancestor_step R config name roots s w =
            (case fetched_parents (repo_fetcher R w) x of
               [] \<Rightarrow> Some (Inr (Continue ([], Suc depth)), w)
             | [p] \<Rightarrow> Some (Inr (Continue ([p], Suc depth)), w)
             | _ \<Rightarrow> Some (Inl RebaseOverMerge, w))"
          using s q Some deep False parents_op [of x w R] x
          by (simp add: closest_ancestor_step_def op_then_def op_err_def op_ok_def op_of_def split: list.splits)
        show ?thesis
        proof (cases "fetched_parents (repo_fetcher R w) x")
          case Nil
          then show ?thesis using run next_inv Some deep s by simp
        next
          case (Cons p ps)
          show ?thesis
          proof (cases ps)
            case Nil
            then show ?thesis using Cons run next_inv Some deep s by simp
          next
            case (Cons p' ps')
            have "depth < ?limit" "2 \<le> length (fetched_parents (repo_fetcher R w) x)" using deep Cons \<open>_ = p # ps\<close> by simp_all
            then have "\<exists>k < ?limit. \<exists>x. ?line k = Some x \<and> 2 \<le> length (fetched_parents (repo_fetcher R w) x) \<and>
                (\<forall>j \<le> k. \<forall>y. ?line j = Some y \<longrightarrow> y \<notin> roots)" using Some upto by blast
            then show ?thesis using run Cons \<open>_ = p # ps\<close> by (simp add: closest_result_def)
          qed
        qed
      qed
    qed
  qed
qed

lemma closest_root_ok:
  assumes "c \<in> known_in (rs_changesets w) (repoid R)"
  shows "\<exists>r. find_closest_ancestor_root R config name roots c w = Some (r, w) \<and> closest_result R (recursion_limit config) name roots c w r"
proof -
  let ?f = "closest_ancestor_step R config name roots" and ?res = "closest_result R (recursion_limit config) name roots c w"
  let ?r = "measure (\<lambda>s. recursion_limit config - snd s) :: ((ChangesetId list \<times> nat) \<times> _) set"
  have step: "op_spec (\<lambda>v. v = w \<and> closest_inv R roots c w s) (?f s)
     (\<lambda>l v. case l of Break a \<Rightarrow> v = w \<and> ?res (Inr a) | Continue s' \<Rightarrow> (v = w \<and> closest_inv R roots c w s') \<and> (s', s) \<in> ?r)
     (\<lambda>e v. v = w \<and> ?res (Inl e))" for s
    unfolding op_spec_def using closest_step_ok [OF assms, of roots s config name] by (fastforce split: sum.splits Loop.splits)
  have "op_spec (\<lambda>v. v = w \<and> closest_inv R roots c w ([c], 0)) (loop_fn ?f ([c], 0)) (\<lambda>a v. v = w \<and> ?res (Inr a)) (\<lambda>e v. v = w \<and> ?res (Inl e))"
    by (rule loop_fn_ok [where I = "\<lambda>s v. v = w \<and> closest_inv R roots c w s", OF wf_measure step])
  moreover have "w = w \<and> closest_inv R roots c w ([c], 0)" by (simp add: closest_inv_def)
  ultimately obtain r where "find_closest_ancestor_root R config name roots c w = Some (r, w)" "?res r"
    unfolding find_closest_ancestor_root_def by (rule op_specD) auto
  then show ?thesis by blast
qed

text \<open>CX: the search for the root of a push. It always returns, after at most as many steps as the recursion limit,
  and changes nothing. It answers with the first of the roots on the line of parents from the bookmark, which is
  an ancestor of the bookmark less than the limit away. It answers that the root is too far behind only if no root
  is within the limit on that line, that the rebase is over a merge only if a merge comes before every root, and
  that there is no common root only if no root is on the line at all.\<close>

theorem find_closest_ancestor_root_correct:
  assumes "c \<in> known_in (rs_changesets w) (repoid R)"
  shows "\<exists>r. find_closest_ancestor_root R config name roots c w = Some (r, w) \<and>
     (case r of
        Inr root \<Rightarrow> root \<in> roots \<and> root \<in> ancestors (repo_fetcher R w) c \<and>
          (\<exists>k < recursion_limit config. first_line (repo_fetcher R w) c k = Some root \<and>
             (\<forall>j < k. \<forall>x. first_line (repo_fetcher R w) c j = Some x \<longrightarrow> x \<notin> roots))
      | Inl e \<Rightarrow>
          e = RootTooFarBehind \<and> (\<forall>k < recursion_limit config. \<forall>x. first_line (repo_fetcher R w) c k = Some x \<longrightarrow> x \<notin> roots) \<or>
          e = RebaseOverMerge \<and> (\<exists>k < recursion_limit config. \<exists>x. first_line (repo_fetcher R w) c k = Some x \<and>
            2 \<le> length (fetched_parents (repo_fetcher R w) x) \<and>
            (\<forall>j \<le> k. \<forall>y. first_line (repo_fetcher R w) c j = Some y \<longrightarrow> y \<notin> roots)) \<or>
          e = PushrebaseKind (PushrebaseNoCommonRoot name roots) \<and>
            (\<forall>k x. first_line (repo_fetcher R w) c k = Some x \<longrightarrow> x \<notin> roots))"
  using closest_root_ok [OF assms, of config name roots] unfolding closest_result_def by blast

end
