(* ===== verification/Spec2Isabelle.thy ===== *)
theory Spec2Isabelle
  imports Mononoke_Prelude MPaths Hashes Bonsai Delta Changesets Node_Streams Intersection Bookmarks Commit_Graph Range_Stream Blobstores Sync_Queue Multiplexed Healer Topo_Sort Blob_Repo Pushrebase_Files Pushrebase_Ops
begin

text \<open>
  Mononoke is a Mercurial server that keeps a repository as immutable blobs (changesets, manifests, file
  contents) in a blobstore, and the little that changes (which changesets are complete, where bookmarks
  point) in SQL tables. This development models the core of it and proves the properties the rest of the
  server relies on.

  \<^bold>\<open>Parts and theories.\<close>

  \<^item> \<open>Mononoke_Prelude\<close>: results (\<open>'e + 'a\<close>, an error on the left), ordered maps as sorted association
    lists (\<open>BTreeMap\<close>), orders in which hash sets are iterated.
  \<^item> \<open>MPaths\<close> (\<open>src/mononoke_types/src/path.rs\<close>): path elements, paths, the check that a changeset has no
    path conflicts, and the trie of case conflicts.
  \<^item> \<open>Hashes\<close>, \<open>Bonsai\<close> (\<open>hash.rs\<close>, \<open>typed_hash.rs\<close>, \<open>datetime.rs\<close>, \<open>file_change.rs\<close>,
    \<open>bonsai_changeset.rs\<close>, \<open>file_contents.rs\<close>, \<open>blob.rs\<close>): the immutable values, their verification
    (\<open>freeze\<close>) and their Thrift and blob forms.
  \<^item> \<open>Delta\<close> (\<open>src/mercurial_types/src/delta.rs\<close>, \<open>delta_apply.rs\<close>): deltas of revlogs and the folding of
    a chain of deltas into one, with the wrap-around of \<open>i32\<close> written out.
  \<^item> \<open>Changesets\<close> (\<open>src/changesets\<close>): the SQL store of the commit graph, with replica and master.
  \<^item> \<open>Bookmarks\<close> (\<open>src/bookmarks\<close>): names, the three tables, transactions and the update log.
  \<^item> \<open>Node_Streams\<close>, \<open>Intersection\<close>, \<open>Commit_Graph\<close>, \<open>Range_Stream\<close> (\<open>src/revset\<close>): union, intersection,
    difference and validation of streams of changesets; ancestors, common ancestors and ranges over the
    graph that the changeset store provides.
  \<^item> \<open>Blobstores\<close> (\<open>src/blobstore\<close>): the trait and the stores built from others; \<open>Sync_Queue\<close>,
    \<open>Multiplexed\<close>, \<open>Healer\<close>: several stores used as one, the queue of what is not yet everywhere, and the
    healer.

  \<^bold>\<open>State and operations.\<close> A table is the list of its rows and a query a function on it; the order of the
  rows of a \<open>SELECT\<close> without \<open>ORDER BY\<close> is an argument. A blobstore is a record of operations on an
  explicit state, so that a store over other stores is a function of records. A stream is the state of its
  \<open>poll\<close>: an input is the list of the outcomes of its polls, \<open>Pending\<close> included, and \<open>drive\<close> polls a
  stream until it has finished. An operation that can fail returns a sum; a panic is an error of its own
  or \<open>None\<close>.

  \<^bold>\<open>What is shown.\<close> For the values: what the checks accept, exactly, and that what is stored is read back.
  For deltas: folding a chain is applying it. For the tables: they implement the abstract store, what is
  recorded stays, bookmarks move by compare and swap and the log is their history. For streams: every
  stream finishes, under all delays and orders, and returns exactly its set, highest generations first.
  For blobstores: through failures, a successful \<open>get\<close> tells the truth and no stored blob is lost.

  \<^bold>\<open>Interfaces.\<close> The locales are the contracts between the parts: \<open>stream_iteration\<close> (a loop body with an
  invariant and a well-founded measure finishes with its specification), \<open>commit_graph\<close> (what the streams
  need of the changeset store), \<open>blobstore\<close>, \<open>sync_queue\<close> and \<open>multiplexed\<close>. Each is interpreted on the
  definitions that model the code.

  \<^bold>\<open>Bounds and fuel.\<close> \<open>drive\<close> has fuel; the theorems say that some amount is enough and that every larger
  amount gives the same result. \<open>handle_nodes\<close> of \<open>Range_Stream\<close> is a partial function in the option
  monad, shown to return. All other functions are total.

  \<^bold>\<open>Parameters.\<close> The Thrift compact protocol, BLAKE2, \<open>chrono\<close>, Unicode lower-casing, the iteration order
  of hash containers, the delays of futures and the clock are arguments, with what the code relies on as
  hypotheses.

  \<^bold>\<open>Not modelled.\<close> Logging, statistics, \<open>Debug\<close> and \<open>Display\<close>, command-line tools and servers that only
  connect libraries, and the services behind third-party clients. The manifest lists the parts that are
  left out and why.
\<close>

end
